(* ===== verification/Prelude.thy ===== *)
theory Prelude
  imports Main "HOL-Library.Word"
begin

text \<open>
  Shared ground of the development: the machine types of src/src/common/types.h, the ways an
  operation of the C code can stop (\<open>fault\<close>), sequencing of fallible operations
  (\<open>ebind\<close>), bounded memory copies (\<open>mem_write\<close>, \<open>mem_read\<close>) and the fact collections
  the component theories feed.
\<close>

unbundle bit_operations_syntax

section \<open>Types and fact collections\<close>

type_synonym byte = "8 word"
type_synonym uint_t = "64 word"

text \<open>A byte of a malloc'ed block; \<open>None\<close> is a byte that was never written.\<close>

type_synonym cell = "byte option"

named_theorems mem_simps \<open>reading and writing memory blocks\<close>
named_theorems regs \<open>register allocator facts\<close>
named_theorems emits \<open>what the compiler appends to a program\<close>

section \<open>Faults and sequencing\<close>

text \<open>
  How a C operation can fail to return normally: \<open>err_out_of_memory\<close> exits the process,
  \<open>Exit_Error\<close> is \<open>error_and_exit\<close> with its message, \<open>Exited\<close> is the script's own call of
  \<open>exit\<close>, \<open>Out_Of_Fuel\<close> is a recursion that has not ended yet, \<open>Collector_Starts\<close> is an
  allocation during a run that calls the collector (the model stops there), and the remaining constructors
  are the undefined behaviours the code can run into.
\<close>

datatype fault =
    Out_Of_Memory
  | Exit_Error string
  | Out_Of_Bounds
  | Undefined_Value
  | Null_Deref
  | Out_Of_Fuel
  | Collector_Starts
  | Exited uint_t

fun ebind :: "'e + 'a \<Rightarrow> ('a \<Rightarrow> 'e + 'b) \<Rightarrow> 'e + 'b" where
  "ebind (Inl e) f = Inl e"
| "ebind (Inr a) f = f a"

lemma ebind_Inr_iff: "ebind m f = Inr b \<longleftrightarrow> (\<exists>a. m = Inr a \<and> f a = Inr b)"
  by (cases m) auto

lemma ebind_InrE:
  assumes "ebind m f = Inr b"
  obtains a where "m = Inr a" "f a = Inr b"
  using assms by (auto simp: ebind_Inr_iff)

lemma ebind_assoc: "ebind (ebind m f) g = ebind m (\<lambda>x. ebind (f x) g)"
  by (cases m) auto

lemma ebind_cong [fundef_cong]:
  "m = m' \<Longrightarrow> (\<And>a. m' = Inr a \<Longrightarrow> f a = g a) \<Longrightarrow> ebind m f = ebind m' g"
  by (cases m') auto

section \<open>Memory blocks\<close>

text \<open>\<open>memcpy\<close> into and out of a block; touching a byte outside it is undefined behaviour.\<close>

definition mem_write :: "nat \<Rightarrow> cell list \<Rightarrow> cell list \<Rightarrow> fault + cell list" where
  "mem_write off bs mem =
     (if off + length bs \<le> length mem
      then Inr (take off mem @ bs @ drop (off + length bs) mem)
      else Inl Out_Of_Bounds)"

definition mem_read :: "nat \<Rightarrow> nat \<Rightarrow> cell list \<Rightarrow> fault + cell list" where
  "mem_read off n mem =
     (if off + n \<le> length mem then Inr (take n (drop off mem)) else Inl Out_Of_Bounds)"

lemma mem_write_length [mem_simps]:
  "mem_write off bs mem = Inr mem' \<Longrightarrow> length mem' = length mem"
  by (auto simp: mem_write_def split: if_splits)

lemma mem_write_ok: "off + length bs \<le> length mem \<Longrightarrow> \<exists>mem'. mem_write off bs mem = Inr mem'"
  by (simp add: mem_write_def)

text \<open>Reading back what was written, and what lies before or after it.\<close>

lemma slice_write_same [mem_simps]:
  "mem_write off bs mem = Inr mem' \<Longrightarrow> take (length bs) (drop off mem') = bs"
  by (auto simp: mem_write_def split: if_splits)

lemma slice_write_before [mem_simps]:
  assumes "mem_write off bs mem = Inr mem'" "o2 + n \<le> off"
  shows "take n (drop o2 mem') = take n (drop o2 mem)"
proof -
  from assms have m': "mem' = take off mem @ bs @ drop (off + length bs) mem"
    and len: "off \<le> length mem"
    by (auto simp: mem_write_def split: if_splits)
  have "take n (drop o2 (take off mem @ bs @ drop (off + length bs) mem))
      = take n (drop o2 (take off mem))"
    using assms(2) len by simp
  also have "\<dots> = take n (drop o2 mem)"
    using assms(2) by (simp add: drop_take min_def)
  finally show ?thesis using m' by simp
qed

lemma slice_write_after [mem_simps]:
  assumes "mem_write off bs mem = Inr mem'" "off + length bs \<le> o2"
  shows "take n (drop o2 mem') = take n (drop o2 mem)"
proof -
  from assms have m': "mem' = take off mem @ bs @ drop (off + length bs) mem"
    and len: "off + length bs \<le> length mem"
    by (auto simp: mem_write_def split: if_splits)
  have "drop o2 mem' = drop (o2 - (off + length bs)) (drop (off + length bs) mem)"
    using m' len assms(2) by (simp add: drop_append)
  also have "\<dots> = drop o2 mem" using assms(2) by simp
  finally show ?thesis by simp
qed

section \<open>Lists\<close>

lemma nth_eqI: "length xs = length ys \<Longrightarrow> (\<And>i. i < length xs \<Longrightarrow> xs ! i = ys ! i) \<Longrightarrow> xs = ys"
  by (simp add: list_eq_iff_nth_eq)

lemma sum_list_remove1:
  "x \<in> set xs \<Longrightarrow> sum_list (map f (remove1 x xs)) = sum_list (map f xs) - (f x :: 'b::ab_group_add)"
  by (induction xs) auto

end
