(* ===== verification/Alloc.thy ===== *)
theory Alloc
  imports Prelude
begin

text \<open>
  src/src/common/alloc.c: the accounting allocator. Every block carries its own size (header
  included) in the word before the pointer handed out; \<open>used_heap\<close> is the sum of those
  sizes. Sizes are 64-bit words, and adding the header's size to a request may wrap. \<open>malloc\<close> itself
  is the C library's: whether its k-th call succeeds is the environment's choice, the field \<open>malloc_ok\<close>.
\<close>

section \<open>State\<close>

record block =
  header :: uint_t
  cells :: "cell list"

text \<open>\<open>used_heap\<close> and \<open>heap_limit\<close> are \<open>int_t\<close>: words, compared as signed numbers.\<close>

record heap =
  used_heap :: uint_t
  heap_limit :: uint_t
  mallocs :: nat
  malloc_ok :: "nat \<Rightarrow> bool"

definition heap_init :: "(nat \<Rightarrow> bool) \<Rightarrow> heap" where
  "heap_init ok = \<lparr>used_heap = 0, heap_limit = 1 * (1024 * 1024), mallocs = 0, malloc_ok = ok\<rparr>"

definition sizeof_uint_t :: nat where
  "sizeof_uint_t = 8"

section \<open>Operations\<close>

text \<open>\<open>Z_MALLOC\<close>: \<open>None\<close> is the null pointer; a fresh block's bytes are unspecified.\<close>

definition z_malloc :: "uint_t \<Rightarrow> heap \<Rightarrow> cell list option \<times> heap" where
  "z_malloc sz h =
     ((if malloc_ok h (mallocs h) then Some (replicate (unat sz) None) else None),
      h\<lparr>mallocs := Suc (mallocs h)\<rparr>)"

text \<open>
  The decorated pointer: the header word holds \<open>size\<close>, the cells are what follows it. A block too
  small for its header (its size has wrapped) is written out of bounds.
\<close>

definition z_decorate_ptr :: "cell list \<Rightarrow> uint_t \<Rightarrow> fault + block" where
  "z_decorate_ptr raw sz =
     (if length raw < sizeof_uint_t then Inl Out_Of_Bounds
      else Inr \<lparr>header = sz, cells = drop sizeof_uint_t raw\<rparr>)"

definition z_undecorate_ptr :: "block \<Rightarrow> heap \<Rightarrow> heap" where
  "z_undecorate_ptr b h = h\<lparr>used_heap := used_heap h - header b\<rparr>"

definition z_free :: "block \<Rightarrow> heap \<Rightarrow> heap" where
  "z_free b h = z_undecorate_ptr b h"

definition z_alloc_or_die :: "uint_t \<Rightarrow> heap \<Rightarrow> fault + (block \<times> heap)" where
  "z_alloc_or_die size0 h =
     (let sz = size0 + word_of_nat sizeof_uint_t;
          h1 = h\<lparr>used_heap := used_heap h + sz\<rparr>;
          (ptr, h2) = z_malloc sz h1
      in case ptr of
           None \<Rightarrow> Inl Out_Of_Memory
         | Some raw \<Rightarrow> ebind (z_decorate_ptr raw sz) (\<lambda>b. Inr (b, h2)))"

text \<open>
  \<open>schedule_gc\<close> is called before the block exists, and after its size has been added; what it does to the
  heap and to the rest of the state is passed as an argument.
\<close>

definition z_alloc_or_gc ::
  "(heap \<times> 's \<Rightarrow> fault + (heap \<times> 's)) \<Rightarrow> uint_t \<Rightarrow> heap \<times> 's \<Rightarrow> fault + (block \<times> heap \<times> 's)" where
  "z_alloc_or_gc schedule_gc size0 s =
     (let sz = size0 + word_of_nat sizeof_uint_t;
          h1 = (fst s)\<lparr>used_heap := used_heap (fst s) + sz\<rparr>
      in ebind (if sint (heap_limit h1) < sint (used_heap h1) then schedule_gc (h1, snd s) else Inr (h1, snd s))
           (\<lambda>(h2, x).
              let (ptr, h3) = z_malloc sz h2
              in case ptr of
                   None \<Rightarrow> Inl Out_Of_Memory
                 | Some raw \<Rightarrow> ebind (z_decorate_ptr raw sz) (\<lambda>b. Inr (b, h3, x))))"

section \<open>Accounting\<close>

text \<open>The malloc oracle never fails.\<close>

definition mem_plenty :: "heap \<Rightarrow> bool" where
  "mem_plenty h \<longleftrightarrow> malloc_ok h = (\<lambda>_. True)"

text \<open>A block the allocator made: its header is its length plus the header word.\<close>

definition block_ok :: "block \<Rightarrow> bool" where
  "block_ok b \<longleftrightarrow> unat (header b) = length (cells b) + sizeof_uint_t"

text \<open>The heap accounts for the live blocks, with \<open>d\<close> more on the way.\<close>

definition accounted :: "uint_t \<Rightarrow> heap \<Rightarrow> block list \<Rightarrow> bool" where
  "accounted d h live \<longleftrightarrow> used_heap h = d + (\<Sum>b\<leftarrow>live. header b) \<and> (\<forall>b \<in> set live. block_ok b)"

lemma z_alloc_or_die_plenty:
  assumes "mem_plenty h" "unat n + 8 < 2 ^ 64"
  shows "z_alloc_or_die n h =
     Inr (\<lparr>header = n + 8, cells = replicate (unat n) None\<rparr>,
          h\<lparr>used_heap := used_heap h + (n + 8), mallocs := Suc (mallocs h)\<rparr>)"
proof -
  have "unat (n + 8) = unat n + 8" using assms(2) by (subst unat_add_lem[THEN iffD1]) simp_all
  then show ?thesis using assms(1)
    by (simp add: z_alloc_or_die_def z_malloc_def z_decorate_ptr_def mem_plenty_def sizeof_uint_t_def Let_def)
qed

lemma z_decorate_result: "z_decorate_ptr (replicate (unat sz) None) sz = Inr b \<Longrightarrow> block_ok b \<and> header b = sz"
  by (auto simp: z_decorate_ptr_def block_ok_def split: if_splits)

lemma z_alloc_or_die_result:
  assumes "z_alloc_or_die n h = Inr (b, h')"
  shows "block_ok b" "used_heap h' = used_heap h + header b" 
  using assms
  by (auto simp: z_alloc_or_die_def z_malloc_def Let_def ebind_Inr_iff dest!: z_decorate_result split: if_splits)

lemma z_alloc_or_gc_result:
  assumes "z_alloc_or_gc schedule_gc n s = Inr (b, h', x)"
  obtains h1 where "used_heap h1 = used_heap (fst s) + header b" "block_ok b" 
    "h1 = (fst s)\<lparr>used_heap := used_heap h1\<rparr>"
    "schedule_gc (h1, snd s) = Inr (h'\<lparr>mallocs := mallocs h' - 1\<rparr>, x) \<or>
     h1 = h'\<lparr>mallocs := mallocs h' - 1\<rparr> \<and> x = snd s"
proof -
  let ?sz = "n + word_of_nat sizeof_uint_t"
  let ?h1 = "(fst s)\<lparr>used_heap := used_heap (fst s) + ?sz\<rparr>"
  obtain h2 raw where m: "schedule_gc (?h1, snd s) = Inr (h2, x) \<or> ?h1 = h2 \<and> x = snd s"
    "z_malloc ?sz h2 = (Some raw, h')" "z_decorate_ptr raw ?sz = Inr b"
    using assms unfolding z_alloc_or_gc_def Let_def
    by (elim ebind_InrE) (fastforce elim!: ebind_InrE split: if_splits prod.splits option.splits)
  then have r: "raw = replicate (unat ?sz) None" and h: "h2 = h'\<lparr>mallocs := mallocs h' - 1\<rparr>"
    by (auto simp: z_malloc_def split: if_splits)
  note b = z_decorate_result[OF m(3)[unfolded r]]
  show ?thesis by (rule that[of ?h1]) (use b m(1) h in auto)
qed

lemma z_free_heap [simp]:
  "used_heap (z_free b h) = used_heap h - header b"
  "malloc_ok (z_free b h) = malloc_ok h" "heap_limit (z_free b h) = heap_limit h"
  by (simp_all add: z_free_def z_undecorate_ptr_def)

lemma mem_plenty_upd [simp]:
  "mem_plenty (h\<lparr>used_heap := u\<rparr>) = mem_plenty h"
  "mem_plenty (h\<lparr>mallocs := m\<rparr>) = mem_plenty h"
  "mem_plenty (z_free b h) = mem_plenty h"
  by (simp_all add: mem_plenty_def)

lemma accounted_alloc:
  assumes "accounted d h live" "z_alloc_or_die n h = Inr (b, h')"
  shows "accounted d h' (b # live)"
  using assms(1) z_alloc_or_die_result[OF assms(2)] by (simp add: accounted_def)

lemma accounted_free:
  assumes "accounted d h live" "b \<in> set live"
  shows "accounted d (z_free b h) (remove1 b live)"
  using assms by (auto simp: accounted_def sum_list_remove1 dest: notin_set_remove1)

section \<open>Runs of the allocator\<close>

text \<open>
  Allocations and releases over a list of live blocks; and a run in which some allocations are
  \<open>z_alloc_or_gc\<close>, each with the operations the collector performs should it be called.
\<close>

datatype heap_op = Alloc_op uint_t | Free_op nat

fun heap_run :: "heap_op list \<Rightarrow> heap \<times> block list \<Rightarrow> fault + (heap \<times> block list)" where
  "heap_run [] s = Inr s"
| "heap_run (Alloc_op n # ops) (h, live) =
     ebind (z_alloc_or_die n h) (\<lambda>(b, h'). heap_run ops (h', b # live))"
| "heap_run (Free_op i # ops) (h, live) =
     (if i < length live
      then heap_run ops (z_free (live ! i) h, remove1 (live ! i) live)
      else Inl Undefined_Value)"

datatype alloc_event = Plain heap_op | Collecting_alloc uint_t "heap_op list"

fun alloc_run :: "alloc_event list \<Rightarrow> heap \<times> block list \<Rightarrow> fault + (heap \<times> block list)" where
  "alloc_run [] s = Inr s"
| "alloc_run (Plain p # es) s = ebind (heap_run [p] s) (alloc_run es)"
| "alloc_run (Collecting_alloc n collection # es) s =
     ebind (z_alloc_or_gc (heap_run collection) n s) (\<lambda>(b, h, live). alloc_run es (h, b # live))"

lemma accounted_heap_run:
  "accounted d (fst s) (snd s) \<Longrightarrow> heap_run ops s = Inr (h, live) \<Longrightarrow> accounted d h live"
proof (induction ops s rule: heap_run.induct)
  case (1 s)
  then show ?case by simp
next
  case (2 n ops h0 live0)
  from 2(3) obtain b h1 where a: "z_alloc_or_die n h0 = Inr (b, h1)"
    and r: "heap_run ops (h1, b # live0) = Inr (h, live)"
    by (auto simp: ebind_Inr_iff)
  have "accounted d h1 (b # live0)" using accounted_alloc[OF _ a] 2(2) by simp
  with 2(1)[OF a refl] r show ?case by simp
next
  case (3 i ops h0 live0)
  from 3(3) have i: "i < length live0" by (auto split: if_splits)
  then have "accounted d (z_free (live0 ! i) h0) (remove1 (live0 ! i) live0)"
    using 3(2) by (intro accounted_free) auto
  with 3 i show ?case by simp
qed

lemma accounted_collecting:
  assumes "accounted 0 (fst s) (snd s)" "z_alloc_or_gc (heap_run collection) n s = Inr (b, h, live)"
  shows "accounted 0 h (b # live)"
proof -
  obtain h1 where h1: "used_heap h1 = used_heap (fst s) + header b" "block_ok b" "h1 = (fst s)\<lparr>used_heap := used_heap h1\<rparr>"
    "heap_run collection (h1, snd s) = Inr (h\<lparr>mallocs := mallocs h - 1\<rparr>, live) \<or>
     h1 = h\<lparr>mallocs := mallocs h - 1\<rparr> \<and> live = snd s"
    by (rule z_alloc_or_gc_result[OF assms(2)])
  have "accounted (header b) h1 (snd s)" using assms(1) h1(1) by (simp add: accounted_def)
  with h1(4) have "accounted (header b) (h\<lparr>mallocs := mallocs h - 1\<rparr>) live"
    using accounted_heap_run[of "header b" "(h1, snd s)"] by auto
  then show ?thesis using h1(2) by (simp add: accounted_def)
qed

lemma accounted_run:
  "accounted 0 (fst s) (snd s) \<Longrightarrow> alloc_run es s = Inr (h, live) \<Longrightarrow> accounted 0 h live"
proof (induction es s rule: alloc_run.induct)
  case (2 p es s)
  from 2(3) obtain h1 live1 where r: "heap_run [p] s = Inr (h1, live1)" "alloc_run es (h1, live1) = Inr (h, live)"
    by (auto simp: ebind_Inr_iff)
  show ?case using 2(1)[OF r(1)] accounted_heap_run[OF 2(2) r(1)] r(2) by simp
next
  case (3 n collection es s)
  from 3(3) obtain b h1 live1 where r: "z_alloc_or_gc (heap_run collection) n s = Inr (b, h1, live1)"
    "alloc_run es (h1, b # live1) = Inr (h, live)"
    by (auto simp: ebind_Inr_iff)
  show ?case using 3(1)[OF r(1)] accounted_collecting[OF 3(2) r(1)] r(2) by simp
qed simp

lemma header_length: "block_ok b \<Longrightarrow> header b = word_of_nat (length (cells b) + sizeof_uint_t)"
  unfolding block_ok_def by (drule arg_cong[where f = "word_of_nat :: nat \<Rightarrow> uint_t"]) simp

lemma header_sum:
  "\<forall>b \<in> set live. block_ok b \<Longrightarrow>
   (\<Sum>b\<leftarrow>live. header b) = word_of_nat (\<Sum>b\<leftarrow>live. length (cells b) + sizeof_uint_t)"
  by (induction live) (simp_all add: header_length)

section \<open>Properties\<close>

text \<open>
  C29: after any sequence of calls of \<open>z_alloc_or_die\<close>, \<open>z_alloc_or_gc\<close> and \<open>z_free\<close> from the initial state,
  whatever \<open>malloc\<close> does and whatever the collector allocates and releases when it is called, \<open>used_heap\<close>
  is the memory of the live blocks, headers included, modulo \<open>2 ^ 64\<close>; as long as that memory is below
  \<open>2 ^ 63\<close> the signed counter is exactly this number, so it neither drifts nor goes negative.
\<close>

theorem allocator_accounts:
  assumes "alloc_run es (heap_init ok, []) = Inr (h, live)"
  shows "used_heap h = word_of_nat (\<Sum>b\<leftarrow>live. length (cells b) + sizeof_uint_t) \<and>
    ((\<Sum>b\<leftarrow>live. length (cells b) + sizeof_uint_t) < 2 ^ 63 \<longrightarrow>
     sint (used_heap h) = int (\<Sum>b\<leftarrow>live. length (cells b) + sizeof_uint_t))"
proof -
  have "accounted 0 h live"
    using accounted_run[OF _ assms] by (simp add: accounted_def heap_init_def)
  then have u: "used_heap h = word_of_nat (\<Sum>b\<leftarrow>live. length (cells b) + sizeof_uint_t)"
    by (simp add: accounted_def header_sum)
  have "sint (word_of_nat k :: uint_t) = int k" if "k < 2 ^ 63" for k
  proof -
    have "int k < 2 ^ 63" using that by (simp only: of_nat_less_numeral_power_cancel_iff)
    then have "signed_take_bit 63 (int k) = int k" by (intro signed_take_bit_int_eq_self) simp_all
    then show ?thesis by (simp add: signed_of_nat)
  qed
  then show ?thesis using u by simp
qed

text \<open>A request that collects: the limit is passed, and the collection releases the first block.\<close>

theorem allocator_accounts_witness:
  "\<exists>h live. alloc_run [Plain (Alloc_op 16), Plain (Alloc_op 3), Collecting_alloc 1048576 [Free_op 1]]
      (heap_init (\<lambda>_. True), []) = Inr (h, live) \<and>
     used_heap h = word_of_nat (\<Sum>b\<leftarrow>live. length (cells b) + sizeof_uint_t) \<and> used_heap h = 1048595"
proof -
  obtain h live where r:
    "alloc_run [Plain (Alloc_op 16), Plain (Alloc_op 3), Collecting_alloc 1048576 [Free_op 1]]
      (heap_init (\<lambda>_. True), []) = Inr (h, live)"
    and u: "used_heap h = 1048595"
    by (simp add: heap_init_def z_alloc_or_die_plenty mem_plenty_def z_alloc_or_gc_def z_malloc_def
      z_decorate_ptr_def sizeof_uint_t_def z_free_def z_undecorate_ptr_def Let_def)
  from allocator_accounts[OF r] r u show ?thesis by blast
qed

end
