(* ===== verification/ArrayList.thy ===== *)
theory ArrayList
  imports Alloc
begin

text \<open>
  src/src/common/data_structures/arraylist.c at the level of bytes: a growable array whose items
  are \<open>size_of_item\<close> bytes each, kept in one malloc'ed block with a \<open>top\<close> pointer (here
  an offset into the block). Items are byte lists. The first sections are the code; then its
  abstraction to the list of items it holds, the contract \<open>vector_ops\<close> its clients rely on,
  and the interpretation of that contract.
\<close>

section \<open>The structure\<close>

record arraylist =
  al_size :: int
  al_capacity :: int
  al_data :: block
  al_top :: int
  size_of_item :: nat
  al_header :: uint_t

definition ARRAY_LIST_INITIAL_CAPACITY :: int where
  "ARRAY_LIST_INITIAL_CAPACITY = 3"

definition sizeof_arraylist_t :: nat where
  "sizeof_arraylist_t = 40"

text \<open>A byte access at a signed offset: negative offsets are outside the block.\<close>

definition poke :: "int \<Rightarrow> cell list \<Rightarrow> block \<Rightarrow> fault + block" where
  "poke off bs b =
     (if off < 0 then Inl Out_Of_Bounds
      else ebind (mem_write (nat off) bs (cells b)) (\<lambda>cs. Inr (b\<lparr>cells := cs\<rparr>)))"

definition peek :: "int \<Rightarrow> nat \<Rightarrow> block \<Rightarrow> fault + cell list" where
  "peek off n b = (if off < 0 then Inl Out_Of_Bounds else mem_read (nat off) n (cells b))"

section \<open>Operations\<close>

definition arraylist_new_capacity :: "nat \<Rightarrow> int \<Rightarrow> heap \<Rightarrow> fault + (arraylist \<times> heap)" where
  "arraylist_new_capacity item cap h =
     ebind (z_alloc_or_die (word_of_nat sizeof_arraylist_t) h) (\<lambda>(self, h1).
     ebind (z_alloc_or_die (word_of_int (int item * cap)) h1) (\<lambda>(d, h2).
     Inr (\<lparr>al_size = 0, al_capacity = cap, al_data = d, al_top = 0, size_of_item = item,
           al_header = header self\<rparr>, h2)))"

definition arraylist_new :: "nat \<Rightarrow> heap \<Rightarrow> fault + (arraylist \<times> heap)" where
  "arraylist_new item h = arraylist_new_capacity item ARRAY_LIST_INITIAL_CAPACITY h"

definition extend_capacity :: "arraylist \<Rightarrow> heap \<Rightarrow> fault + (arraylist \<times> heap)" where
  "extend_capacity l h =
     ebind (z_alloc_or_die (word_of_int (al_capacity l * int (size_of_item l) * 2)) h) (\<lambda>(new_data, h1).
     ebind (peek 0 (nat (al_size l * int (size_of_item l))) (al_data l)) (\<lambda>old.
     ebind (poke 0 old new_data) (\<lambda>copied.
     Inr (l\<lparr>al_data := copied, al_capacity := al_capacity l * 2,
            al_top := al_size l * int (size_of_item l)\<rparr>,
          z_free (al_data l) h1))))"

text \<open>\<open>item\<close> is the \<open>size_of_item\<close> bytes the argument points to.\<close>

definition arraylist_push ::
  "arraylist \<Rightarrow> cell list \<Rightarrow> heap \<Rightarrow> fault + (int \<times> arraylist \<times> heap)" where
  "arraylist_push l item h =
     ebind (if al_size l \<ge> al_capacity l then extend_capacity l h else Inr (l, h)) (\<lambda>(l1, h1).
     ebind (poke (al_top l1) item (al_data l1)) (\<lambda>d.
     Inr (al_size l1 + 1 - 1,
          l1\<lparr>al_data := d, al_top := al_top l1 + int (size_of_item l1),
             al_size := al_size l1 + 1\<rparr>, h1)))"

definition arraylist_set ::
  "arraylist \<Rightarrow> cell list \<Rightarrow> int \<Rightarrow> heap \<Rightarrow> fault + (arraylist \<times> heap)" where
  "arraylist_set l item index h =
     ebind (if al_size l \<ge> al_capacity l then extend_capacity l h else Inr (l, h)) (\<lambda>(l1, h1).
     ebind (poke (int (size_of_item l1) * index) item (al_data l1)) (\<lambda>d.
     Inr (l1\<lparr>al_data := d\<rparr>, h1)))"

text \<open>
  \<open>top\<close>, \<open>pop\<close> and \<open>get\<close> return pointers into the block; the model returns
  the item bytes a caller reads through them.
\<close>

definition arraylist_top :: "arraylist \<Rightarrow> fault + cell list" where
  "arraylist_top l = peek (al_top l - int (size_of_item l)) (size_of_item l) (al_data l)"

definition arraylist_pop :: "arraylist \<Rightarrow> fault + (cell list \<times> arraylist)" where
  "arraylist_pop l =
     (let l1 = l\<lparr>al_size := al_size l - 1, al_top := al_top l - int (size_of_item l)\<rparr>
      in ebind (peek (al_top l1) (size_of_item l1) (al_data l1)) (\<lambda>bs. Inr (bs, l1)))"

definition arraylist_get :: "arraylist \<Rightarrow> int \<Rightarrow> fault + cell list" where
  "arraylist_get l index =
     peek (index * int (size_of_item l)) (size_of_item l) (al_data l)"

text \<open>
  The removal loops. Both close the gap by copying \<open>size - i\<close> \<^emph>\<open>bytes\<close> and leave
  \<open>top\<close> where it was.
\<close>

definition close_gap :: "arraylist \<Rightarrow> int \<Rightarrow> fault + arraylist" where
  "close_gap l i =
     (let l1 = l\<lparr>al_size := al_size l - 1\<rparr>; item = int (size_of_item l) in
      ebind (peek ((i + 1) * item) (nat (al_size l1 - i)) (al_data l1)) (\<lambda>bs.
      ebind (poke (i * item) bs (al_data l1)) (\<lambda>d. Inr (l1\<lparr>al_data := d\<rparr>))))"

definition arraylist_remove_index :: "arraylist \<Rightarrow> int \<Rightarrow> fault + arraylist" where
  "arraylist_remove_index l i = close_gap l i"

function remove_item_from :: "int \<Rightarrow> arraylist \<Rightarrow> cell list \<Rightarrow> fault + arraylist" where
  "remove_item_from i l item =
     (if i < al_size l
      then ebind (arraylist_get l i) (\<lambda>next.
             if item = next then close_gap l i else remove_item_from (i + 1) l item)
      else Inr l)"
  by pat_completeness auto
termination
  by (relation "measure (\<lambda>(i, l, item). nat (al_size l - i))") auto

declare remove_item_from.simps [simp del]

definition arraylist_remove_item :: "arraylist \<Rightarrow> cell list \<Rightarrow> fault + arraylist" where
  "arraylist_remove_item l item = remove_item_from 0 l item"

definition arraylist_free :: "arraylist \<Rightarrow> heap \<Rightarrow> heap" where
  "arraylist_free l h =
     (let h1 = z_free (al_data l) h in h1\<lparr>used_heap := used_heap h1 - al_header l\<rparr>)"

section \<open>Well-formed lists and the items they hold\<close>

definition al_wf :: "arraylist \<Rightarrow> bool" where
  "al_wf l \<longleftrightarrow> 0 < size_of_item l \<and> 0 < al_capacity l \<and> 0 \<le> al_size l \<and>
     al_size l \<le> al_capacity l \<and>
     int (length (cells (al_data l))) = al_capacity l * int (size_of_item l) \<and>
     al_top l = al_size l * int (size_of_item l) \<and> block_ok (al_data l)"

definition al_item :: "arraylist \<Rightarrow> nat \<Rightarrow> cell list" where
  "al_item l i = take (size_of_item l) (drop (i * size_of_item l) (cells (al_data l)))"

definition al_items :: "arraylist \<Rightarrow> cell list list" where
  "al_items l = map (al_item l) [0..<nat (al_size l)]"

lemma al_items_length [simp]: "length (al_items l) = nat (al_size l)"
  by (simp add: al_items_def)

lemma al_items_nth [simp]: "i < nat (al_size l) \<Longrightarrow> al_items l ! i = al_item l i"
  by (simp add: al_items_def)

lemma al_item_cong:
  "size_of_item l' = size_of_item l \<Longrightarrow>
   take (size_of_item l) (drop (i * size_of_item l) (cells (al_data l'))) = al_item l i \<Longrightarrow>
   al_item l' i = al_item l i"
  by (simp add: al_item_def)

lemma peek_ok:
  "0 \<le> off \<Longrightarrow> off + int n \<le> int (length (cells b)) \<Longrightarrow>
   peek off n b = Inr (take n (drop (nat off) (cells b)))"
  by (simp add: peek_def mem_read_def nat_le_iff flip: nat_int_add)

lemma poke_InrE:
  assumes "poke off bs b = Inr b'"
  obtains cs where "0 \<le> off" "mem_write (nat off) bs (cells b) = Inr cs" "b' = b\<lparr>cells := cs\<rparr>"
  using assms by (auto simp: poke_def ebind_Inr_iff split: if_splits)

lemma poke_ok:
  assumes "0 \<le> off" "off + int (length bs) \<le> int (length (cells b))"
  shows "\<exists>cs. mem_write (nat off) bs (cells b) = Inr cs \<and> poke off bs b = Inr (b\<lparr>cells := cs\<rparr>)"
proof -
  from assms have "nat off + length bs \<le> length (cells b)" by linarith
  then obtain cs where "mem_write (nat off) bs (cells b) = Inr cs"
    using mem_write_ok by blast
  with assms show ?thesis by (simp add: poke_def)
qed

section \<open>Growing\<close>

lemma al_wf_nat:
  assumes "al_wf l"
  obtains s c where "al_size l = int s" "al_capacity l = int c" "s \<le> c" "0 < c"
    "length (cells (al_data l)) = c * size_of_item l" "al_top l = int (s * size_of_item l)"
proof (rule that[of "nat (al_size l)" "nat (al_capacity l)"])
  from assms have nn: "al_size l = int (nat (al_size l))" "al_capacity l = int (nat (al_capacity l))"
    by (auto simp: al_wf_def)
  show "al_size l = int (nat (al_size l))" "al_capacity l = int (nat (al_capacity l))"
    by (rule nn)+
  show "nat (al_size l) \<le> nat (al_capacity l)" "0 < nat (al_capacity l)"
    using assms by (auto simp: al_wf_def)
  have "int (length (cells (al_data l))) = int (nat (al_capacity l) * size_of_item l)"
    using assms nn by (simp add: al_wf_def)
  then show "length (cells (al_data l)) = nat (al_capacity l) * size_of_item l"
    by (simp only: of_nat_eq_iff)
  show "al_top l = int (nat (al_size l) * size_of_item l)"
    using assms nn by (simp add: al_wf_def)
qed

lemma item_slice_le: "i < s \<Longrightarrow> i * k + k \<le> s * (k::nat)"
  by (metis Suc_leI add.commute mult_Suc mult_le_mono1)

lemma unat_request: "n < 2 ^ 64 \<Longrightarrow> unat (word_of_int (int n) :: uint_t) = n"
  by (simp only: of_int_of_nat_eq unsigned_of_nat) (simp add: take_bit_nat_eq_self)

lemma header_size: "unat n + 8 < 2 ^ 64 \<Longrightarrow> unat (n + 8 :: uint_t) = unat n + 8"
  by (subst unat_add_lem[THEN iffD1]) simp_all

lemma extend_capacity_ok:
  assumes wf: "al_wf l" and mem: "mem_plenty h" and small: "al_capacity l * int (size_of_item l) * 2 + 8 < 2 ^ 64"
  shows "\<exists>l' h'. extend_capacity l h = Inr (l', h') \<and> al_wf l' \<and> al_items l' = al_items l \<and>
    al_size l' = al_size l \<and> size_of_item l' = size_of_item l \<and> mem_plenty h' \<and>
    al_capacity l' = al_capacity l * 2 \<and> al_header l' = al_header l \<and>
    used_heap h' = used_heap h + header (al_data l') - header (al_data l)"
proof -
  let ?k = "size_of_item l"
  obtain s c where sc: "al_size l = int s" "al_capacity l = int c" "s \<le> c" "0 < c"
    and len: "length (cells (al_data l)) = c * ?k" by (rule al_wf_nat[OF wf])
  define sz :: uint_t where "sz = word_of_int (al_capacity l * int ?k * 2)"
  define nb where "nb = \<lparr>header = sz + 8, cells = replicate (c * ?k * 2) (None :: cell)\<rparr>"
  define h1 where "h1 = h\<lparr>used_heap := used_heap h + (sz + 8), mallocs := Suc (mallocs h)\<rparr>"
  define old where "old = take (s * ?k) (cells (al_data l))"
  have sk: "s * ?k \<le> c * ?k" using sc by simp
  have n0: "al_capacity l * int ?k * 2 = int (c * ?k * 2)" using sc by simp
  then have "int (c * ?k * 2 + 8) < int (2 ^ 64)" using small unfolding n0 by (simp only: of_nat_add) simp
  then have n1: "c * ?k * 2 + 8 < 2 ^ 64" by (simp only: of_nat_less_iff)
  then have n2: "unat sz = c * ?k * 2" unfolding sz_def n0 by (intro unat_request) simp
  have al: "z_alloc_or_die (word_of_int (al_capacity l * int ?k * 2)) h = Inr (nb, h1)"
    using n1 n2 unfolding sz_def[symmetric] by (subst z_alloc_or_die_plenty[OF mem]) (simp_all add: nb_def h1_def)
  have n3: "nat (al_size l * int ?k) = s * ?k"
    using sc by (simp add: nat_mult_distrib)
  have pk: "peek 0 (nat (al_size l * int ?k)) (al_data l) = Inr old"
    unfolding n3 using sk len by (subst peek_ok) (simp_all add: old_def flip: of_nat_mult)
  have lo: "length old = s * ?k" using sk len by (simp add: old_def)
  have "length old \<le> length (cells nb)" using lo sc by (simp add: nb_def)
  then have po: "poke 0 old nb = Inr (nb\<lparr>cells := old @ drop (length old) (cells nb)\<rparr>)"
    by (simp add: poke_def mem_write_def)
  define l' where "l' = l\<lparr>al_data := nb\<lparr>cells := old @ drop (length old) (cells nb)\<rparr>,
    al_capacity := al_capacity l * 2, al_top := al_size l * int ?k\<rparr>"
  have ex: "extend_capacity l h = Inr (l', z_free (al_data l) h1)"
    unfolding extend_capacity_def al using pk po by (simp add: l'_def)
  have k: "0 < ?k" using wf by (simp add: al_wf_def)
  have "length (cells (al_data l')) = c * ?k * 2"
    using lo sc by (simp add: l'_def nb_def)
  then have wf': "al_wf l'"
    using k sc n1 n2 by (simp add: al_wf_def l'_def block_ok_def nb_def sizeof_uint_t_def header_size n2)
  have "al_item l' i = al_item l i" if "i < s" for i
  proof (rule al_item_cong)
    have "i * ?k + ?k \<le> s * ?k" using that by (rule item_slice_le)
    then have le: "?k \<le> s * ?k - i * ?k" by simp
    have "take ?k (drop (i * ?k) (cells (al_data l'))) = take ?k (drop (i * ?k) old)"
      using le lo by (simp add: l'_def)
    also have "\<dots> = al_item l i"
      using le by (simp add: old_def al_item_def drop_take min_absorb1)
    finally show "take ?k (drop (i * ?k) (cells (al_data l'))) = al_item l i" .
  qed (simp add: l'_def)
  then have "al_items l' = al_items l"
    using sc by (simp add: al_items_def l'_def)
  moreover have "mem_plenty (z_free (al_data l) h1)" using mem by (simp add: h1_def)
  ultimately show ?thesis using ex wf'
    by (simp add: l'_def h1_def nb_def)
qed

text \<open>
  Twice the bytes in use fit into the address space: the block a full list is moved to can be
  requested. Every operation that grows the list starts from this normal form.
\<close>

definition al_room :: "arraylist \<Rightarrow> bool" where
  "al_room l \<longleftrightarrow> 2 * al_size l * int (size_of_item l) + 8 < 2 ^ 64"

lemma room_ok:
  assumes wf: "al_wf l" and mem: "mem_plenty h" and room: "al_room l"
  shows "\<exists>l' h'. (if al_size l \<ge> al_capacity l then extend_capacity l h else Inr (l, h)) = Inr (l', h') \<and>
    al_wf l' \<and> al_items l' = al_items l \<and> al_size l' = al_size l \<and>
    size_of_item l' = size_of_item l \<and> mem_plenty h' \<and> al_size l' < al_capacity l' \<and>
    al_header l' = al_header l \<and>
    used_heap h' = used_heap h + header (al_data l') - header (al_data l)"
proof (cases "al_size l \<ge> al_capacity l")
  case True
  then have "al_capacity l * int (size_of_item l) * 2 \<le> al_size l * int (size_of_item l) * 2"
    by (simp add: mult_right_mono)
  then have full: "al_capacity l * int (size_of_item l) * 2 + 8 < 2 ^ 64" using room by (simp add: al_room_def)
  obtain l' h' where "extend_capacity l h = Inr (l', h') \<and> al_wf l' \<and> al_items l' = al_items l \<and>
    al_size l' = al_size l \<and> size_of_item l' = size_of_item l \<and> mem_plenty h' \<and>
    al_capacity l' = al_capacity l * 2 \<and> al_header l' = al_header l \<and>
    used_heap h' = used_heap h + header (al_data l') - header (al_data l)"
    using extend_capacity_ok[OF wf mem] full by blast
  moreover have "al_size l < al_capacity l * 2" using wf by (simp add: al_wf_def)
  ultimately show ?thesis using True by simp
next
  case False
  with assms show ?thesis by simp
qed

section \<open>Functional behaviour of the operations\<close>

text \<open>Writing one item slot, inside the capacity: that slot changes and no other.\<close>

lemma poke_slot:
  assumes wf: "al_wf l" and i: "int i < al_capacity l" and x: "length x = size_of_item l"
  shows "\<exists>d. poke (int (size_of_item l) * int i) x (al_data l) = Inr d \<and>
    length (cells d) = length (cells (al_data l)) \<and> header d = header (al_data l) \<and>
    (\<forall>j. al_item (l\<lparr>al_data := d\<rparr>) j = (if j = i then x else al_item l j))"
proof -
  let ?k = "size_of_item l"
  obtain s c where sc: "al_size l = int s" "al_capacity l = int c" "s \<le> c" "0 < c"
    and len: "length (cells (al_data l)) = c * ?k" by (rule al_wf_nat[OF wf])
  have le: "i * ?k + ?k \<le> c * ?k" using i sc by (intro item_slice_le) simp
  have off: "nat (int ?k * int i) = i * ?k" by (simp add: nat_mult_distrib)
  have "int ?k * int i + int (length x) \<le> int (length (cells (al_data l)))"
    using le x len by (simp add: mult.commute flip: of_nat_mult of_nat_add)
  then obtain cs where w: "mem_write (i * ?k) x (cells (al_data l)) = Inr cs"
    and p: "poke (int ?k * int i) x (al_data l) = Inr ((al_data l)\<lparr>cells := cs\<rparr>)"
    using poke_ok[of "int ?k * int i" x "al_data l"] off by auto
  have same: "al_item (l\<lparr>al_data := (al_data l)\<lparr>cells := cs\<rparr>\<rparr>) i = x"
    using slice_write_same[OF w] x by (simp add: al_item_def)
  have other: "al_item (l\<lparr>al_data := (al_data l)\<lparr>cells := cs\<rparr>\<rparr>) j = al_item l j" if "j \<noteq> i" for j
  proof (cases "j < i")
    case True
    then have "j * ?k + ?k \<le> i * ?k" by (rule item_slice_le)
    from slice_write_before[OF w this] show ?thesis by (simp add: al_item_def)
  next
    case False
    with that have "i < j" by simp
    then have "i * ?k + length x \<le> j * ?k" unfolding x by (rule item_slice_le)
    from slice_write_after[OF w this] show ?thesis by (simp add: al_item_def)
  qed
  show ?thesis using p same other mem_write_length[OF w] by auto
qed

lemma al_items_update:
  "al_items (l\<lparr>al_data := d\<rparr>) = map (al_item (l\<lparr>al_data := d\<rparr>)) [0..<nat (al_size l)]"
  by (simp add: al_items_def)

lemma al_item_fields [simp]:
  "al_item (l\<lparr>al_size := n\<rparr>) i = al_item l i" "al_item (l\<lparr>al_top := n\<rparr>) i = al_item l i"
  by (simp_all add: al_item_def)

lemma arraylist_push_ok:
  assumes wf: "al_wf l" and mem: "mem_plenty h" and fits: "al_room l" and x: "length x = size_of_item l"
  shows "\<exists>l' h'. arraylist_push l x h = Inr (al_size l, l', h') \<and> al_wf l' \<and> mem_plenty h' \<and>
    al_items l' = al_items l @ [x] \<and> size_of_item l' = size_of_item l \<and>
    al_size l' = al_size l + 1 \<and> al_header l' = al_header l \<and>
    used_heap h' = used_heap h + header (al_data l') - header (al_data l)"
proof -
  obtain l1 h1 where r: "(if al_size l \<ge> al_capacity l then extend_capacity l h else Inr (l, h)) = Inr (l1, h1)"
    and wf1: "al_wf l1" and same: "al_items l1 = al_items l" "al_size l1 = al_size l"
      "size_of_item l1 = size_of_item l" "mem_plenty h1" "al_header l1 = al_header l"
    and room: "al_size l1 < al_capacity l1"
    and used: "used_heap h1 = used_heap h + header (al_data l1) - header (al_data l)"
    using room_ok[OF wf mem fits] by auto
  let ?k = "size_of_item l1"
  define s where "s = nat (al_size l1)"
  have s: "al_size l1 = int s" using wf1 by (simp add: al_wf_def s_def)
  have top: "al_top l1 = int ?k * int s" using wf1 s by (simp add: al_wf_def mult.commute)
  obtain d where d: "poke (int ?k * int s) x (al_data l1) = Inr d"
    and dl: "length (cells d) = length (cells (al_data l1))" "header d = header (al_data l1)"
    and items: "\<And>j. al_item (l1\<lparr>al_data := d\<rparr>) j = (if j = s then x else al_item l1 j)"
    using poke_slot[OF wf1, of s x] room s x same by auto
  define l' where "l' = l1\<lparr>al_data := d, al_top := al_top l1 + int ?k, al_size := al_size l1 + 1\<rparr>"
  have res: "arraylist_push l x h = Inr (al_size l, l', h1)"
    unfolding arraylist_push_def r using d same(2) by (simp add: top l'_def)
  have wf': "al_wf l'" using wf1 room dl by (simp add: al_wf_def l'_def block_ok_def algebra_simps)
  have "al_items l' = map (al_item (l1\<lparr>al_data := d\<rparr>)) [0..<Suc s]"
    using s by (simp add: al_items_def l'_def al_item_def nat_add_distrib)
  also have "\<dots> = al_items l1 @ [x]" using s by (simp add: items al_items_def)
  finally show ?thesis using res wf' same used dl by (auto simp: l'_def)
qed

lemma arraylist_set_ok:
  assumes wf: "al_wf l" and mem: "mem_plenty h" and fits: "al_room l" and x: "length x = size_of_item l"
    and i: "i < length (al_items l)"
  shows "\<exists>l' h'. arraylist_set l x (int i) h = Inr (l', h') \<and> al_wf l' \<and> mem_plenty h' \<and>
    al_items l' = (al_items l)[i := x] \<and> size_of_item l' = size_of_item l"
proof -
  obtain l1 h1 where r: "(if al_size l \<ge> al_capacity l then extend_capacity l h else Inr (l, h)) = Inr (l1, h1)"
    and wf1: "al_wf l1" and same: "al_items l1 = al_items l" "al_size l1 = al_size l"
      "size_of_item l1 = size_of_item l" "mem_plenty h1"
    and room: "al_size l1 < al_capacity l1"
    using room_ok[OF wf mem fits] by auto
  have il: "int i < al_capacity l1" using i same room by simp
  obtain d where d: "poke (int (size_of_item l1) * int i) x (al_data l1) = Inr d"
    and dl: "length (cells d) = length (cells (al_data l1))" "header d = header (al_data l1)"
    and items: "\<And>j. al_item (l1\<lparr>al_data := d\<rparr>) j = (if j = i then x else al_item l1 j)"
    using poke_slot[OF wf1 il, of x] x same by auto
  have "arraylist_set l x (int i) h = Inr (l1\<lparr>al_data := d\<rparr>, h1)"
    unfolding arraylist_set_def r using d by simp
  moreover have "al_wf (l1\<lparr>al_data := d\<rparr>)" using wf1 dl by (simp add: al_wf_def block_ok_def)
  moreover have "al_items (l1\<lparr>al_data := d\<rparr>) = (al_items l1)[i := x]"
    by (rule nth_eqI) (simp_all add: al_items_update items nth_list_update)
  ultimately show ?thesis using same by auto
qed

lemma arraylist_get_ok:
  assumes wf: "al_wf l" and i: "i < length (al_items l)"
  shows "arraylist_get l (int i) = Inr (al_items l ! i)"
proof -
  let ?k = "size_of_item l"
  obtain s c where sc: "al_size l = int s" "al_capacity l = int c" "s \<le> c" "0 < c"
    and len: "length (cells (al_data l)) = c * ?k" by (rule al_wf_nat[OF wf])
  have le: "i * ?k + ?k \<le> c * ?k" using i sc by (intro item_slice_le) simp
  have "int i * int ?k + int ?k \<le> int (length (cells (al_data l)))"
    using le len by (simp flip: of_nat_mult of_nat_add)
  then show ?thesis using i
    by (simp add: arraylist_get_def peek_ok al_item_def nat_mult_distrib)
qed

lemma arraylist_get_last:
  assumes wf: "al_wf l" and ne: "al_items l \<noteq> []"
  shows "peek (al_top l - int (size_of_item l)) (size_of_item l) (al_data l) = Inr (last (al_items l))"
proof -
  define n where "n = length (al_items l) - 1"
  have n: "n < length (al_items l)" using ne by (simp add: n_def del: al_items_length)
  have "al_size l = int n + 1" using n by (simp add: n_def)
  then have "al_top l - int (size_of_item l) = int n * int (size_of_item l)"
    using wf by (simp add: al_wf_def algebra_simps)
  moreover have "last (al_items l) = al_items l ! n" using ne by (simp add: n_def last_conv_nth)
  ultimately show ?thesis using arraylist_get_ok[OF wf n] by (simp add: arraylist_get_def)
qed

lemma arraylist_top_ok:
  "al_wf l \<Longrightarrow> al_items l \<noteq> [] \<Longrightarrow> arraylist_top l = Inr (last (al_items l))"
  by (simp add: arraylist_top_def arraylist_get_last)

lemma arraylist_pop_ok:
  assumes wf: "al_wf l" and ne: "al_items l \<noteq> []"
  shows "\<exists>l'. arraylist_pop l = Inr (last (al_items l), l') \<and> al_wf l' \<and>
    al_items l' = butlast (al_items l) \<and> size_of_item l' = size_of_item l"
proof -
  define l' where "l' = l\<lparr>al_size := al_size l - 1, al_top := al_top l - int (size_of_item l)\<rparr>"
  have pos: "0 < nat (al_size l)" using ne by (metis al_items_length length_greater_0_conv)
  have "arraylist_pop l = Inr (last (al_items l), l')"
    using arraylist_get_last[OF assms] by (simp add: arraylist_pop_def l'_def Let_def)
  moreover have "al_wf l'" using wf pos by (simp add: al_wf_def l'_def algebra_simps)
  moreover have "al_items l' = butlast (al_items l)"
    by (rule nth_eqI) (simp_all add: l'_def nth_butlast al_items_def nat_diff_distrib)
  ultimately show ?thesis by (simp add: l'_def)
qed

lemma arraylist_new_ok:
  assumes "mem_plenty h" "0 < k" "3 * k + 8 < 2 ^ 64"
  shows "\<exists>l h'. arraylist_new k h = Inr (l, h') \<and> al_wf l \<and> mem_plenty h' \<and> al_items l = [] \<and>
    size_of_item l = k"
proof -
  have n: "unat (word_of_nat k * 3 :: uint_t) = k * 3"
    using assms(3) unat_request[of "k * 3"] by simp
  show ?thesis using assms
    by (simp add: arraylist_new_def arraylist_new_capacity_def z_alloc_or_die_plenty n sizeof_arraylist_t_def
        header_size ARRAY_LIST_INITIAL_CAPACITY_def al_wf_def block_ok_def sizeof_uint_t_def al_items_def)
qed

section \<open>The contract the clients rely on\<close>

text \<open>
  What the interpreter (catch points), the map (bags), the compiler (instruction lists) and the
  event queue use of an array list: a state with the list of items it holds.
\<close>

primrec push_all :: "('s \<Rightarrow> 'x \<Rightarrow> 'e + 's) \<Rightarrow> 'x list \<Rightarrow> 's \<Rightarrow> 'e + 's" where
  "push_all push [] s = Inr s"
| "push_all push (x # xs) s = ebind (push s x) (push_all push xs)"

primrec pop_n :: "('s \<Rightarrow> 'e + ('x \<times> 's)) \<Rightarrow> nat \<Rightarrow> 's \<Rightarrow> 'e + ('x list \<times> 's)" where
  "pop_n pop 0 s = Inr ([], s)"
| "pop_n pop (Suc n) s =
     ebind (pop s) (\<lambda>(x, s1). ebind (pop_n pop n s1) (\<lambda>(xs, s2). Inr (x # xs, s2)))"

locale vector_ops =
  fixes inv :: "'s \<Rightarrow> bool"
    and items :: "'s \<Rightarrow> 'x list"
    and fits :: "'s \<Rightarrow> 'x \<Rightarrow> bool"
    and limit :: "'s \<Rightarrow> nat"
    and push :: "'s \<Rightarrow> 'x \<Rightarrow> fault + 's"
    and get :: "'s \<Rightarrow> nat \<Rightarrow> fault + 'x"
    and put :: "'s \<Rightarrow> 'x \<Rightarrow> nat \<Rightarrow> fault + 's"
    and top :: "'s \<Rightarrow> fault + 'x"
    and pop :: "'s \<Rightarrow> fault + ('x \<times> 's)"
  assumes push_law: "inv s \<Longrightarrow> fits s x \<Longrightarrow> length (items s) < limit s \<Longrightarrow>
      \<exists>s'. push s x = Inr s' \<and> inv s' \<and> items s' = items s @ [x] \<and> fits s' = fits s \<and> limit s' = limit s"
    and get_law: "inv s \<Longrightarrow> i < length (items s) \<Longrightarrow> get s i = Inr (items s ! i)"
    and put_law: "inv s \<Longrightarrow> fits s x \<Longrightarrow> i < length (items s) \<Longrightarrow>
      \<exists>s'. put s x i = Inr s' \<and> inv s' \<and> items s' = (items s)[i := x] \<and> fits s' = fits s \<and> limit s' = limit s"
    and top_law: "inv s \<Longrightarrow> items s \<noteq> [] \<Longrightarrow> top s = Inr (last (items s))"
    and pop_law: "inv s \<Longrightarrow> items s \<noteq> [] \<Longrightarrow>
      \<exists>s'. pop s = Inr (last (items s), s') \<and> inv s' \<and> items s' = butlast (items s) \<and> fits s' = fits s \<and> limit s' = limit s"
begin

lemma push_all_items:
  "inv s \<Longrightarrow> (\<forall>x \<in> set xs. fits s x) \<Longrightarrow> length (items s) + length xs \<le> limit s \<Longrightarrow>
   \<exists>s'. push_all push xs s = Inr s' \<and> inv s' \<and> items s' = items s @ xs \<and> fits s' = fits s"
proof (induction xs arbitrary: s)
  case Nil
  then show ?case by simp
next
  case (Cons x xs)
  then obtain s1 where s1: "push s x = Inr s1" "inv s1" "items s1 = items s @ [x]" "fits s1 = fits s" "limit s1 = limit s"
    using push_law[of s x] by auto
  with Cons.prems Cons.IH[of s1] show ?case by auto
qed

lemma pop_n_items:
  "inv s \<Longrightarrow> items s = ys @ xs \<Longrightarrow>
   \<exists>s'. pop_n pop (length xs) s = Inr (rev xs, s') \<and> inv s' \<and> items s' = ys"
proof (induction xs arbitrary: s rule: rev_induct)
  case Nil
  then show ?case by simp
next
  case (snoc x xs)
  then obtain s1 where s1: "pop s = Inr (x, s1)" "inv s1" "items s1 = ys @ xs"
    using pop_law[of s] by (auto simp: butlast_append)
  with snoc.IH[of s1] show ?case by auto
qed

text \<open>Last in, first out, over any number of items.\<close>

lemma push_pop_lifo:
  assumes "inv s" "\<forall>x \<in> set xs. fits s x" "length (items s) + length xs \<le> limit s"
  shows "\<exists>s1 s2. push_all push xs s = Inr s1 \<and> pop_n pop (length xs) s1 = Inr (rev xs, s2) \<and>
    inv s2 \<and> items s2 = items s"
  using push_all_items[OF assms] pop_n_items[of _ "items s" xs] by blast

text \<open>Random access to everything that was pushed.\<close>

lemma push_get:
  assumes "inv s" "\<forall>x \<in> set xs. fits s x" "length (items s) + length xs \<le> limit s" "i < length xs"
  shows "\<exists>s1. push_all push xs s = Inr s1 \<and> get s1 (length (items s) + i) = Inr (xs ! i)"
  using push_all_items[OF assms(1-3)] get_law assms(4) by (fastforce simp: nth_append)

lemma put_get_other:
  assumes "inv s" "fits s x" "i < length (items s)" "j < length (items s)"
  shows "\<exists>s1. put s x i = Inr s1 \<and> get s1 j = Inr (if j = i then x else items s ! j)"
  using put_law[OF assms(1-3)] get_law assms(4) by (fastforce simp: nth_list_update)

end

section \<open>The array list keeps the contract\<close>

type_synonym al_state = "arraylist \<times> heap"

definition vec_inv :: "al_state \<Rightarrow> bool" where
  "vec_inv s \<longleftrightarrow> al_wf (fst s) \<and> mem_plenty (snd s) \<and> al_room (fst s)"

text \<open>How many items of this size fit.\<close>

definition vec_limit :: "al_state \<Rightarrow> nat" where
  "vec_limit s = (2 ^ 64 - 9) div (2 * size_of_item (fst s))"

lemma al_room_limit:
  assumes "al_wf l"
  shows "al_room l \<longleftrightarrow> length (al_items l) \<le> vec_limit (l, h)"
proof -
  obtain s c where s: "al_size l = int s" by (rule al_wf_nat[OF assms])
  have k: "0 < size_of_item l" using assms by (simp add: al_wf_def)
  have "al_room l \<longleftrightarrow> int (2 * s * size_of_item l) + 8 < 2 ^ 64" by (simp add: al_room_def s)
  also have "\<dots> \<longleftrightarrow> int (2 * s * size_of_item l + 8) < int (2 ^ 64)" by (simp only: of_nat_add) simp
  also have "\<dots> \<longleftrightarrow> 2 * s * size_of_item l + 8 < 2 ^ 64" by (simp only: of_nat_less_iff)
  also have "\<dots> \<longleftrightarrow> s * (2 * size_of_item l) \<le> 2 ^ 64 - 9" by (auto simp: mult_ac)
  also have "\<dots> \<longleftrightarrow> s \<le> vec_limit (l, h)" using k by (simp add: vec_limit_def less_eq_div_iff_mult_less_eq)
  finally show ?thesis by (simp add: s)
qed

definition vec_fits :: "al_state \<Rightarrow> cell list \<Rightarrow> bool" where
  "vec_fits s x \<longleftrightarrow> length x = size_of_item (fst s)"

definition vec_push :: "al_state \<Rightarrow> cell list \<Rightarrow> fault + al_state" where
  "vec_push s x = ebind (arraylist_push (fst s) x (snd s)) (\<lambda>(_, l, h). Inr (l, h))"

definition vec_put :: "al_state \<Rightarrow> cell list \<Rightarrow> nat \<Rightarrow> fault + al_state" where
  "vec_put s x i = arraylist_set (fst s) x (int i) (snd s)"

definition vec_pop :: "al_state \<Rightarrow> fault + (cell list \<times> al_state)" where
  "vec_pop s = ebind (arraylist_pop (fst s)) (\<lambda>(x, l). Inr (x, l, snd s))"

interpretation al: vector_ops vec_inv "\<lambda>s. al_items (fst s)" vec_fits vec_limit vec_push
  "\<lambda>s i. arraylist_get (fst s) (int i)" vec_put "\<lambda>s. arraylist_top (fst s)" vec_pop
proof (unfold_locales, goal_cases)
  case (1 s x)
  then obtain l' h' where "arraylist_push (fst s) x (snd s) = Inr (al_size (fst s), l', h')"
    "al_wf l'" "mem_plenty h'" "al_items l' = al_items (fst s) @ [x]"
    "size_of_item l' = size_of_item (fst s)"
    using arraylist_push_ok[of "fst s" "snd s" x] by (auto simp: vec_inv_def vec_fits_def)
  moreover from this 1(3) have "al_room l'"
    by (simp add: al_room_limit[of l' h'] vec_limit_def del: al_items_length)
  ultimately show ?case by (auto simp: vec_push_def vec_inv_def vec_fits_def vec_limit_def fun_eq_iff)
next
  case (2 s i)
  then show ?case by (simp add: vec_inv_def arraylist_get_ok del: al_items_length)
next
  case (3 s x i)
  then obtain l' h' where "arraylist_set (fst s) x (int i) (snd s) = Inr (l', h')"
    "al_wf l'" "mem_plenty h'" "al_items l' = (al_items (fst s))[i := x]"
    "size_of_item l' = size_of_item (fst s)"
    using arraylist_set_ok[of "fst s" "snd s" x i]
    by (auto simp: vec_inv_def vec_fits_def simp del: al_items_length)
  moreover from this 3(1) have "al_room l'"
    using al_room_limit[of l' h'] al_room_limit[of "fst s" h']
    by (simp add: vec_inv_def vec_limit_def del: al_items_length)
  ultimately show ?case by (auto simp: vec_put_def vec_inv_def vec_fits_def vec_limit_def fun_eq_iff)
next
  case (4 s)
  then show ?case by (simp add: vec_inv_def arraylist_top_ok)
next
  case (5 s)
  then obtain l' where "arraylist_pop (fst s) = Inr (last (al_items (fst s)), l')"
    "al_wf l'" "al_items l' = butlast (al_items (fst s))" "size_of_item l' = size_of_item (fst s)"
    using arraylist_pop_ok[of "fst s"] by (auto simp: vec_inv_def)
  moreover from this 5(1) have "al_room l'"
    using al_room_limit[of l' "snd s"] al_room_limit[of "fst s" "snd s"]
    by (simp add: vec_inv_def vec_limit_def del: al_items_length)
  ultimately show ?case using 5 by (auto simp: vec_pop_def vec_inv_def vec_fits_def vec_limit_def fun_eq_iff)
qed

section \<open>Removal\<close>

text \<open>
  With one item per pointer word, closing the gap copies fewer bytes than an item and keeps
  \<open>top\<close>: the slot becomes a mix of the two neighbours and the list is not well formed.
\<close>

lemma close_gap_effect:
  assumes wf: "al_wf l" and i: "i + 1 < nat (al_size l)"
    and n: "n = nat (al_size l) - 1 - i" "n \<le> size_of_item l"
  shows "\<exists>l'. close_gap l (int i) = Inr l' \<and> al_size l' = al_size l - 1 \<and> al_top l' = al_top l \<and>
    al_item l' i = take n (al_item l (i + 1)) @ drop n (al_item l i)"
proof -
  let ?k = "size_of_item l" and ?cs = "cells (al_data l)"
  obtain s c where sc: "al_size l = int s" "al_capacity l = int c" "s \<le> c"
    and len: "length ?cs = c * ?k" by (rule al_wf_nat[OF wf])
  have le1: "(i + 1) * ?k + ?k \<le> c * ?k" using i sc by (intro item_slice_le) simp
  have ns: "nat (al_size l - 1 - int i) = n" using i sc n by simp
  have o1: "(int i + 1) * int ?k = int ((i + 1) * ?k)" and o2: "int i * int ?k = int (i * ?k)"
    by (simp_all add: algebra_simps)
  have nn: "nat (int i * int ?k) = i * ?k" by (simp add: nat_mult_distrib)
  have rd: "peek ((int i + 1) * int ?k) n (al_data l) = Inr (take n (drop ((i + 1) * ?k) ?cs))"
    unfolding o1 using le1 n(2) len by (subst peek_ok) (simp_all del: of_nat_mult of_nat_add flip: of_nat_add)
  define bs where "bs = take n (drop ((i + 1) * ?k) ?cs)"
  have lb: "length bs = n" using le1 n(2) len by (simp add: bs_def)
  have "i * ?k + length bs \<le> length ?cs" using le1 n(2) len lb by simp
  then have "int (i * ?k) + int (length bs) \<le> int (length ?cs)" by (simp only: flip: of_nat_add)
  then obtain cs where w: "mem_write (i * ?k) bs ?cs = Inr cs"
    and p: "poke (int i * int ?k) bs (al_data l) = Inr ((al_data l)\<lparr>cells := cs\<rparr>)"
    using poke_ok[of "int i * int ?k" bs "al_data l"] nn by auto
  define l' where "l' = l\<lparr>al_size := al_size l - 1, al_data := (al_data l)\<lparr>cells := cs\<rparr>\<rparr>"
  have res: "close_gap l (int i) = Inr l'"
    using rd p ns by (simp add: close_gap_def Let_def bs_def l'_def)
  have cs: "cs = take (i * ?k) ?cs @ bs @ drop (i * ?k + n) ?cs" "i * ?k \<le> length ?cs"
    using w lb by (auto simp: mem_write_def split: if_splits)
  have "al_item l' i = take ?k (bs @ drop (i * ?k + n) ?cs)"
    using cs by (simp add: al_item_def l'_def)
  also have "\<dots> = bs @ drop n (al_item l i)"
    using lb n(2) by (simp add: al_item_def drop_take add.commute)
  also have "bs = take n (al_item l (i + 1))"
    using n(2) by (simp add: bs_def al_item_def)
  finally show ?thesis using res by (simp add: l'_def)
qed

section \<open>Properties\<close>

text \<open>
  C27: a new array list is a stack with random access: whatever items of the right size are pushed
  (through any number of reallocations), each is found at its index, and popping returns them in
  reverse and leaves the list empty. Twice the bytes pushed must fit into the address space.
\<close>

theorem arraylist_lifo:
  assumes "mem_plenty h" "0 < k" "\<forall>x \<in> set xs. length x = k" "(2 * length xs + 3) * k + 8 < 2 ^ 64"
  shows "\<exists>s0 s1 s2. arraylist_new k h = Inr s0 \<and> push_all vec_push xs s0 = Inr s1 \<and>
    (\<forall>i < length xs. arraylist_get (fst s1) (int i) = Inr (xs ! i)) \<and>
    al_size (fst s1) = int (length xs) \<and>
    pop_n vec_pop (length xs) s1 = Inr (rev xs, s2) \<and> al_size (fst s2) = 0"
proof -
  have b: "3 * k + 8 < 2 ^ 64" "length xs * (2 * k) \<le> 2 ^ 64 - 9" using assms(4) by (simp_all add: algebra_simps)
  obtain l0 h0 where l0: "arraylist_new k h = Inr (l0, h0)" "al_wf l0" "mem_plenty h0" "al_items l0 = []" "size_of_item l0 = k"
    using arraylist_new_ok[OF assms(1,2) b(1)] by blast
  have "al_room l0" using l0(4) by (simp add: al_room_limit[OF l0(2), of h0] del: al_items_length)
  with l0 have s0: "arraylist_new k h = Inr (l0, h0)" and i0: "vec_inv (l0, h0)" "al_items l0 = []" "size_of_item l0 = k"
    by (simp_all add: vec_inv_def)
  have lim: "length (al_items (fst (l0, h0))) + length xs \<le> vec_limit (l0, h0)"
    using b(2) i0(2,3) assms(2) by (simp add: vec_limit_def less_eq_div_iff_mult_less_eq del: al_items_length)
  have fits: "\<forall>x \<in> set xs. vec_fits (l0, h0) x" using assms(3) i0(3) by (simp add: vec_fits_def)
  obtain s1 where s1: "push_all vec_push xs (l0, h0) = Inr s1" "vec_inv s1" "al_items (fst s1) = xs"
    using al.push_all_items[OF i0(1) fits lim] i0(2) by auto
  obtain s2 where s2: "pop_n vec_pop (length xs) s1 = Inr (rev xs, s2)" "vec_inv s2" "al_items (fst s2) = []"
    using al.pop_n_items[OF s1(2), of "[]" xs] s1(3) by auto
  have sz: "al_size (fst s) = int (length (al_items (fst s)))" if "vec_inv s" for s
    using that by (simp add: vec_inv_def al_wf_def)
  have "\<forall>i < length xs. arraylist_get (fst s1) (int i) = Inr (xs ! i)"
    using al.get_law[OF s1(2)] s1(3) by simp
  moreover have "al_size (fst s1) = int (length xs)" "al_size (fst s2) = 0"
    using sz[OF s1(2)] sz[OF s2(2)] s1(3) s2(3) by simp_all
  ultimately show ?thesis using s0 s1(1) s2(1) by blast
qed

theorem arraylist_lifo_witness:
  "\<exists>s0 s1 s2. arraylist_new 1 (heap_init (\<lambda>_. True)) = Inr s0 \<and>
    push_all vec_push [[Some 1], [Some 2], [Some 3], [Some 4]] s0 = Inr s1 \<and>
    pop_n vec_pop 4 s1 = Inr ([[Some 4], [Some 3], [Some 2], [Some 1]], s2)"
proof -
  let ?h = "heap_init (\<lambda>_. True)" and ?xs = "[[Some 1], [Some 2], [Some 3], [Some 4]] :: cell list list"
  have a: "mem_plenty ?h" "(0::nat) < 1" "\<forall>x \<in> set ?xs. length x = 1" "(2 * length ?xs + 3) * 1 + 8 < 2 ^ 64"
    by (simp_all add: mem_plenty_def heap_init_def)
  have e: "length ?xs = 4" "rev ?xs = [[Some 4], [Some 3], [Some 2], [Some 1]]" by simp_all
  show ?thesis using arraylist_lifo[OF a, unfolded e] by blast
qed

text \<open>
  Removing an item that is not the last from a list of word-sized items does not remove it: the
  loop copies as many \<^emph>\<open>bytes\<close> as there are items behind it, so the slot is left
  as a mix of its successor's first bytes and its own last bytes, and \<open>top\<close> still points past
  the old end.
\<close>

lemma arraylist_remove_index_mixes:
  assumes "al_wf l" "i + 1 < nat (al_size l)" "nat (al_size l) - 1 - i \<le> size_of_item l"
  shows "\<exists>l'. arraylist_remove_index l (int i) = Inr l' \<and> al_size l' = al_size l - 1 \<and>
    al_item l' i = take (nat (al_size l) - 1 - i) (al_item l (i + 1)) @
      drop (nat (al_size l) - 1 - i) (al_item l i) \<and>
    al_top l' = al_top l \<and> \<not> al_wf l'"
proof -
  obtain l' where l': "close_gap l (int i) = Inr l'" "al_size l' = al_size l - 1" "al_top l' = al_top l"
    "al_item l' i = take (nat (al_size l) - 1 - i) (al_item l (i + 1)) @
      drop (nat (al_size l) - 1 - i) (al_item l i)"
    using close_gap_effect[OF assms(1,2) refl assms(3)] by blast
  have "size_of_item l' = size_of_item l"
    using l'(1) by (auto simp: close_gap_def Let_def ebind_Inr_iff)
  then have "\<not> al_wf l'" using l'(2,3) assms(1) by (auto simp: al_wf_def)
  with l' show ?thesis by (auto simp: arraylist_remove_index_def)
qed

lemma arraylist_remove_index_mixes_witness:
  "\<exists>l l'. al_wf l \<and> al_items l = [[Some 1, Some 2], [Some 3, Some 4]] \<and>
    arraylist_remove_index l 0 = Inr l' \<and> al_item l' 0 = [Some 3, Some 2]"
proof -
  define l where "l = \<lparr>al_size = 2, al_capacity = 3,
    al_data = \<lparr>header = 14, cells = [Some 1, Some 2, Some 3, Some 4, None, None]\<rparr>, al_top = 4,
    size_of_item = 2, al_header = 48\<rparr>"
  have wf: "al_wf l" by (simp add: al_wf_def l_def block_ok_def sizeof_uint_t_def)
  have it: "al_items l = [[Some 1, Some 2], [Some 3, Some 4]]"
    by (simp add: al_items_def al_item_def l_def upt_rec numeral_2_eq_2)
  have "al_item l 0 = [Some 1, Some 2]" "al_item l 1 = [Some 3, Some 4]"
    by (simp_all add: al_item_def l_def)
  with arraylist_remove_index_mixes[OF wf, of 0] wf it show ?thesis
    by (auto simp: l_def)
qed

end
