(* ===== verification/ZMap.thy ===== *)
theory ZMap
  imports Prelude
begin

text \<open>
  src/src/common/data_structures/map.c: the string-keyed hash map behind objects, symbol tables,
  import tables and static variables. Ten bags, each a triple of parallel array lists (keys,
  values, flags) that exist once the bag is first written. The bags are array lists used through
  push, set and get only, whose contract \<open>vector_ops\<close> is proved in ArrayList; here a bag is
  the list of its items.
\<close>

section \<open>The structure\<close>

definition MAP_BAG_SIZE :: nat where
  "MAP_BAG_SIZE = 10"

definition MAP_FLAG_ENUMERABLE :: uint_t where
  "MAP_FLAG_ENUMERABLE = 1"

definition MAP_FLAG_PRIVATE :: uint_t where
  "MAP_FLAG_PRIVATE = 2"

record 'v zmap =
  map_size :: uint_t
  is_immutable :: bool
  kbags :: "string list option list"
  vbags :: "'v list option list"
  fbags :: "uint_t list option list"

text \<open>A C \<open>char\<close> is signed and is sign-extended to 64 bits before it is added.\<close>

definition hash_step :: "char \<Rightarrow> uint_t \<Rightarrow> uint_t" where
  "hash_step c h = h * 10 + scast (of_char c :: byte) - 48"

definition get_hash :: "string \<Rightarrow> uint_t" where
  "get_hash s = fold hash_step s 0 mod 10"

definition map_new :: "'v zmap" where
  "map_new = \<lparr>map_size = 0, is_immutable = False, kbags = replicate MAP_BAG_SIZE None,
     vbags = replicate MAP_BAG_SIZE None, fbags = replicate MAP_BAG_SIZE None\<rparr>"

text \<open>The search loop over a key bag: the first index whose key equals.\<close>

fun find_key :: "string \<Rightarrow> string list \<Rightarrow> nat option" where
  "find_key k [] = None"
| "find_key k (x # xs) = (if x = k then Some 0 else map_option Suc (find_key k xs))"

definition map_insert_flags :: "'v zmap \<Rightarrow> string \<Rightarrow> 'v \<Rightarrow> uint_t \<Rightarrow> 'v zmap" where
  "map_insert_flags self key v flag =
     (if is_immutable self then self else
      let hash = unat (get_hash key);
          created = (vbags self ! hash = None);
          vbag = (if created then [] else the (vbags self ! hash));
          kbag = (if created then [] else the (kbags self ! hash));
          fl = (if created then [] else the (fbags self ! hash))
      in case find_key key kbag of
           Some i \<Rightarrow> self\<lparr>vbags := (vbags self)[hash := Some (vbag[i := v])],
                          kbags := (kbags self)[hash := Some kbag],
                          fbags := (fbags self)[hash := Some (fl[i := flag])]\<rparr>
         | None \<Rightarrow> self\<lparr>map_size := map_size self + (flag AND MAP_FLAG_ENUMERABLE),
                        vbags := (vbags self)[hash := Some (vbag @ [v])],
                        kbags := (kbags self)[hash := Some (kbag @ [key])],
                        fbags := (fbags self)[hash := Some (fl @ [flag])]\<rparr>)"

definition map_insert :: "'v zmap \<Rightarrow> string \<Rightarrow> 'v \<Rightarrow> 'v zmap" where
  "map_insert self key v = map_insert_flags self key v (0 OR MAP_FLAG_ENUMERABLE)"

definition map_insert_non_enumerable :: "'v zmap \<Rightarrow> string \<Rightarrow> 'v \<Rightarrow> 'v zmap" where
  "map_insert_non_enumerable self key v = map_insert_flags self key v 0"

text \<open>A flag is stored as 64 bits and read back through an \<open>int *\<close>.\<close>

definition read_int :: "uint_t \<Rightarrow> uint_t" where
  "read_int f = scast (ucast f :: 32 word)"

definition map_get_flags :: "'v zmap \<Rightarrow> string \<Rightarrow> ('v \<times> uint_t) option" where
  "map_get_flags self key =
     (let hash = unat (get_hash key) in
      case kbags self ! hash of
        None \<Rightarrow> None
      | Some kbag \<Rightarrow>
          (case find_key key kbag of
             None \<Rightarrow> None
           | Some i \<Rightarrow> Some (the (vbags self ! hash) ! i, read_int (the (fbags self ! hash) ! i))))"

definition map_get :: "'v zmap \<Rightarrow> string \<Rightarrow> 'v option" where
  "map_get self key = map_option fst (map_get_flags self key)"

text \<open>The keys of the enumerable entries, bag by bag.\<close>

definition bag_keys :: "'v zmap \<Rightarrow> nat \<Rightarrow> string list" where
  "bag_keys self i =
     (case kbags self ! i of
        None \<Rightarrow> []
      | Some kbag \<Rightarrow>
          map fst (filter (\<lambda>(k, f). read_int f AND MAP_FLAG_ENUMERABLE \<noteq> 0)
                     (zip kbag (the (fbags self ! i)))))"

definition map_key_list :: "'v zmap \<Rightarrow> string list" where
  "map_key_list self = concat (map (bag_keys self) [0..<MAP_BAG_SIZE])"

section \<open>Hashing\<close>

lemma get_hash_less: "unat (get_hash s) < MAP_BAG_SIZE"
  by (simp add: get_hash_def MAP_BAG_SIZE_def unat_mod)

text \<open>The flag words the code uses: any combination of the two flags.\<close>

definition flag_ok :: "uint_t \<Rightarrow> bool" where
  "flag_ok f \<longleftrightarrow> f \<in> {0, 1, 2, 3}"

lemma read_int_flag: "flag_ok f \<Longrightarrow> read_int f = f"
  by (auto simp: flag_ok_def read_int_def)

lemma find_key_Some: "find_key k ks = Some i \<Longrightarrow> i < length ks \<and> ks ! i = k"
  by (induction ks arbitrary: i) (auto split: if_splits)

lemma find_key_None: "find_key k ks = None \<longleftrightarrow> k \<notin> set ks"
  by (induction ks) auto

lemma find_key_snoc:
  "find_key k (ks @ [a]) =
     (case find_key k ks of Some i \<Rightarrow> Some i | None \<Rightarrow> if a = k then Some (length ks) else None)"
  by (induction ks) (auto split: option.splits)

lemma find_key_inj: "find_key a ks = Some i \<Longrightarrow> find_key b ks = Some i \<Longrightarrow> a = b"
  using find_key_Some by metis

section \<open>Well-formed maps\<close>

definition bag_wf :: "nat \<Rightarrow> 'v zmap \<Rightarrow> bool" where
  "bag_wf i m \<longleftrightarrow>
     (case kbags m ! i of
        None \<Rightarrow> vbags m ! i = None \<and> fbags m ! i = None
      | Some ks \<Rightarrow> (\<exists>vs fs. vbags m ! i = Some vs \<and> fbags m ! i = Some fs \<and>
          length vs = length ks \<and> length fs = length ks) \<and> distinct ks \<and>
          (\<forall>k \<in> set ks. unat (get_hash k) = i))"

definition zmap_wf :: "'v zmap \<Rightarrow> bool" where
  "zmap_wf m \<longleftrightarrow> length (kbags m) = MAP_BAG_SIZE \<and> length (vbags m) = MAP_BAG_SIZE \<and>
     length (fbags m) = MAP_BAG_SIZE \<and> (\<forall>i < MAP_BAG_SIZE. bag_wf i m)"

lemma zmap_wf_new: "zmap_wf map_new"
  by (simp add: zmap_wf_def map_new_def bag_wf_def)

lemma map_get_flags_new: "map_get_flags map_new k = None"
  using get_hash_less[of k] by (simp add: map_get_flags_def map_new_def)

text \<open>One insertion seen from the bag it goes to: the parallel lists after it.\<close>

lemma zmap_wf_bag:
  assumes "zmap_wf m" "i < MAP_BAG_SIZE"
  shows "kbags m ! i = None \<and> vbags m ! i = None \<and> fbags m ! i = None \<or>
    (\<exists>ks vs fs. kbags m ! i = Some ks \<and> vbags m ! i = Some vs \<and> fbags m ! i = Some fs \<and>
       length vs = length ks \<and> length fs = length ks \<and> distinct ks \<and>
       (\<forall>k \<in> set ks. unat (get_hash k) = i))"
proof -
  have "bag_wf i m" using assms by (simp add: zmap_wf_def)
  then show ?thesis unfolding bag_wf_def by (cases "kbags m ! i") auto
qed

definition bag_triple :: "'v zmap \<Rightarrow> nat \<Rightarrow> string list \<times> 'v list \<times> uint_t list" where
  "bag_triple m i = (if vbags m ! i = None then ([], [], [])
     else (the (kbags m ! i), the (vbags m ! i), the (fbags m ! i)))"

lemma insert_cases:
  assumes wf: "zmap_wf m" and mut: "\<not> is_immutable m"
  obtains ks vs fs ks' vs' fs' n where
    "bag_triple m (unat (get_hash k)) = (ks, vs, fs)"
    "length vs = length ks" "length fs = length ks" "distinct ks"
    "\<forall>x \<in> set ks. unat (get_hash x) = unat (get_hash k)"
    "map_insert_flags m k v f = m\<lparr>map_size := map_size m + n,
       kbags := (kbags m)[unat (get_hash k) := Some ks'],
       vbags := (vbags m)[unat (get_hash k) := Some vs'],
       fbags := (fbags m)[unat (get_hash k) := Some fs']\<rparr>"
    "(case find_key k ks of
        Some i \<Rightarrow> ks' = ks \<and> vs' = vs[i := v] \<and> fs' = fs[i := f] \<and> n = 0
      | None \<Rightarrow> ks' = ks @ [k] \<and> vs' = vs @ [v] \<and> fs' = fs @ [f] \<and> n = f AND MAP_FLAG_ENUMERABLE)"
proof -
  let ?i = "unat (get_hash k)"
  obtain ks vs fs where t: "bag_triple m ?i = (ks, vs, fs)" by (cases "bag_triple m ?i") auto
  have inv: "length vs = length ks \<and> length fs = length ks \<and> distinct ks \<and>
      (\<forall>x \<in> set ks. unat (get_hash x) = ?i)"
    using zmap_wf_bag[OF wf get_hash_less, of k] t by (auto simp: bag_triple_def)
  have bags: "(if vbags m ! ?i = None then [] else the (kbags m ! ?i)) = ks"
    "(if vbags m ! ?i = None then [] else the (vbags m ! ?i)) = vs"
    "(if vbags m ! ?i = None then [] else the (fbags m ! ?i)) = fs"
    using t by (auto simp: bag_triple_def)
  note ins = map_insert_flags_def[of m k v f, unfolded Let_def bags]
  note c = that[OF t inv[THEN conjunct1] inv[THEN conjunct2, THEN conjunct1]
      inv[THEN conjunct2, THEN conjunct2, THEN conjunct1]
      inv[THEN conjunct2, THEN conjunct2, THEN conjunct2]]
  show ?thesis
  proof (cases "find_key k ks")
    case None
    show ?thesis
    proof (rule c[where n = "f AND MAP_FLAG_ENUMERABLE" and ks' = "ks @ [k]" and
            vs' = "vs @ [v]" and fs' = "fs @ [f]"])
      show "map_insert_flags m k v f = m\<lparr>map_size := map_size m + (f AND MAP_FLAG_ENUMERABLE),
         kbags := (kbags m)[?i := Some (ks @ [k])], vbags := (vbags m)[?i := Some (vs @ [v])],
         fbags := (fbags m)[?i := Some (fs @ [f])]\<rparr>"
        unfolding ins None using mut by simp
    qed (simp add: None)
  next
    case (Some j)
    show ?thesis
    proof (rule c[where n = 0 and ks' = ks and vs' = "vs[j := v]" and fs' = "fs[j := f]"])
      show "map_insert_flags m k v f = m\<lparr>map_size := map_size m + 0,
         kbags := (kbags m)[?i := Some ks], vbags := (vbags m)[?i := Some (vs[j := v])],
         fbags := (fbags m)[?i := Some (fs[j := f])]\<rparr>"
        unfolding ins Some using mut by simp
    qed (simp add: Some)
  qed
qed

lemma bag_triple_insert:
  assumes "zmap_wf m" "i < MAP_BAG_SIZE"
    "m' = m\<lparr>map_size := n, kbags := (kbags m)[h := Some ks'], vbags := (vbags m)[h := Some vs'],
       fbags := (fbags m)[h := Some fs']\<rparr>"
    "h < MAP_BAG_SIZE"
  shows "bag_triple m' i = (if i = h then (ks', vs', fs') else bag_triple m i)"
  using assms by (simp add: bag_triple_def zmap_wf_def nth_list_update)

lemma map_get_flags_triple:
  assumes wf: "zmap_wf m" and t: "bag_triple m (unat (get_hash k)) = (ks, vs, fs)"
  shows "map_get_flags m k =
    map_option (\<lambda>i. (vs ! i, read_int (fs ! i))) (find_key k ks)"
  using zmap_wf_bag[OF wf get_hash_less, of k] t
  by (auto simp: map_get_flags_def bag_triple_def Let_def split: option.splits)

lemma bag_keys_triple:
  assumes wf: "zmap_wf m" and i: "i < MAP_BAG_SIZE" and t: "bag_triple m i = (ks, vs, fs)"
  shows "bag_keys m i = map fst (filter (\<lambda>(k, f). read_int f AND MAP_FLAG_ENUMERABLE \<noteq> 0) (zip ks fs))"
  using zmap_wf_bag[OF wf i] t by (auto simp: bag_keys_def bag_triple_def)

lemma map_insert_immutable: "is_immutable m \<Longrightarrow> map_insert_flags m k v f = m"
  by (simp add: map_insert_flags_def)

lemma insert_keeps_mutable [simp]:
  "is_immutable (map_insert_flags m k v f) = is_immutable m"
  by (simp add: map_insert_flags_def Let_def split: option.splits)

lemma zmap_wf_insert:
  assumes wf: "zmap_wf m"
  shows "zmap_wf (map_insert_flags m k v f)"
proof (cases "is_immutable m")
  case True
  with wf show ?thesis by (simp add: map_insert_immutable)
next
  case False
  obtain h where h: "unat (get_hash k) = h" by blast
  obtain ks vs fs ks' vs' fs' n where
    len: "length vs = length ks" "length fs = length ks" "distinct ks"
    and hs: "\<forall>x \<in> set ks. unat (get_hash x) = h"
    and m': "map_insert_flags m k v f = m\<lparr>map_size := map_size m + n, kbags := (kbags m)[h := Some ks'],
       vbags := (vbags m)[h := Some vs'], fbags := (fbags m)[h := Some fs']\<rparr>"
    and c: "case find_key k ks of
        Some i \<Rightarrow> ks' = ks \<and> vs' = vs[i := v] \<and> fs' = fs[i := f] \<and> n = 0
      | None \<Rightarrow> ks' = ks @ [k] \<and> vs' = vs @ [v] \<and> fs' = fs @ [f] \<and> n = f AND MAP_FLAG_ENUMERABLE"
    by (rule insert_cases[OF wf False, of k, unfolded h])
  have new: "length vs' = length ks'" "length fs' = length ks'" "distinct ks'"
      "set ks' \<subseteq> insert k (set ks)"
    using c len find_key_None[of k ks] by (cases "find_key k ks"; auto)+
  have hs': "\<forall>x \<in> set ks'. unat (get_hash x) = h"
    using new(4) hs h by blast
  have hl: "h < MAP_BAG_SIZE" using get_hash_less[of k] by (simp add: h)
  have "bag_wf i (map_insert_flags m k v f)" if "i < MAP_BAG_SIZE" for i
  proof (cases "i = h")
    case True
    then show ?thesis using new(1-3) hs' wf hl
      by (simp add: m' bag_wf_def zmap_wf_def)
  next
    case False
    have "bag_wf i m" using wf that by (simp add: zmap_wf_def)
    then show ?thesis using False by (auto simp: m' bag_wf_def split: option.splits)
  qed
  then show ?thesis using wf by (simp add: zmap_wf_def m')
qed

lemma map_get_insert:
  assumes wf: "zmap_wf m" and mut: "\<not> is_immutable m" and f: "flag_ok f"
  shows "map_get_flags (map_insert_flags m k v f) k' =
    (if k' = k then Some (v, f) else map_get_flags m k')"
proof -
  let ?h = "unat (get_hash k)" and ?h' = "unat (get_hash k')"
  obtain ks vs fs ks' vs' fs' n where t: "bag_triple m ?h = (ks, vs, fs)"
    and len: "length vs = length ks" "length fs = length ks"
    and m': "map_insert_flags m k v f = m\<lparr>map_size := map_size m + n, kbags := (kbags m)[?h := Some ks'],
       vbags := (vbags m)[?h := Some vs'], fbags := (fbags m)[?h := Some fs']\<rparr>"
    and c: "case find_key k ks of
        Some i \<Rightarrow> ks' = ks \<and> vs' = vs[i := v] \<and> fs' = fs[i := f] \<and> n = 0
      | None \<Rightarrow> ks' = ks @ [k] \<and> vs' = vs @ [v] \<and> fs' = fs @ [f] \<and> n = f AND MAP_FLAG_ENUMERABLE"
    by (rule insert_cases[OF wf mut])
  note wf' = zmap_wf_insert[OF wf, of k v f]
  note bt = bag_triple_insert[OF wf get_hash_less m' get_hash_less, of k']
  obtain ks2 vs2 fs2 where t2: "bag_triple m ?h' = (ks2, vs2, fs2)"
    by (cases "bag_triple m ?h'") auto
  show ?thesis
  proof (cases "?h' = ?h")
    case False
    then have "bag_triple (map_insert_flags m k v f) ?h' = (ks2, vs2, fs2)" using bt t2 by simp
    from map_get_flags_triple[OF wf' this] map_get_flags_triple[OF wf t2] False
    show ?thesis by auto
  next
    case True
    then have "bag_triple (map_insert_flags m k v f) ?h' = (ks', vs', fs')" using bt by simp
    from map_get_flags_triple[OF wf' this] map_get_flags_triple[OF wf t2] True t t2
    have lhs: "map_get_flags (map_insert_flags m k v f) k' =
        map_option (\<lambda>i. (vs' ! i, read_int (fs' ! i))) (find_key k' ks')"
      and rhs: "map_get_flags m k' = map_option (\<lambda>i. (vs ! i, read_int (fs ! i))) (find_key k' ks)"
      by auto
    show ?thesis
    proof (cases "find_key k ks")
      case None
      with c len have s: "ks' = ks @ [k]" "vs' = vs @ [v]" "fs' = fs @ [f]" by auto
      show ?thesis unfolding lhs rhs s
        using None len find_key_Some[of k' ks] read_int_flag[OF f]
        by (auto simp: find_key_snoc nth_append split: option.splits)
    next
      case (Some i)
      with c len have s: "ks' = ks" "vs' = vs[i := v]" "fs' = fs[i := f]" by auto
      show ?thesis unfolding lhs rhs s
        using Some len find_key_Some[of k ks i] find_key_inj[of k' ks _ k] read_int_flag[OF f]
        by (cases "find_key k' ks") (auto simp: nth_list_update)
    qed
  qed
qed

lemma map_of_rev_distinct:
  assumes "distinct (map fst kvs)"
  shows "map_of (rev kvs) = map_of kvs"
proof (rule ext)
  fix k
  have d: "distinct (map fst (rev kvs))" using assms by (simp add: rev_map[symmetric])
  have "map_of (rev kvs) k = Some v \<longleftrightarrow> map_of kvs k = Some v" for v
    using map_of_eq_Some_iff[OF d] map_of_eq_Some_iff[OF assms] by simp
  then show "map_of (rev kvs) k = map_of kvs k" by (metis not_Some_eq)
qed

section \<open>Enumeration and the size counter\<close>

lemma flag_enumerable:
  "flag_ok f \<Longrightarrow> f AND MAP_FLAG_ENUMERABLE = (if f AND MAP_FLAG_ENUMERABLE \<noteq> 0 then 1 else 0)"
  by (auto simp: flag_ok_def MAP_FLAG_ENUMERABLE_def)

definition enumerable :: "'v zmap \<Rightarrow> string \<Rightarrow> bool" where
  "enumerable m k \<longleftrightarrow>
     (case map_get_flags m k of Some (_, f) \<Rightarrow> f AND MAP_FLAG_ENUMERABLE \<noteq> 0 | None \<Rightarrow> False)"

lemma find_key_nth: "distinct ks \<Longrightarrow> i < length ks \<Longrightarrow> find_key (ks ! i) ks = Some i"
proof (induction ks arbitrary: i)
  case (Cons a ks)
  then show ?case by (cases i) auto
qed simp

lemma bag_keys_set:
  assumes wf: "zmap_wf m" and i: "i < MAP_BAG_SIZE"
  shows "set (bag_keys m i) = {k. unat (get_hash k) = i \<and> enumerable m k}"
    and "distinct (bag_keys m i)"
proof -
  obtain ks vs fs where t: "bag_triple m i = (ks, vs, fs)" by (cases "bag_triple m i") auto
  have inv: "length vs = length ks" "length fs = length ks" "distinct ks"
    and hs: "\<forall>x \<in> set ks. unat (get_hash x) = i"
    using zmap_wf_bag[OF wf i] t by (auto simp: bag_triple_def)
  note bk = bag_keys_triple[OF wf i t]
  show "distinct (bag_keys m i)"
    unfolding bk using inv by (intro distinct_map_filter) simp
  have en: "enumerable m k \<longleftrightarrow> (\<exists>j < length ks. ks ! j = k \<and> read_int (fs ! j) AND MAP_FLAG_ENUMERABLE \<noteq> 0)"
    if k: "unat (get_hash k) = i" for k
  proof -
    have g: "map_get_flags m k = map_option (\<lambda>i. (vs ! i, read_int (fs ! i))) (find_key k ks)"
      using map_get_flags_triple[OF wf] t k by simp
    show ?thesis
    proof (cases "find_key k ks")
      case None
      then have "k \<notin> set ks" by (simp add: find_key_None)
      then show ?thesis using None by (auto simp: enumerable_def g)
    next
      case (Some j)
      then have "j < length ks" "ks ! j = k" using find_key_Some by blast+
      then show ?thesis using Some inv(3)
        by (auto simp: enumerable_def g nth_eq_iff_index_eq)
    qed
  qed
  show "set (bag_keys m i) = {k. unat (get_hash k) = i \<and> enumerable m k}"
  proof (intro set_eqI iffI)
    fix k assume "k \<in> set (bag_keys m i)"
    then obtain j where j: "j < length ks" "ks ! j = k" "read_int (fs ! j) AND MAP_FLAG_ENUMERABLE \<noteq> 0"
      unfolding bk using inv by (auto simp: set_zip)
    then have "unat (get_hash k) = i" using hs by (metis nth_mem)
    then show "k \<in> {k. unat (get_hash k) = i \<and> enumerable m k}" using en j by blast
  next
    fix k assume "k \<in> {k. unat (get_hash k) = i \<and> enumerable m k}"
    then obtain j where "j < length ks" "ks ! j = k" "read_int (fs ! j) AND MAP_FLAG_ENUMERABLE \<noteq> 0"
      using en by blast
    then show "k \<in> set (bag_keys m i)" unfolding bk using inv
      by (force simp: set_zip image_iff)
  qed
qed

lemma map_key_list_set:
  assumes "zmap_wf m"
  shows "set (map_key_list m) = {k. enumerable m k}"
proof (intro set_eqI iffI)
  fix k assume "k \<in> set (map_key_list m)"
  then show "k \<in> {k. enumerable m k}"
    using bag_keys_set(1)[OF assms] by (auto simp: map_key_list_def)
next
  fix k assume "k \<in> {k. enumerable m k}"
  then have "k \<in> set (bag_keys m (unat (get_hash k)))"
    using bag_keys_set(1)[OF assms get_hash_less] by blast
  then show "k \<in> set (map_key_list m)"
    using get_hash_less[of k] by (auto simp: map_key_list_def intro!: bexI[of _ "unat (get_hash k)"])
qed

lemma distinct_concat_upt:
  "(\<And>i. i < n \<Longrightarrow> distinct (f i)) \<Longrightarrow> (\<And>i j. i < j \<Longrightarrow> j < n \<Longrightarrow> set (f i) \<inter> set (f j) = {}) \<Longrightarrow>
   distinct (concat (map f [0..<n]))"
proof (induction n)
  case (Suc n)
  have "set (f n) \<inter> set (f a) = {}" if "a < n" for a using Suc.prems(2)[of a n] that by auto
  with Suc show ?case by fastforce
qed simp

lemma map_key_list_distinct:
  assumes "zmap_wf m"
  shows "distinct (map_key_list m)"
  unfolding map_key_list_def
  by (rule distinct_concat_upt) (use bag_keys_set[OF assms] in auto)

text \<open>The counter counts the enumerable entries, as long as no entry changes its flag.\<close>

definition size_counts_keys :: "'v zmap \<Rightarrow> bool" where
  "size_counts_keys m \<longleftrightarrow> map_size m = of_nat (length (map_key_list m))"

lemma length_key_list: "zmap_wf m \<Longrightarrow> length (map_key_list m) = card {k. enumerable m k}"
  using map_key_list_set map_key_list_distinct distinct_card by metis

lemma enumerable_insert:
  assumes "zmap_wf m" "\<not> is_immutable m" "flag_ok f"
  shows "enumerable (map_insert_flags m k v f) k' =
    (if k' = k then f AND MAP_FLAG_ENUMERABLE \<noteq> 0 else enumerable m k')"
  using map_get_insert[OF assms] by (simp add: enumerable_def)

lemma map_size_insert:
  assumes "\<not> is_immutable m" "zmap_wf m"
  shows "map_size (map_insert_flags m k v f) =
    (if map_get_flags m k = None then map_size m + (f AND MAP_FLAG_ENUMERABLE) else map_size m)"
proof -
  obtain ks vs fs ks' vs' fs' n where t: "bag_triple m (unat (get_hash k)) = (ks, vs, fs)"
    and m': "map_insert_flags m k v f = m\<lparr>map_size := map_size m + n,
       kbags := (kbags m)[unat (get_hash k) := Some ks'],
       vbags := (vbags m)[unat (get_hash k) := Some vs'],
       fbags := (fbags m)[unat (get_hash k) := Some fs']\<rparr>"
    and c: "case find_key k ks of
        Some i \<Rightarrow> ks' = ks \<and> vs' = vs[i := v] \<and> fs' = fs[i := f] \<and> n = 0
      | None \<Rightarrow> ks' = ks @ [k] \<and> vs' = vs @ [v] \<and> fs' = fs @ [f] \<and> n = f AND MAP_FLAG_ENUMERABLE"
    by (rule insert_cases[OF assms(2,1), of k v f])
  show ?thesis using c map_get_flags_triple[OF assms(2) t]
    by (cases "find_key k ks") (simp_all add: m')
qed

lemma size_counts_insert:
  assumes wf: "zmap_wf m" and mut: "\<not> is_immutable m" and f: "flag_ok f" and s: "size_counts_keys m"
    and keep: "\<And>w g. map_get_flags m k = Some (w, g) \<Longrightarrow>
      (g AND MAP_FLAG_ENUMERABLE \<noteq> 0) = (f AND MAP_FLAG_ENUMERABLE \<noteq> 0)"
  shows "size_counts_keys (map_insert_flags m k v f)"
proof -
  let ?m' = "map_insert_flags m k v f"
  have fin: "finite {k. enumerable m k}" using map_key_list_set[OF wf] by (metis finite_set)
  have en: "{x. enumerable ?m' x} =
      (if f AND MAP_FLAG_ENUMERABLE \<noteq> 0 then insert k {x. enumerable m x} else {x. enumerable m x} - {k})"
    using enumerable_insert[OF wf mut f] by auto
  show ?thesis
  proof (cases "map_get_flags m k")
    case None
    then have "\<not> enumerable m k" by (simp add: enumerable_def)
    then have "of_nat (card {x. enumerable ?m' x}) =
        (of_nat (card {x. enumerable m x}) + (f AND MAP_FLAG_ENUMERABLE) :: uint_t)"
      using fin flag_enumerable[OF f] unfolding en by (auto simp: add.commute)
    then show ?thesis using None s length_key_list[OF wf] length_key_list[OF zmap_wf_insert[OF wf]]
      by (simp add: size_counts_keys_def map_size_insert[OF mut wf])
  next
    case (Some p)
    obtain w g where p: "p = (w, g)" by (cases p)
    with Some keep have "enumerable m k = (f AND MAP_FLAG_ENUMERABLE \<noteq> 0)"
      by (simp add: enumerable_def)
    then have "{x. enumerable ?m' x} = {x. enumerable m x}" unfolding en by auto
    then show ?thesis using Some s length_key_list[OF wf] length_key_list[OF zmap_wf_insert[OF wf]]
      by (simp add: size_counts_keys_def map_size_insert[OF mut wf])
  qed
qed

section \<open>The contract the clients rely on\<close>

text \<open>
  What symbol tables, import tables, object properties and static variables use of a map: a
  lookup that finds the value last stored under a key.
\<close>

locale str_map =
  fixes inv :: "'m \<Rightarrow> bool"
    and ok :: "'v \<Rightarrow> bool"
    and lookup :: "'m \<Rightarrow> string \<Rightarrow> 'v option"
    and put :: "'m \<Rightarrow> string \<Rightarrow> 'v \<Rightarrow> 'm"
    and mk :: "'m"
  assumes inv_mk: "inv mk"
    and lookup_mk: "lookup mk k = None"
    and inv_put: "inv m \<Longrightarrow> ok v \<Longrightarrow> inv (put m k v)"
    and lookup_put: "inv m \<Longrightarrow> ok v \<Longrightarrow> lookup (put m k v) k' = (if k' = k then Some v else lookup m k')"
begin

lemma put_all:
  assumes "inv m" "\<forall>(k, v) \<in> set kvs. ok v"
  shows "inv (fold (\<lambda>(k, v) m. put m k v) kvs m)"
    and "lookup (fold (\<lambda>(k, v) m. put m k v) kvs m) k =
      (case map_of (rev kvs) k of Some v \<Rightarrow> Some v | None \<Rightarrow> lookup m k)"
proof -
  have "inv (fold (\<lambda>(k, v) m. put m k v) kvs m) \<and>
      lookup (fold (\<lambda>(k, v) m. put m k v) kvs m) k =
      (case map_of (rev kvs) k of Some v \<Rightarrow> Some v | None \<Rightarrow> lookup m k)"
    using assms
  proof (induction kvs arbitrary: m)
    case Nil
    then show ?case by simp
  next
    case (Cons kv kvs)
    obtain k0 v0 where kv: "kv = (k0, v0)" by (cases kv)
    with Cons.prems have "inv (put m k0 v0)" "lookup (put m k0 v0) k = (if k = k0 then Some v0 else lookup m k)"
      by (auto simp: inv_put lookup_put)
    with Cons.IH[of "put m k0 v0"] Cons.prems(2) kv show ?case
      by (simp add: map_add_def split: option.splits)
  qed
  then show "inv (fold (\<lambda>(k, v) m. put m k v) kvs m)"
    and "lookup (fold (\<lambda>(k, v) m. put m k v) kvs m) k =
      (case map_of (rev kvs) k of Some v \<Rightarrow> Some v | None \<Rightarrow> lookup m k)"
    by simp_all
qed

text \<open>Loading a table of distinct keys makes exactly that table.\<close>

lemma put_all_distinct:
  assumes "distinct (map fst kvs)" "\<forall>(k, v) \<in> set kvs. ok v"
  shows "lookup (fold (\<lambda>(k, v) m. put m k v) kvs mk) k = map_of kvs k"
  using put_all(2)[OF inv_mk assms(2), of k] assms(1)
  by (simp add: lookup_mk map_of_rev_distinct split: option.splits)

lemma put_commute:
  assumes "inv m" "ok v" "ok w" "a \<noteq> b"
  shows "lookup (put (put m a v) b w) = lookup (put (put m b w) a v)"
  using assms by (auto simp: fun_eq_iff lookup_put inv_put)

end

definition zmap_inv :: "'v zmap \<Rightarrow> bool" where
  "zmap_inv m \<longleftrightarrow> zmap_wf m \<and> \<not> is_immutable m"

definition zmap_put :: "'v zmap \<Rightarrow> string \<Rightarrow> 'v \<times> uint_t \<Rightarrow> 'v zmap" where
  "zmap_put m k e = map_insert_flags m k (fst e) (snd e)"

interpretation zm: str_map zmap_inv "\<lambda>e. flag_ok (snd e)" map_get_flags zmap_put map_new
  by unfold_locales
    (auto simp: zmap_inv_def zmap_put_def zmap_wf_new zmap_wf_insert map_get_insert map_get_flags_new,
     simp_all add: map_new_def)

section \<open>Properties\<close>

definition load_map :: "(string \<times> 'v \<times> uint_t) list \<Rightarrow> 'v zmap" where
  "load_map kvs = fold (\<lambda>(k, v, f) m. map_insert_flags m k v f) kvs map_new"

lemma load_map_put: "load_map kvs = fold (\<lambda>(k, e) m. zmap_put m k e) kvs map_new"
  by (simp add: load_map_def zmap_put_def case_prod_beta')

lemma load_map_facts:
  assumes "\<forall>(k, v, f) \<in> set kvs. flag_ok f"
  shows "zmap_inv (load_map kvs)" "map_get_flags (load_map kvs) k = map_of (rev kvs) k"
proof -
  have ok: "\<forall>(k, e) \<in> set kvs. flag_ok (snd e)" using assms by auto
  show "zmap_inv (load_map kvs)"
    unfolding load_map_put by (rule zm.put_all(1)[OF zm.inv_mk ok])
  show "map_get_flags (load_map kvs) k = map_of (rev kvs) k"
    unfolding load_map_put using zm.put_all(2)[OF zm.inv_mk ok, of k]
    by (simp add: zm.lookup_mk split: option.splits)
qed

text \<open>
  C25: the hash map implements a finite map: after any sequence of insertions into a new map, a
  lookup returns the value and flag last inserted under that key, and nothing for a key never
  inserted, whichever keys collide in a bag.
\<close>

theorem map_implements_finite_map:
  assumes "\<forall>(k, v, f) \<in> set kvs. flag_ok f"
  shows "map_get_flags (load_map kvs) k = map_of (rev kvs) k"
  by (rule load_map_facts(2)[OF assms])

theorem map_implements_finite_map_witness:
  "map_get_flags (load_map [(''ab'', 1::nat, 1), (''k'', 5, 0), (''ab'', 2, 3)]) ''ab'' = Some (2, 3)"
  using map_implements_finite_map[of "[(''ab'', 1::nat, 1), (''k'', 5, 0), (''ab'', 2, 3)]" "''ab''"]
  by (simp add: flag_ok_def)

text \<open>
  C28: the key list of a loaded map names exactly the keys whose last insertion was enumerable,
  each once.
\<close>

theorem map_key_list_enumerates:
  assumes "\<forall>(k, v, f) \<in> set kvs. flag_ok f"
  shows "distinct (map_key_list (load_map kvs)) \<and>
    set (map_key_list (load_map kvs)) =
      {k. \<exists>v f. map_of (rev kvs) k = Some (v, f) \<and> f AND MAP_FLAG_ENUMERABLE \<noteq> 0}"
proof -
  have wf: "zmap_wf (load_map kvs)" using load_map_facts(1)[OF assms] by (simp add: zmap_inv_def)
  show ?thesis using map_key_list_distinct[OF wf] map_key_list_set[OF wf] load_map_facts(2)[OF assms]
    by (auto simp: enumerable_def split: option.splits)
qed

theorem map_key_list_enumerates_witness:
  "set (map_key_list (load_map [(''a'', 1::nat, 1), (''b'', 5, 0), (''k'', 5, 1)])) = {''a'', ''k''}"
  using map_key_list_enumerates[of "[(''a'', 1::nat, 1), (''b'', 5, 0), (''k'', 5, 1)]"]
  by (auto simp: flag_ok_def MAP_FLAG_ENUMERABLE_def)

text \<open>
  The size counter equals the number of enumerable keys, as long as no key is inserted both
  as enumerable and as non-enumerable.
\<close>

lemma map_size_counts_keys:
  assumes "\<forall>(k, v, f) \<in> set kvs. flag_ok f"
    and "\<forall>(k, v, f) \<in> set kvs. \<forall>(k', v', f') \<in> set kvs. k = k' \<longrightarrow>
      (f AND MAP_FLAG_ENUMERABLE \<noteq> 0) = (f' AND MAP_FLAG_ENUMERABLE \<noteq> 0)"
  shows "map_size (load_map kvs) = of_nat (length (map_key_list (load_map kvs)))"
  using assms
proof (induction kvs rule: rev_induct)
  case Nil
  have "{k. enumerable (map_new :: 'a zmap) k} = {}" by (simp add: enumerable_def map_get_flags_new)
  then have "set (map_key_list (map_new :: 'a zmap)) = {}"
    by (simp only: map_key_list_set[OF zmap_wf_new])
  then have "map_key_list (map_new :: 'a zmap) = []" by simp
  then show ?case by (simp add: load_map_def) (simp add: map_new_def)
next
  case (snoc e kvs)
  obtain k v f where e: "e = (k, v, f)" by (cases e)
  have ok: "\<forall>(k, v, f) \<in> set kvs. flag_ok f" and f: "flag_ok f" using snoc.prems(1) e by auto
  have s: "size_counts_keys (load_map kvs)"
    unfolding size_counts_keys_def by (rule snoc.IH[OF ok]) (use snoc.prems(2) in auto)
  have keep: "(g AND MAP_FLAG_ENUMERABLE \<noteq> 0) = (f AND MAP_FLAG_ENUMERABLE \<noteq> 0)"
    if "map_get_flags (load_map kvs) k = Some (w, g)" for w g
  proof -
    from that have "(k, w, g) \<in> set kvs"
      using load_map_facts(2)[OF ok, of k] map_of_SomeD by fastforce
    then show ?thesis using snoc.prems(2) e by fastforce
  qed
  have "load_map (kvs @ [e]) = map_insert_flags (load_map kvs) k v f" by (simp add: load_map_def e)
  with size_counts_insert[OF _ _ f s keep] load_map_facts(1)[OF ok] show ?case
    by (simp add: size_counts_keys_def zmap_inv_def)
qed

lemma map_size_counts_keys_witness:
  "map_size (load_map [(''a'', 1::nat, 1), (''b'', 5, 0), (''a'', 5, 3)]) =
     of_nat (length (map_key_list (load_map [(''a'', 1::nat, 1), (''b'', 5, 0), (''a'', 5, 3)])))"
  using map_size_counts_keys[of "[(''a'', 1::nat, 1), (''b'', 5, 0), (''a'', 5, 3)]"]
  by (simp add: flag_ok_def MAP_FLAG_ENUMERABLE_def)

text \<open>
  An ordinary assignment to a key that exists as non-enumerable (as \<open>size\<close> and
  \<open>keys\<close> of every object) makes it enumerable without counting it: the counter then
  disagrees with the key list.
\<close>

lemma map_size_misses_overwrite:
  "map_size (map_insert (map_insert_non_enumerable map_new k v) k w) = 0 \<and>
   map_key_list (map_insert (map_insert_non_enumerable map_new k v) k w) = [k]"
proof -
  let ?m1 = "map_insert_non_enumerable map_new k v"
  have w1: "zmap_wf ?m1" and n: "\<not> is_immutable (map_new :: 'a zmap)" "\<not> is_immutable ?m1"
    by (simp_all add: map_insert_non_enumerable_def zmap_wf_insert zmap_wf_new) (simp_all add: map_new_def)
  have fl: "flag_ok 0" "flag_ok (0 OR MAP_FLAG_ENUMERABLE)" by (simp_all add: flag_ok_def MAP_FLAG_ENUMERABLE_def)
  have g: "map_get_flags ?m1 k = Some (v, 0)"
    using map_get_insert[OF zmap_wf_new n(1) fl(1)] by (simp add: map_insert_non_enumerable_def)
  have sz: "map_size ?m1 = 0"
    using map_size_insert[OF n(1) zmap_wf_new] by (simp add: map_insert_non_enumerable_def map_get_flags_new)
      (simp add: map_new_def)
  have w2: "zmap_wf (map_insert ?m1 k w)" using w1 by (simp add: map_insert_def zmap_wf_insert)
  have "{x. enumerable (map_insert ?m1 k w) x} = {k}"
    using enumerable_insert[OF w1 n(2) fl(2)] enumerable_insert[OF zmap_wf_new n(1) fl(1)]
    by (auto simp: map_insert_def map_insert_non_enumerable_def MAP_FLAG_ENUMERABLE_def
        enumerable_def map_get_flags_new split: if_splits)
  then have "set (map_key_list (map_insert ?m1 k w)) = {k}" using map_key_list_set[OF w2] by simp
  then have "map_key_list (map_insert ?m1 k w) = [k]"
    using map_key_list_distinct[OF w2]
    by (cases "map_key_list (map_insert ?m1 k w)") (auto simp: subset_singleton_iff)
  moreover have "map_size (map_insert ?m1 k w) = 0"
    using map_size_insert[OF n(2) w1] g sz by (simp add: map_insert_def)
  ultimately show ?thesis by simp
qed

end
