(* ===== verification/Instr.thy ===== *)
theory Instr
  imports Prelude
begin

text \<open>
  src/src/program/instruction.h and Program.cpp: the instruction set, instructions before they are
  assembled, and the instruction list the compiler appends to. Before assembly an operand word is a
  number (mostly a register), a pointer to a string (a label, a name, a literal) or a pointer to the
  function being framed; the model keeps the three apart, as no pointer value is a register number.
\<close>

section \<open>Opcodes\<close>

datatype opcode =
    MOV_NUMBER | MOV_STR | MOV | ADD | SUB |
    DIV | MUL | MOD | CMP_EQUAL | CMP_LESS |
    CMP_LESS_OR_EQUAL | CMP_GREATER | CMP_N_EQUAL | CMP_GREATER_OR_EQUAL | JMP_TRUE |
    JMP_NOT_TRUE | JMP | GET_FIELD | GET_FIELD_IMMEDIATE | SET_FIELD |
    CALL | PUSH | POP | RETURN | RETURN_I |
    NOP | FFRAME | INC | DEC | MOV_FNC |
    JMP_LESS | JMP_GREATER | JMP_LESS_OR_EQUAL | JMP_GREATER_OR_EQUAL | JMP_EQUAL |
    JMP_N_EQUAL | JMP_LESS_I | JMP_GREATER_I | JMP_LESS_OR_EQUAL_I | JMP_GREATER_OR_EQUAL_I |
    JMP_EQUAL_I | JMP_N_EQUAL_I | IMPORT_CLS | THROW_EXCEPTION | SET_CATCH |
    CLEAR_CATCH | CREATE_THIS | COMMENT | LABEL

text \<open>The numbers of the \<open>#define\<close>s.\<close>

definition opcodes :: "opcode list" where
  "opcodes = [MOV_NUMBER, MOV_STR, MOV, ADD, SUB,
     DIV, MUL, MOD, CMP_EQUAL, CMP_LESS,
     CMP_LESS_OR_EQUAL, CMP_GREATER, CMP_N_EQUAL, CMP_GREATER_OR_EQUAL, JMP_TRUE,
     JMP_NOT_TRUE, JMP, GET_FIELD, GET_FIELD_IMMEDIATE, SET_FIELD,
     CALL, PUSH, POP, RETURN, RETURN_I,
     NOP, FFRAME, INC, DEC, MOV_FNC,
     JMP_LESS, JMP_GREATER, JMP_LESS_OR_EQUAL, JMP_GREATER_OR_EQUAL, JMP_EQUAL,
     JMP_N_EQUAL, JMP_LESS_I, JMP_GREATER_I, JMP_LESS_OR_EQUAL_I, JMP_GREATER_OR_EQUAL_I,
     JMP_EQUAL_I, JMP_N_EQUAL_I, IMPORT_CLS, THROW_EXCEPTION, SET_CATCH,
     CLEAR_CATCH, CREATE_THIS, COMMENT, LABEL]"

primrec opcode_num :: "opcode \<Rightarrow> nat" where
  "opcode_num MOV_NUMBER = 0"
| "opcode_num MOV_STR = 1"
| "opcode_num MOV = 2"
| "opcode_num ADD = 3"
| "opcode_num SUB = 4"
| "opcode_num DIV = 5"
| "opcode_num MUL = 6"
| "opcode_num MOD = 7"
| "opcode_num CMP_EQUAL = 8"
| "opcode_num CMP_LESS = 9"
| "opcode_num CMP_LESS_OR_EQUAL = 10"
| "opcode_num CMP_GREATER = 11"
| "opcode_num CMP_N_EQUAL = 12"
| "opcode_num CMP_GREATER_OR_EQUAL = 13"
| "opcode_num JMP_TRUE = 14"
| "opcode_num JMP_NOT_TRUE = 15"
| "opcode_num JMP = 16"
| "opcode_num GET_FIELD = 17"
| "opcode_num GET_FIELD_IMMEDIATE = 18"
| "opcode_num SET_FIELD = 19"
| "opcode_num CALL = 20"
| "opcode_num PUSH = 21"
| "opcode_num POP = 22"
| "opcode_num RETURN = 23"
| "opcode_num RETURN_I = 24"
| "opcode_num NOP = 25"
| "opcode_num FFRAME = 26"
| "opcode_num INC = 27"
| "opcode_num DEC = 28"
| "opcode_num MOV_FNC = 29"
| "opcode_num JMP_LESS = 30"
| "opcode_num JMP_GREATER = 31"
| "opcode_num JMP_LESS_OR_EQUAL = 32"
| "opcode_num JMP_GREATER_OR_EQUAL = 33"
| "opcode_num JMP_EQUAL = 34"
| "opcode_num JMP_N_EQUAL = 35"
| "opcode_num JMP_LESS_I = 36"
| "opcode_num JMP_GREATER_I = 37"
| "opcode_num JMP_LESS_OR_EQUAL_I = 38"
| "opcode_num JMP_GREATER_OR_EQUAL_I = 39"
| "opcode_num JMP_EQUAL_I = 40"
| "opcode_num JMP_N_EQUAL_I = 41"
| "opcode_num IMPORT_CLS = 42"
| "opcode_num THROW_EXCEPTION = 43"
| "opcode_num SET_CATCH = 44"
| "opcode_num CLEAR_CATCH = 45"
| "opcode_num CREATE_THIS = 46"
| "opcode_num COMMENT = 47"
| "opcode_num LABEL = 48"

text \<open>The mnemonics; opcodes without a case print as UNKNOWN.\<close>

definition name_opcode :: "opcode \<Rightarrow> string" where
  "name_opcode c = (case c of
     SET_CATCH \<Rightarrow> ''set_catch''
   | CLEAR_CATCH \<Rightarrow> ''clear_catch''
   | THROW_EXCEPTION \<Rightarrow> ''throw''
   | JMP_GREATER_OR_EQUAL \<Rightarrow> ''jge''
   | JMP_GREATER \<Rightarrow> ''jg''
   | JMP_LESS_OR_EQUAL \<Rightarrow> ''jle''
   | JMP_EQUAL \<Rightarrow> ''je''
   | JMP_N_EQUAL \<Rightarrow> ''jne''
   | JMP_LESS \<Rightarrow> ''jl''
   | JMP_GREATER_OR_EQUAL_I \<Rightarrow> ''jge_i''
   | JMP_GREATER_I \<Rightarrow> ''jg_i''
   | JMP_LESS_OR_EQUAL_I \<Rightarrow> ''jle_i''
   | JMP_EQUAL_I \<Rightarrow> ''je_i''
   | JMP_N_EQUAL_I \<Rightarrow> ''jne_i''
   | JMP_LESS_I \<Rightarrow> ''jl_i''
   | DEC \<Rightarrow> ''dec''
   | INC \<Rightarrow> ''inc''
   | MOV_FNC \<Rightarrow> ''mov_f''
   | LABEL \<Rightarrow> ''''
   | COMMENT \<Rightarrow> ''''
   | FFRAME \<Rightarrow> ''fframe''
   | MOV_NUMBER \<Rightarrow> ''mov_n''
   | MOV_STR \<Rightarrow> ''mov_s''
   | MOV \<Rightarrow> ''mov''
   | ADD \<Rightarrow> ''add''
   | SUB \<Rightarrow> ''sub''
   | MUL \<Rightarrow> ''mul''
   | MOD \<Rightarrow> ''mod''
   | DIV \<Rightarrow> ''div''
   | CMP_EQUAL \<Rightarrow> ''ce''
   | CMP_N_EQUAL \<Rightarrow> ''cne''
   | CMP_GREATER \<Rightarrow> ''cg''
   | CMP_GREATER_OR_EQUAL \<Rightarrow> ''cge''
   | CMP_LESS \<Rightarrow> ''cl''
   | CMP_LESS_OR_EQUAL \<Rightarrow> ''cle''
   | JMP \<Rightarrow> ''jmp''
   | JMP_NOT_TRUE \<Rightarrow> ''jnt''
   | JMP_TRUE \<Rightarrow> ''jt''
   | GET_FIELD \<Rightarrow> ''get_f''
   | GET_FIELD_IMMEDIATE \<Rightarrow> ''get_fi''
   | SET_FIELD \<Rightarrow> ''set_f''
   | CALL \<Rightarrow> ''call''
   | RETURN \<Rightarrow> ''ret''
   | RETURN_I \<Rightarrow> ''ret_i''
   | PUSH \<Rightarrow> ''push''
   | POP \<Rightarrow> ''pop''
   | NOP \<Rightarrow> ''nop''
   | IMPORT_CLS \<Rightarrow> ''import''
   | _ \<Rightarrow> ''UNKNOWN'')"

lemma opcodes_num: "opcodes ! opcode_num c = c"
  by (cases c) (simp_all add: opcodes_def)

lemma opcode_num_less: "opcode_num c < length opcodes"
  by (cases c) (simp_all add: opcodes_def)

lemma opcode_num_inj: "opcode_num a = opcode_num b \<Longrightarrow> a = b"
  using opcodes_num by metis

text \<open>The code compares opcodes by their numbers, in range tests.\<close>

instantiation opcode :: linorder
begin

definition less_eq_opcode :: "opcode \<Rightarrow> opcode \<Rightarrow> bool" where
  "less_eq_opcode a b \<longleftrightarrow> opcode_num a \<le> opcode_num b"

definition less_opcode :: "opcode \<Rightarrow> opcode \<Rightarrow> bool" where
  "less_opcode a b \<longleftrightarrow> opcode_num a < opcode_num b"

instance
  by standard (auto simp: less_eq_opcode_def less_opcode_def intro: opcode_num_inj)

end

section \<open>Instructions\<close>

datatype operand = Num nat | Str string | Fun_ptr nat

text \<open>\<open>NULL\<close> and a number 0 are the same word.\<close>

abbreviation null_op :: operand where
  "null_op \<equiv> Num 0"

record z_instruction =
  opc :: opcode
  r0 :: operand
  r1 :: operand
  r2 :: operand

definition instruction_new :: "opcode \<Rightarrow> operand \<Rightarrow> operand \<Rightarrow> operand \<Rightarrow> z_instruction" where
  "instruction_new c a b d = \<lparr>opc = c, r0 = a, r1 = b, r2 = d\<rparr>"

lemma instruction_new_fields [simp]:
  "opc (instruction_new c a b d) = c" "r0 (instruction_new c a b d) = a"
  "r1 (instruction_new c a b d) = b" "r2 (instruction_new c a b d) = d"
  by (simp_all add: instruction_new_def)

section \<open>The program under construction\<close>

type_synonym program = "z_instruction list"

text \<open>\<open>addInstruction\<close> appends and returns the index; \<open>addComment\<close> has an empty body.\<close>

definition addInstruction ::
  "opcode \<Rightarrow> operand \<Rightarrow> operand \<Rightarrow> operand \<Rightarrow> program \<Rightarrow> nat \<times> program" where
  "addInstruction c a b d p = (length p, p @ [instruction_new c a b d])"

definition addComment :: "string \<Rightarrow> program \<Rightarrow> program" where
  "addComment s p = p"

text \<open>
  \<open>addLabel\<close> formats into a buffer with \<open>vsnprintf(buffer, 99, ...)\<close>: at most 98
  characters of the label survive.
\<close>

definition addLabel :: "string \<Rightarrow> program \<Rightarrow> program" where
  "addLabel s p = snd (addInstruction LABEL (Str (take 98 s)) null_op null_op p)"

definition is_label :: "z_instruction \<Rightarrow> bool" where
  "is_label i \<longleftrightarrow> opc i = LABEL"

definition is_cmp :: "opcode \<Rightarrow> bool" where
  "is_cmp c \<longleftrightarrow> CMP_EQUAL \<le> c \<and> c \<le> CMP_GREATER_OR_EQUAL"

lemma is_cmp_cases:
  "is_cmp c \<longleftrightarrow> c \<in> {CMP_EQUAL, CMP_LESS, CMP_LESS_OR_EQUAL, CMP_GREATER, CMP_N_EQUAL,
     CMP_GREATER_OR_EQUAL}"
  by (cases c) (simp_all add: is_cmp_def less_eq_opcode_def)

section \<open>The registers an instruction names\<close>

definition instr_regs :: "z_instruction \<Rightarrow> operand list" where
  "instr_regs i =
     (if opc i \<in> {MOV_NUMBER, MOV_STR, PUSH, POP, RETURN, THROW_EXCEPTION, MOV_FNC, JMP_TRUE, JMP_NOT_TRUE,
          JMP_LESS_I, JMP_GREATER_I, JMP_LESS_OR_EQUAL_I, JMP_GREATER_OR_EQUAL_I, JMP_EQUAL_I, JMP_N_EQUAL_I}
      then [r0 i]
      else if opc i \<in> {MOV, CALL, INC, DEC, JMP_LESS, JMP_GREATER, JMP_LESS_OR_EQUAL,
          JMP_GREATER_OR_EQUAL, JMP_EQUAL, JMP_N_EQUAL}
      then [r0 i, r1 i]
      else if opc i = GET_FIELD_IMMEDIATE then [r0 i, r2 i]
      else if opc i \<in> {ADD, SUB, DIV, MUL, MOD, GET_FIELD, SET_FIELD} \<or> is_cmp (opc i)
      then [r0 i, r1 i, r2 i]
      else [])"

fun reg_le :: "nat \<Rightarrow> operand \<Rightarrow> bool" where
  "reg_le n (Num k) \<longleftrightarrow> k \<le> n"
| "reg_le n _ \<longleftrightarrow> False"

text \<open>Names of labels, fields, imports and functions, and the texts of numbers, are strings.\<close>

fun is_text :: "operand \<Rightarrow> bool" where
  "is_text (Str _) \<longleftrightarrow> True"
| "is_text _ \<longleftrightarrow> False"

definition kinds_ok :: "z_instruction \<Rightarrow> bool" where
  "kinds_ok i \<longleftrightarrow>
     (opc i \<in> {LABEL, JMP, SET_CATCH, IMPORT_CLS} \<longrightarrow> is_text (r0 i)) \<and>
     (opc i \<in> {JMP_TRUE, JMP_NOT_TRUE, MOV_FNC, MOV_STR, GET_FIELD_IMMEDIATE, IMPORT_CLS, MOV_NUMBER, JMP_LESS_I,
        JMP_GREATER_I, JMP_LESS_OR_EQUAL_I, JMP_GREATER_OR_EQUAL_I, JMP_EQUAL_I, JMP_N_EQUAL_I} \<longrightarrow> is_text (r1 i)) \<and>
     (opc i \<in> {JMP_LESS, JMP_GREATER, JMP_LESS_OR_EQUAL, JMP_GREATER_OR_EQUAL, JMP_EQUAL, JMP_N_EQUAL, JMP_LESS_I,
        JMP_GREATER_I, JMP_LESS_OR_EQUAL_I, JMP_GREATER_OR_EQUAL_I, JMP_EQUAL_I, JMP_N_EQUAL_I} \<longrightarrow> is_text (r2 i))"

text \<open>
  All registers lie in a frame of \<open>n\<close> locals, a compare writes a real register, and the other operands
  are strings where the assembler expects them.
\<close>

definition instr_ok :: "nat \<Rightarrow> z_instruction \<Rightarrow> bool" where
  "instr_ok n i \<longleftrightarrow> list_all (reg_le n) (instr_regs i) \<and> (is_cmp (opc i) \<longrightarrow> r2 i \<noteq> null_op) \<and> kinds_ok i"

lemma reg_le_mono: "reg_le m x \<Longrightarrow> m \<le> n \<Longrightarrow> reg_le n x"
  by (cases x) auto

lemma instr_ok_mono: "instr_ok m i \<Longrightarrow> m \<le> n \<Longrightarrow> instr_ok n i"
  unfolding instr_ok_def list_all_iff using reg_le_mono by blast

section \<open>Decimal text of a counter\<close>

fun dec_string :: "nat \<Rightarrow> string" where
  "dec_string n =
     (if n < 10 then [char_of (48 + n)] else dec_string (n div 10) @ [char_of (48 + n mod 10)])"

declare dec_string.simps [simp del]

definition dec_value :: "string \<Rightarrow> nat" where
  "dec_value s = foldl (\<lambda>v c. v * 10 + (of_char c - 48)) 0 s"

lemma dec_value_string: "dec_value (dec_string n) = n"
proof (induction n rule: dec_string.induct)
  case (1 n)
  show ?case
  proof (cases "n < 10")
    case True
    then show ?thesis by (subst dec_string.simps) (simp add: dec_value_def)
  next
    case False
    with 1 have "foldl (\<lambda>v c. v * 10 + (of_char c - 48)) 0 (dec_string (n div 10)) = n div 10"
      by (simp add: dec_value_def)
    with False show ?thesis by (subst dec_string.simps) (simp add: dec_value_def)
  qed
qed

lemma dec_string_inj: "dec_string a = dec_string b \<Longrightarrow> a = b"
  using dec_value_string by metis

end
