(* ===== verification/Optimizer.thy ===== *)
theory Optimizer
  imports Instr
begin

text \<open>
  src/src/program/BytecodeOptimizer.cpp: the peephole pass, repeated until it removes nothing.
  The loop looks at \<open>instructions[i + 1]\<close> without checking that it exists, so the model of
  one pass is \<open>None\<close> when a rule reads past the end of the list.
\<close>

section \<open>One iteration of the loop\<close>

text \<open>The compare-and-jump instruction with an immediate that a jump turns into.\<close>

definition jump_immediate :: "opcode \<Rightarrow> opcode option" where
  "jump_immediate c =
     (if c = JMP_N_EQUAL then Some JMP_N_EQUAL_I
      else if c = JMP_EQUAL then Some JMP_EQUAL_I
      else if c = JMP_LESS then Some JMP_LESS_I
      else if c = JMP_LESS_OR_EQUAL then Some JMP_LESS_OR_EQUAL_I
      else if c = JMP_GREATER then Some JMP_GREATER_I
      else if c = JMP_GREATER_OR_EQUAL then Some JMP_GREATER_OR_EQUAL_I
      else None)"

text \<open>The jump a compare becomes when a conditional jump on its result follows.\<close>

definition fuse_jump :: "opcode \<Rightarrow> bool \<Rightarrow> opcode" where
  "fuse_jump c neg =
     (if c = CMP_EQUAL then (if neg then JMP_N_EQUAL else JMP_EQUAL)
      else if c = CMP_N_EQUAL then (if neg then JMP_EQUAL else JMP_N_EQUAL)
      else if c = CMP_LESS then (if neg then JMP_GREATER_OR_EQUAL else JMP_LESS)
      else if c = CMP_LESS_OR_EQUAL then (if neg then JMP_GREATER else JMP_LESS_OR_EQUAL)
      else if c = CMP_GREATER then (if neg then JMP_LESS_OR_EQUAL else JMP_GREATER)
      else (if neg then JMP_LESS else JMP_GREATER_OR_EQUAL))"

text \<open>
  \<open>opt_iter cur nxt\<close>: the instruction pushed, if any, and whether the next one is skipped.
\<close>

definition opt_iter ::
  "z_instruction \<Rightarrow> z_instruction option \<Rightarrow> (z_instruction option \<times> bool) option" where
  "opt_iter cur nxt =
     (if opc cur = RETURN then
        (case nxt of None \<Rightarrow> None | Some n \<Rightarrow> Some (Some cur, opc n = RETURN))
      else if opc cur = MOV \<and> r0 cur = r1 cur then Some (None, False)
      else if opc cur = MOV_NUMBER then
        (case nxt of None \<Rightarrow> None | Some n \<Rightarrow>
           if r0 cur = r1 n then
             (case jump_immediate (opc n) of
                Some c \<Rightarrow> Some (Some \<lparr>opc = c, r0 = r0 n, r1 = r1 cur, r2 = r2 n\<rparr>, True)
              | None \<Rightarrow> Some (Some cur, False))
           else Some (Some cur, False))
      else if is_cmp (opc cur) then
        (case nxt of None \<Rightarrow> None | Some n \<Rightarrow>
           if r1 n = r2 cur then Some (Some (cur\<lparr>r2 := r1 n\<rparr>), True)
           else if opc n \<noteq> JMP_NOT_TRUE \<and> opc n \<noteq> JMP_TRUE then Some (Some cur, False)
           else Some (Some (cur\<lparr>opc := fuse_jump (opc cur) (opc n = JMP_NOT_TRUE), r2 := r1 n\<rparr>), True))
      else Some (Some cur, False))"

section \<open>The pass and its repetition\<close>

definition head_opt :: "'a list \<Rightarrow> 'a option" where
  "head_opt xs = (case xs of [] \<Rightarrow> None | x # _ \<Rightarrow> Some x)"

function opt_pass :: "program \<Rightarrow> program option" where
  "opt_pass [] = Some []"
| "opt_pass (cur # rest) =
     (case opt_iter cur (head_opt rest) of
        None \<Rightarrow> None
      | Some (e, skip) \<Rightarrow>
          map_option (\<lambda>out. (case e of None \<Rightarrow> out | Some i \<Rightarrow> i # out))
            (opt_pass (if skip then tl rest else rest)))"
  by pat_completeness auto
termination
  by (relation "measure length") auto

lemma opt_pass_length: "opt_pass p = Some q \<Longrightarrow> length q \<le> length p"
proof (induction p arbitrary: q rule: opt_pass.induct)
  case 1
  then show ?case by simp
next
  case (2 cur rest)
  then obtain e skip out where it: "opt_iter cur (head_opt rest) = Some (e, skip)"
    and out: "opt_pass (if skip then tl rest else rest) = Some out"
    and q: "q = (case e of None \<Rightarrow> out | Some i \<Rightarrow> i # out)"
    by (auto split: option.splits prod.splits)
  have "length out \<le> length (if skip then tl rest else rest)" using 2(1)[OF it refl out] .
  then show ?case using q by (auto split: option.splits if_splits)
qed

function optimize :: "program \<Rightarrow> program option" where
  "optimize instrs =
     (case opt_pass instrs of
        None \<Rightarrow> None
      | Some ret \<Rightarrow> if length instrs - length ret = 0 then Some ret else optimize ret)"
  by pat_completeness auto
termination
  by (relation "measure length") (auto dest: opt_pass_length)

declare optimize.simps [simp del]

section \<open>What an iteration can do\<close>

lemma jump_immediate_SomeE:
  assumes "jump_immediate c = Some d"
  obtains "c = JMP_N_EQUAL" "d = JMP_N_EQUAL_I" | "c = JMP_EQUAL" "d = JMP_EQUAL_I"
    | "c = JMP_LESS" "d = JMP_LESS_I" | "c = JMP_LESS_OR_EQUAL" "d = JMP_LESS_OR_EQUAL_I"
    | "c = JMP_GREATER" "d = JMP_GREATER_I" | "c = JMP_GREATER_OR_EQUAL" "d = JMP_GREATER_OR_EQUAL_I"
  using assms unfolding jump_immediate_def by (simp split: if_split_asm)

lemma opt_iter_cases:
  assumes "opt_iter cur nxt = Some (e, skip)"
  obtains (drop) "e = None" "\<not> skip" "opc cur = MOV" "r0 cur = r1 cur"
  | (keep) "e = Some cur" "\<not> skip"
  | (ret) n where "nxt = Some n" "e = Some cur" "skip" "opc cur = RETURN" "opc n = RETURN"
  | (imm) n c where "nxt = Some n" "skip" "opc cur = MOV_NUMBER" "jump_immediate (opc n) = Some c"
      "r0 cur = r1 n" "e = Some \<lparr>opc = c, r0 = r0 n, r1 = r1 cur, r2 = r2 n\<rparr>"
  | (swallow) n where "nxt = Some n" "skip" "is_cmp (opc cur)" "r1 n = r2 cur" "e = Some cur"
  | (fuse) n where "nxt = Some n" "skip" "is_cmp (opc cur)" "opc n \<in> {JMP_NOT_TRUE, JMP_TRUE}"
      "e = Some (cur\<lparr>opc := fuse_jump (opc cur) (opc n = JMP_NOT_TRUE), r2 := r1 n\<rparr>)"
proof -
  have swallowed: "cur\<lparr>r2 := r1 n\<rparr> = cur" if "r1 n = r2 cur" for n
    using that by simp
  show ?thesis
    using assms that swallowed unfolding opt_iter_def
    by (auto split: if_splits option.splits)
qed

section \<open>Stability\<close>

lemma opt_pass_same_length: "opt_pass p = Some q \<Longrightarrow> length q = length p \<Longrightarrow> q = p"
proof (induction p arbitrary: q rule: opt_pass.induct)
  case 1
  then show ?case by simp
next
  case (2 cur rest)
  from 2(2) obtain e skip out where it: "opt_iter cur (head_opt rest) = Some (e, skip)"
    and out: "opt_pass (if skip then tl rest else rest) = Some out"
    and q: "q = (case e of None \<Rightarrow> out | Some i \<Rightarrow> i # out)"
    by (auto split: option.splits prod.splits)
  have le: "length out \<le> length (if skip then tl rest else rest)"
    using out by (rule opt_pass_length)
  have ne: "rest \<noteq> []" if skip
    using it that by (cases rest) (auto simp: head_opt_def elim!: opt_iter_cases)
  then have "\<not> skip" using le q 2(3) by (cases rest) (auto split: option.splits)
  with it have "e = None \<or> e = Some cur" by (auto elim!: opt_iter_cases)
  with le q 2(3) \<open>\<not> skip\<close> have "e = Some cur" "length out = length rest" by auto
  moreover have "out = rest" using 2(1)[OF it refl out] \<open>\<not> skip\<close> calculation by simp
  ultimately show ?case using q by simp
qed

lemma optimize_stable: "optimize p = Some q \<Longrightarrow> opt_pass q = Some q"
proof (induction p rule: optimize.induct)
  case (1 p)
  obtain ret where ret: "opt_pass p = Some ret"
    using 1(2) by (subst (asm) optimize.simps) (auto split: option.splits)
  show ?case
  proof (cases "length p - length ret = 0")
    case True
    then have "ret = p" using opt_pass_length[OF ret] by (intro opt_pass_same_length[OF ret]) simp
    moreover have "q = ret" using 1(2) ret True by (subst (asm) optimize.simps) simp
    ultimately show ?thesis using ret by simp
  next
    case False
    then have "optimize ret = Some q" using 1(2) ret by (subst (asm) optimize.simps) simp
    then show ?thesis by (rule 1(1)[OF ret False])
  qed
qed

section \<open>Safety and labels\<close>

text \<open>
  What the compiler guarantees of its output: a compare writes a real register, a label has a null
  second operand, and the last instruction is a label (the end of a function).
\<close>

definition opt_wf :: "program \<Rightarrow> bool" where
  "opt_wf p \<longleftrightarrow> (\<forall>i \<in> set p. (is_cmp (opc i) \<longrightarrow> r2 i \<noteq> null_op) \<and> (is_label i \<longrightarrow> r1 i = null_op))"

definition ends_in_label :: "program \<Rightarrow> bool" where
  "ends_in_label p \<longleftrightarrow> p \<noteq> [] \<and> is_label (last p)"

lemma jump_immediate_kind: "jump_immediate c = Some d \<Longrightarrow> \<not> is_cmp d \<and> d \<noteq> LABEL \<and> c \<noteq> LABEL"
  by (auto simp: jump_immediate_def is_cmp_cases split: if_splits)

lemma fuse_jump_kind: "\<not> is_cmp (fuse_jump c neg) \<and> fuse_jump c neg \<noteq> LABEL"
  by (auto simp: fuse_jump_def is_cmp_cases)

lemma opt_iter_label: "is_label cur \<Longrightarrow> opt_iter cur nxt = Some (Some cur, False)"
  by (simp add: opt_iter_def is_label_def is_cmp_cases)

lemma opt_iter_wf:
  assumes "opt_iter cur nxt = Some (e, skip)" "opt_wf [cur]" "\<And>n. nxt = Some n \<Longrightarrow> opt_wf [n]"
  shows "(case e of None \<Rightarrow> \<not> is_label cur | Some i \<Rightarrow> opt_wf [i] \<and> is_label i = is_label cur \<and>
      (is_label cur \<longrightarrow> i = cur)) \<and> (skip \<longrightarrow> (\<exists>n. nxt = Some n \<and> \<not> is_label n))"
  using assms(1)
proof (cases rule: opt_iter_cases)
  case (imm n c)
  then show ?thesis using jump_immediate_kind[of "opc n" c] by (auto simp: opt_wf_def is_label_def)
next
  case (swallow n)
  then show ?thesis using assms(2) assms(3)[of n] by (auto simp: opt_wf_def is_label_def)
next
  case (fuse n)
  then show ?thesis using fuse_jump_kind assms(2)
    by (auto simp: opt_wf_def is_label_def is_cmp_cases)
qed (use assms(2) in \<open>auto simp: opt_wf_def is_label_def\<close>)

lemma if_not_None: "x \<noteq> None \<Longrightarrow> y \<noteq> None \<Longrightarrow> (if b then x else y) \<noteq> None"
  by simp

lemma case_not_None:
  "y \<noteq> None \<Longrightarrow> (\<And>x. f x \<noteq> None) \<Longrightarrow> (case m of None \<Rightarrow> y | Some x \<Rightarrow> f x) \<noteq> None"
  by (cases m) simp_all

lemma opt_iter_defined: "opt_iter cur (Some n) \<noteq> None"
  unfolding opt_iter_def option.case by (intro if_not_None case_not_None option.distinct(2))

lemma opt_wf_Cons: "opt_wf (x # xs) \<longleftrightarrow> opt_wf [x] \<and> opt_wf xs"
  by (auto simp: opt_wf_def)

lemma opt_pass_safe:
  "opt_wf p \<Longrightarrow> ends_in_label p \<Longrightarrow>
   \<exists>q. opt_pass p = Some q \<and> opt_wf q \<and> ends_in_label q \<and> filter is_label q = filter is_label p"
proof (induction p rule: opt_pass.induct)
  case 1
  then show ?case by (simp add: ends_in_label_def)
next
  case (2 cur rest)
  show ?case
  proof (cases rest)
    case Nil
    with 2(3) have l: "is_label cur" by (simp add: ends_in_label_def)
    then show ?thesis using Nil 2(2)
      by (auto simp: opt_iter_label head_opt_def ends_in_label_def)
  next
    case (Cons n rest')
    then obtain e skip where it: "opt_iter cur (head_opt rest) = Some (e, skip)"
      using opt_iter_defined[of cur n] by (auto simp: head_opt_def)
    have wf: "opt_wf [cur]" "opt_wf [n]" "opt_wf rest'"
      using 2(2) Cons opt_wf_Cons[of cur rest] opt_wf_Cons[of n rest'] by auto
    have st: "(case e of None \<Rightarrow> \<not> is_label cur | Some i \<Rightarrow> opt_wf [i] \<and> is_label i = is_label cur \<and>
        (is_label cur \<longrightarrow> i = cur)) \<and> (skip \<longrightarrow> \<not> is_label n)"
      using opt_iter_wf[OF it wf(1)] wf(2) Cons by (auto simp: head_opt_def)
    let ?r = "if skip then tl rest else rest"
    have sk: "?r \<noteq> []" "is_label (last ?r)"
      using 2(3) Cons st by (auto simp: ends_in_label_def split: if_splits)
    have "opt_wf ?r" using wf Cons opt_wf_Cons[of n rest'] by auto
    with sk 2(1)[OF it refl] obtain out where out: "opt_pass ?r = Some out" "opt_wf out"
      "ends_in_label out" "filter is_label out = filter is_label ?r"
      by (auto simp: ends_in_label_def)
    have f: "filter is_label ?r = filter is_label rest" using Cons st by auto
    define q where "q = (case e of None \<Rightarrow> out | Some i \<Rightarrow> i # out)"
    have "opt_pass (cur # rest) = Some q" using it out(1) by (simp add: q_def)
    moreover have "opt_wf q" using st out(2) opt_wf_Cons[of _ out]
      by (auto simp: q_def split: option.splits)
    moreover have "ends_in_label q" using out(3) by (auto simp: q_def ends_in_label_def split: option.splits)
    moreover have "filter is_label q = filter is_label (cur # rest)"
      using st f out(4) by (auto simp: q_def split: option.splits)
    ultimately show ?thesis by blast
  qed
qed

lemma optimize_safe:
  "opt_wf p \<Longrightarrow> ends_in_label p \<Longrightarrow>
   \<exists>q. optimize p = Some q \<and> opt_wf q \<and> ends_in_label q \<and> filter is_label q = filter is_label p \<and>
     length q \<le> length p"
proof (induction p rule: optimize.induct)
  case (1 p)
  then obtain ret where ret: "opt_pass p = Some ret" "opt_wf ret" "ends_in_label ret"
    "filter is_label ret = filter is_label p"
    using opt_pass_safe by blast
  have le: "length ret \<le> length p" using ret(1) by (rule opt_pass_length)
  show ?case
  proof (cases "length p - length ret = 0")
    case True
    then have "optimize p = Some ret" using ret(1) by (subst optimize.simps) simp
    then show ?thesis using ret le by simp
  next
    case False
    obtain q where q: "optimize ret = Some q" "opt_wf q" "ends_in_label q"
      "filter is_label q = filter is_label ret" "length q \<le> length ret"
      using 1(1)[OF ret(1) False ret(2,3)] by blast
    moreover have "optimize p = optimize ret" using ret(1) False by (subst optimize.simps) simp
    ultimately show ?thesis using ret(4) le by auto
  qed
qed

text \<open>
  The rule for a compare followed by a move of its result (the comment's \<open>mov $5 $10\<close>) tests
  only that the next instruction's \<open>r1\<close> is the compare's target, keeps that same target, and
  drops the next instruction, whatever it is.
\<close>

lemma opt_pass_swallows:
  assumes "is_cmp (opc c)" "r1 n = r2 c"
  shows "opt_pass (c # n # rest) = map_option ((#) c) (opt_pass rest)"
proof -
  have "opc c \<noteq> RETURN" "opc c \<noteq> MOV" "opc c \<noteq> MOV_NUMBER" using assms(1) by (auto simp: is_cmp_cases)
  moreover have "c\<lparr>r2 := r1 n\<rparr> = c" using assms(2) by simp
  ultimately have "opt_iter c (Some n) = Some (Some c, True)"
    using assms by (simp add: opt_iter_def)
  then show ?thesis by (simp add: head_opt_def)
qed

section \<open>Properties\<close>

text \<open>
  C20: on every program the compiler can hand it (compares write real registers, the last
  instruction is a label), the optimiser terminates without reading past the end of the
  instruction list, keeps every label in order, never grows the program, and its result is a
  fixed point of the pass.
\<close>

theorem optimizer_safe:
  assumes "opt_wf p" "ends_in_label p"
  shows "\<exists>q. optimize p = Some q \<and> opt_pass q = Some q \<and> filter is_label q = filter is_label p \<and>
    length q \<le> length p \<and> opt_wf q \<and> ends_in_label q"
  using optimize_safe[OF assms] optimize_stable by blast

theorem optimizer_safe_witness:
  "\<exists>q. optimize [instruction_new CMP_LESS (Num 1) (Num 2) (Num 3),
        instruction_new JMP_TRUE (Num 3) (Str ''l'') null_op,
        instruction_new LABEL (Str ''l'') null_op null_op] = Some q \<and>
     filter is_label q = [instruction_new LABEL (Str ''l'') null_op null_op]"
  using optimizer_safe[of "[instruction_new CMP_LESS (Num 1) (Num 2) (Num 3),
        instruction_new JMP_TRUE (Num 3) (Str ''l'') null_op,
        instruction_new LABEL (Str ''l'') null_op null_op]"]
  by (auto simp: opt_wf_def ends_in_label_def is_label_def is_cmp_cases)

text \<open>
  C30: the rule for a compare whose result the next instruction reads as \<open>r1\<close> drops that
  instruction whatever it does; an addition that uses a comparison as its right operand
  disappears from the program.
\<close>

theorem optimizer_drops_use_of_compare:
  assumes "is_cmp c"
  shows "opt_pass (instruction_new c a b t # instruction_new ADD x t y # rest) =
    map_option ((#) (instruction_new c a b t)) (opt_pass rest)"
  using assms by (intro opt_pass_swallows) simp_all

theorem optimizer_drops_use_of_compare_witness:
  "optimize [instruction_new CMP_EQUAL (Num 3) (Num 4) (Num 6), instruction_new ADD (Num 5) (Num 6) (Num 7),
      instruction_new LABEL (Str ''end'') null_op null_op] =
    Some [instruction_new CMP_EQUAL (Num 3) (Num 4) (Num 6), instruction_new LABEL (Str ''end'') null_op null_op]"
proof -
  let ?c = "instruction_new CMP_EQUAL (Num 3) (Num 4) (Num 6)" and
    ?l = "instruction_new LABEL (Str ''end'') null_op null_op"
  have cmp: "is_cmp CMP_EQUAL" by (simp add: is_cmp_cases)
  have l: "opt_pass [?l] = Some [?l]"
    using opt_iter_label[of ?l] by (simp add: is_label_def head_opt_def)
  have 1: "opt_pass [?c, instruction_new ADD (Num 5) (Num 6) (Num 7), ?l] = Some [?c, ?l]"
    using optimizer_drops_use_of_compare[OF cmp] l by simp
  have 2: "opt_pass [?c, ?l] = Some [?c, ?l]"
    using l by (simp add: head_opt_def opt_iter_def is_cmp_cases)
  show ?thesis using 1 2 by (subst optimize.simps, simp) (subst optimize.simps, simp)
qed

end
