(* ===== verification/Ast.thy ===== *)
theory Ast
  imports Prelude
begin

text \<open>
  src/src/compiler/ast: the abstract syntax the compiler works on. A node's \<open>kind\<close> tag and
  dynamic type are the constructor; a \<open>Body\<close> is its statement list. Every function carries a
  number for the identity of its C++ object, which owns one set of register tables.
\<close>

section \<open>Expressions\<close>

datatype ttype = TYPE_IDENTIFIER | TYPE_NUMBER | TYPE_STRING

datatype expr =
    Terminal ttype string
  | Binary string expr expr
  | Prefix string expr
  | Postfix string expr
  | Method_call expr "expr list"
  | Empty_expr

text \<open>The factories of TerminalExpression; \<open>string\<close> strips the quotes.\<close>

definition terminal_identifier :: "string \<Rightarrow> expr" where
  "terminal_identifier d = Terminal TYPE_IDENTIFIER d"

definition terminal_number :: "string \<Rightarrow> expr" where
  "terminal_number d = Terminal TYPE_NUMBER d"

definition stringWithoutTrim :: "string \<Rightarrow> expr" where
  "stringWithoutTrim d = Terminal TYPE_STRING d"

definition terminal_string :: "string \<Rightarrow> expr" where
  "terminal_string d = Terminal TYPE_STRING (butlast (tl d))"

section \<open>Statements and functions\<close>

datatype stmt = Statement (hasReturn: bool) (hasBreak: bool) (hasContinue: bool) (stmt_node: ast)
  and ast =
    Expr_node expr
  | Body_node "stmt list"
  | Function_node func
  | Loop_node "expr option" "expr option" "expr option" "stmt list"
  | Var_node string expr bool bool bool
  | Conditional_node expr "stmt list" "stmt list option"
  | Try_node "stmt list" "stmt list" "stmt list option" string
  and func = Func (fn_id: nat) (fn_name: string) (fn_args: "string list") (fn_body: "stmt list")
      (fn_static: bool) (fn_async: bool) (fn_private: bool)

text \<open>
  \<open>Loop_node\<close> holds the start, iteration and condition expressions and the body;
  \<open>Var_node\<close> the identifier, the value and the flags static, private, synchronized;
  \<open>Try_node\<close> the try, catch and finally bodies and the catch identifier.
\<close>

abbreviation plain_stmt :: "ast \<Rightarrow> stmt" where
  "plain_stmt \<equiv> Statement False False False"

record class_decl =
  cls_id :: nat
  cls_name :: string
  cls_args :: "string list"
  cls_body :: "stmt list"
  importsMap :: "(string \<times> string) list"

text \<open>\<open>importsMap\<close> lists the \<open>std::map\<close>'s entries in the order it iterates them.\<close>

end
