(* ===== verification/FunctionKind.thy ===== *)
theory FunctionKind
  imports Prelude "HOL-Library.AList"
begin

text \<open>
  src/src/compiler/ast/FunctionKind.cpp: what the compiler keeps per function or class: the symbol
  table (names to local registers), the private names, the table of temporary registers with a
  free mark each, and the functions still to compile. The \<open>std::map\<close>s are association
  lists; \<open>insert\<close> does not overwrite.
\<close>

section \<open>State and operations\<close>

record 'f fkind =
  symbolTable :: "(string \<times> nat) list"
  privatesTable :: "(string \<times> nat) list"
  registerTable :: "(nat \<times> bool) list"
  functionsToCompile :: "'f list"

definition fkind_new :: "'f fkind" where
  "fkind_new = \<lparr>symbolTable = [], privatesTable = [], registerTable = [], functionsToCompile = []\<rparr>"

definition std_insert :: "'k \<Rightarrow> 'v \<Rightarrow> ('k \<times> 'v) list \<Rightarrow> ('k \<times> 'v) list" where
  "std_insert k v t = (if map_of t k = None then t @ [(k, v)] else t)"

definition freeRegister :: "nat \<Rightarrow> 'f fkind \<Rightarrow> 'f fkind" where
  "freeRegister index fk =
     (if index > length (symbolTable fk)
      then (case map_of (registerTable fk) index of
              None \<Rightarrow> fk
            | Some _ \<Rightarrow> fk\<lparr>registerTable := AList.update index True (registerTable fk)\<rparr>)
      else fk)"

text \<open>
  The search for a free temporary: \<open>n\<close> indices from \<open>i\<close> on; \<open>at\<close> throws
  \<open>std::out_of_range\<close> on an index that is not in the table.
\<close>

fun scan_free :: "(nat \<times> bool) list \<Rightarrow> nat \<Rightarrow> nat \<Rightarrow> fault + nat option" where
  "scan_free rt i 0 = Inr None"
| "scan_free rt i (Suc n) =
     (case map_of rt i of
        None \<Rightarrow> Inl Out_Of_Bounds
      | Some free \<Rightarrow> if free then Inr (Some i) else scan_free rt (Suc i) n)"

text \<open>\<open>getRegister(NULL)\<close> and \<open>getRegister(ident)\<close>; the latter is 0 for an unknown name.\<close>

definition getTemporary :: "'f fkind \<Rightarrow> fault + (nat \<times> 'f fkind)" where
  "getTemporary fk =
     ebind (scan_free (registerTable fk) (length (symbolTable fk) + 1) (length (registerTable fk)))
       (\<lambda>found. case found of
          Some index \<Rightarrow> Inr (index, fk\<lparr>registerTable := AList.update index False (registerTable fk)\<rparr>)
        | None \<Rightarrow>
            (let nextReg = length (registerTable fk) + length (symbolTable fk) + 1
             in Inr (nextReg, fk\<lparr>registerTable := AList.update nextReg False (registerTable fk)\<rparr>)))"

definition lookupRegister :: "string \<Rightarrow> 'f fkind \<Rightarrow> nat" where
  "lookupRegister ident fk = (case map_of (symbolTable fk) ident of None \<Rightarrow> 0 | Some r \<Rightarrow> r)"

section \<open>The allocator's invariant\<close>

text \<open>Temporaries are numbered without gaps from the first number after the symbols.\<close>

definition fk_nsyms :: "'f fkind \<Rightarrow> nat" where
  "fk_nsyms fk = length (symbolTable fk)"

definition fk_top :: "'f fkind \<Rightarrow> nat" where
  "fk_top fk = length (symbolTable fk) + length (registerTable fk)"

definition fk_used :: "'f fkind \<Rightarrow> nat set" where
  "fk_used fk = {r. map_of (registerTable fk) r = Some False}"

definition fk_wf :: "'f fkind \<Rightarrow> bool" where
  "fk_wf fk \<longleftrightarrow> distinct (map fst (registerTable fk)) \<and>
     fst ` set (registerTable fk) = {fk_nsyms fk <.. fk_top fk}"

lemma fk_wf_new: "fk_wf fkind_new"
  by (simp add: fk_wf_def fkind_new_def fk_nsyms_def fk_top_def)

lemma fk_wf_dom: "fk_wf fk \<Longrightarrow> map_of (registerTable fk) r \<noteq> None \<longleftrightarrow> fk_nsyms fk < r \<and> r \<le> fk_top fk"
  by (auto simp: fk_wf_def map_of_eq_None_iff)

lemma fk_used_range: "fk_wf fk \<Longrightarrow> fk_used fk \<subseteq> {fk_nsyms fk <.. fk_top fk}"
  using fk_wf_dom[of fk] by (fastforce simp: fk_used_def)

text \<open>The scan finds the least free register, or there is none.\<close>

lemma scan_free_spec:
  assumes "\<And>j. i \<le> j \<Longrightarrow> j < i + n \<Longrightarrow> map_of rt j \<noteq> None"
  shows "\<exists>res. scan_free rt i n = Inr res \<and>
    (case res of
       Some r \<Rightarrow> i \<le> r \<and> r < i + n \<and> map_of rt r = Some True \<and>
         (\<forall>j. i \<le> j \<longrightarrow> j < r \<longrightarrow> map_of rt j = Some False)
     | None \<Rightarrow> \<forall>j. i \<le> j \<longrightarrow> j < i + n \<longrightarrow> map_of rt j = Some False)"
  using assms
proof (induction n arbitrary: i)
  case 0
  then show ?case by simp
next
  case (Suc n)
  then obtain free where f: "map_of rt i = Some free" by (metis le_refl less_add_Suc1 not_None_eq add_Suc_right)
  show ?case
  proof (cases free)
    case True
    with f show ?thesis by auto
  next
    case False
    have "map_of rt j \<noteq> None" if "Suc i \<le> j" "j < Suc i + n" for j using Suc.prems[of j] that by simp
    from Suc.IH[OF this] obtain res where res: "scan_free rt (Suc i) n = Inr res"
      "case res of
         Some r \<Rightarrow> Suc i \<le> r \<and> r < Suc i + n \<and> map_of rt r = Some True \<and>
           (\<forall>j. Suc i \<le> j \<longrightarrow> j < r \<longrightarrow> map_of rt j = Some False)
       | None \<Rightarrow> \<forall>j. Suc i \<le> j \<longrightarrow> j < Suc i + n \<longrightarrow> map_of rt j = Some False"
      by blast
    have i: "map_of rt j = Some False" if "j = i" for j using that f False by simp
    show ?thesis using res f False i
      by (cases res) (auto simp: le_Suc_eq, metis Suc_leI le_neq_implies_less, metis Suc_leI le_neq_implies_less)
  qed
qed

text \<open>Setting the mark of a register that is, or becomes, part of the table.\<close>

definition rt_set :: "nat \<Rightarrow> bool \<Rightarrow> 'f fkind \<Rightarrow> 'f fkind" where
  "rt_set r b fk = fk\<lparr>registerTable := AList.update r b (registerTable fk)\<rparr>"

lemma rt_set_fields [simp]:
  "symbolTable (rt_set r b fk) = symbolTable fk" "privatesTable (rt_set r b fk) = privatesTable fk"
  "functionsToCompile (rt_set r b fk) = functionsToCompile fk" "fk_nsyms (rt_set r b fk) = fk_nsyms fk"
  by (simp_all add: rt_set_def fk_nsyms_def)

lemma rt_set_used: "fk_used (rt_set r b fk) = (if b then fk_used fk - {r} else insert r (fk_used fk))"
  by (auto simp: fk_used_def rt_set_def update_conv')

lemma rt_set_wf:
  assumes wf: "fk_wf fk" and r: "fk_nsyms fk < r" "r \<le> Suc (fk_top fk)"
  shows "fk_wf (rt_set r b fk)" "fk_top (rt_set r b fk) = max (fk_top fk) r"
proof -
  let ?rt = "registerTable fk"
  have k: "map fst (AList.update r b ?rt) =
      (if r \<in> set (map fst ?rt) then map fst ?rt else map fst ?rt @ [r])"
    by (rule update_keys)
  have mem: "r \<in> set (map fst ?rt) \<longleftrightarrow> r \<le> fk_top fk"
    using wf r by (auto simp: fk_wf_def)
  have "length (AList.update r b ?rt) = length (map fst (AList.update r b ?rt))" by simp
  also have "\<dots> = (if r \<le> fk_top fk then length ?rt else Suc (length ?rt))"
    unfolding k mem by simp
  finally have len: "length (AList.update r b ?rt) = (if r \<le> fk_top fk then length ?rt else Suc (length ?rt))" .
  then show top: "fk_top (rt_set r b fk) = max (fk_top fk) r"
    using r by (auto simp: fk_top_def rt_set_def max_def)
  have ks: "set (map fst (AList.update r b ?rt)) = insert r (set (map fst ?rt))" unfolding k by auto
  have "set (map fst (AList.update r b ?rt)) = {fk_nsyms fk <.. max (fk_top fk) r}"
    unfolding ks using wf r by (auto simp: fk_wf_def max_def)
  moreover have "distinct (map fst (AList.update r b ?rt))"
    using wf by (simp add: fk_wf_def distinct_update)
  ultimately show "fk_wf (rt_set r b fk)" using top
    by (simp add: fk_wf_def) (simp add: rt_set_def)
qed

lemma getTemporary_spec:
  assumes wf: "fk_wf fk"
  shows "\<exists>r. getTemporary fk = Inr (r, rt_set r False fk) \<and> fk_nsyms fk < r \<and> r \<le> Suc (fk_top fk) \<and>
    r \<notin> fk_used fk \<and> (\<forall>j. fk_nsyms fk < j \<longrightarrow> j < r \<longrightarrow> j \<in> fk_used fk)"
proof -
  let ?rt = "registerTable fk" and ?i = "length (symbolTable fk) + 1"
  have dom: "map_of ?rt j \<noteq> None" if "?i \<le> j" "j < ?i + length ?rt" for j
    using fk_wf_dom[OF wf, of j] that by (simp add: fk_nsyms_def fk_top_def)
  from scan_free_spec[of ?i "length ?rt" ?rt, OF dom] obtain res where
    res: "scan_free ?rt ?i (length ?rt) = Inr res" and
    c: "case res of
       Some r \<Rightarrow> ?i \<le> r \<and> r < ?i + length ?rt \<and> map_of ?rt r = Some True \<and>
         (\<forall>j. ?i \<le> j \<longrightarrow> j < r \<longrightarrow> map_of ?rt j = Some False)
     | None \<Rightarrow> \<forall>j. ?i \<le> j \<longrightarrow> j < ?i + length ?rt \<longrightarrow> map_of ?rt j = Some False"
    by blast
  show ?thesis
  proof (cases res)
    case (Some r)
    with res c show ?thesis
      by (intro exI[of _ r]) (auto simp: getTemporary_def rt_set_def fk_nsyms_def fk_top_def fk_used_def)
  next
    case None
    let ?r = "length ?rt + length (symbolTable fk) + 1"
    have "map_of ?rt ?r = None" using fk_wf_dom[OF wf, of ?r] by (auto simp: fk_top_def)
    with None res c show ?thesis
      by (intro exI[of _ ?r]) (auto simp: getTemporary_def rt_set_def fk_nsyms_def fk_top_def fk_used_def)
  qed
qed

lemma freeRegister_rt:
  assumes "fk_wf fk"
  shows "freeRegister r fk = (if fk_nsyms fk < r \<and> r \<le> fk_top fk then rt_set r True fk else fk)"
  using fk_wf_dom[OF assms, of r]
  by (auto simp: freeRegister_def rt_set_def fk_nsyms_def split: option.splits)

lemma scan_free_ge: "scan_free rt i n = Inr (Some r) \<Longrightarrow> i \<le> r"
  by (induction n arbitrary: i) (auto split: option.splits if_splits dest: Suc_leD)

lemma getTemporary_pos: "getTemporary fk = Inr (r, fk') \<Longrightarrow> 0 < r"
  by (auto simp: getTemporary_def ebind_Inr_iff Let_def dest!: scan_free_ge split: option.splits)

section \<open>The contract the compiler relies on\<close>

text \<open>
  A register allocator: temporaries lie above the base (the symbols), below the top (the size of
  the frame), and a register handed out is not in use.
\<close>

locale reg_alloc =
  fixes inv :: "'s \<Rightarrow> bool"
    and base :: "'s \<Rightarrow> nat"
    and limit :: "'s \<Rightarrow> nat"
    and used :: "'s \<Rightarrow> nat set"
    and alloc :: "'s \<Rightarrow> fault + (nat \<times> 's)"
    and free :: "nat \<Rightarrow> 's \<Rightarrow> 's"
  assumes alloc_law: "inv s \<Longrightarrow> \<exists>r s'. alloc s = Inr (r, s') \<and> inv s' \<and> r \<notin> used s \<and> base s < r \<and>
      r \<le> limit s' \<and> used s' = insert r (used s) \<and> base s' = base s \<and> limit s \<le> limit s'"
    and free_law: "inv s \<Longrightarrow> inv (free r s) \<and> used (free r s) = used s - {r} \<and>
      base (free r s) = base s \<and> limit (free r s) = limit s"
    and used_law: "inv s \<Longrightarrow> used s \<subseteq> {base s <.. limit s}"
begin

text \<open>Allocating again and again, freeing nothing, gives different registers.\<close>

primrec alloc_n :: "nat \<Rightarrow> 's \<Rightarrow> fault + (nat list \<times> 's)" where
  "alloc_n 0 s = Inr ([], s)"
| "alloc_n (Suc n) s = ebind (alloc s) (\<lambda>(r, s1). ebind (alloc_n n s1) (\<lambda>(rs, s2). Inr (r # rs, s2)))"

lemma alloc_n_distinct:
  "inv s \<Longrightarrow> \<exists>rs s'. alloc_n n s = Inr (rs, s') \<and> inv s' \<and> length rs = n \<and> distinct rs \<and>
     set rs \<inter> used s = {} \<and> used s' = used s \<union> set rs \<and> set rs \<subseteq> {base s <.. limit s'} \<and>
     base s' = base s \<and> limit s \<le> limit s'"
proof (induction n arbitrary: s)
  case 0
  then show ?case by simp
next
  case (Suc n)
  then obtain r s1 where a: "alloc s = Inr (r, s1)" "inv s1" "r \<notin> used s" "base s < r"
    "r \<le> limit s1" "used s1 = insert r (used s)" "base s1 = base s" "limit s \<le> limit s1"
    using alloc_law[of s] by auto
  from Suc.IH[OF a(2)] obtain rs s2 where b: "alloc_n n s1 = Inr (rs, s2)" "inv s2" "length rs = n"
    "distinct rs" "set rs \<inter> used s1 = {}" "used s2 = used s1 \<union> set rs"
    "set rs \<subseteq> {base s1 <.. limit s2}" "base s2 = base s1" "limit s1 \<le> limit s2" by blast
  have "alloc_n (Suc n) s = Inr (r # rs, s2)" using a(1) b(1) by simp
  then show ?case using a b by auto
qed

lemma free_then_used: "inv s \<Longrightarrow> r \<notin> used (free r s)"
  using free_law by blast

text \<open>Freeing and reallocating never disturbs a register that stays in use.\<close>

lemma realloc_keeps:
  assumes "inv s" "q \<in> used s" "q \<noteq> r"
  shows "\<exists>x s'. alloc (free r s) = Inr (x, s') \<and> x \<noteq> q \<and> q \<in> used s'"
  using alloc_law[of "free r s"] free_law[OF assms(1), of r] assms(2,3) by auto

end

interpretation fk: reg_alloc fk_wf fk_nsyms fk_top fk_used getTemporary freeRegister
proof (unfold_locales, goal_cases)
  case (1 fk)
  then obtain r where r: "getTemporary fk = Inr (r, rt_set r False fk)" "fk_nsyms fk < r"
    "r \<le> Suc (fk_top fk)" "r \<notin> fk_used fk"
    using getTemporary_spec by blast
  with rt_set_wf[OF 1 r(2,3), of False] rt_set_used[of r False fk] show ?case by auto
next
  case (2 fk r)
  note f = freeRegister_rt[OF 2, of r]
  show ?case
  proof (cases "fk_nsyms fk < r \<and> r \<le> fk_top fk")
    case True
    with rt_set_wf[OF 2, of r True] rt_set_used[of r True fk] f show ?thesis by (simp add: max_def)
  next
    case False
    with fk_used_range[OF 2] have "r \<notin> fk_used fk" by auto
    moreover have "freeRegister r fk = fk" using False f by (simp only: if_False)
    ultimately show ?thesis using 2 by simp
  qed
next
  case (3 fk)
  then show ?case by (rule fk_used_range)
qed

section \<open>Properties\<close>

text \<open>
  C26: asking for any number of temporaries, nothing being freed, gives pairwise different
  registers that no symbol and no temporary in use occupies, all of them inside the frame the
  function's tables then describe.
\<close>

theorem temporaries_distinct:
  assumes "fk_wf s"
  shows "\<exists>rs s'. fk.alloc_n n s = Inr (rs, s') \<and> fk_wf s' \<and> length rs = n \<and> distinct rs \<and>
    set rs \<inter> fk_used s = {} \<and>
    (\<forall>r \<in> set rs. length (symbolTable s) < r \<and> r \<le> length (symbolTable s') + length (registerTable s'))"
  using fk.alloc_n_distinct[OF assms, of n] by (fastforce simp: fk_nsyms_def fk_top_def)

theorem temporaries_distinct_witness:
  "\<exists>rs s'. fk.alloc_n 3 (fkind_new :: nat fkind) = Inr (rs, s') \<and> distinct rs \<and> length rs = 3"
  using temporaries_distinct[OF fk_wf_new, of 3] by blast

end
