(* ===== verification/AddressCalculator.thy ===== *)
theory AddressCalculator
  imports Ast FunctionKind "HOL-Library.Sublist"
begin

text \<open>
  src/src/compiler/AddressCalculator.cpp: the pass that gives every name of a function or class a
  register. Its state is the stack of functions being visited and the tables of every function,
  found by the function's object number.
\<close>

section \<open>The pass\<close>

type_synonym tables = "nat \<Rightarrow> func fkind"

record addr_state =
  addr_stack :: "nat list"
  addr_tables :: tables

definition with_top :: "(func fkind \<Rightarrow> func fkind) \<Rightarrow> addr_state \<Rightarrow> addr_state" where
  "with_top f st = st\<lparr>addr_tables :=
     (addr_tables st)(hd (addr_stack st) := f (addr_tables st (hd (addr_stack st))))\<rparr>"

definition addToCurrentPrivatesMap :: "string \<Rightarrow> addr_state \<Rightarrow> addr_state" where
  "addToCurrentPrivatesMap ident =
     with_top (\<lambda>fk. fk\<lparr>privatesTable := std_insert ident 1 (privatesTable fk)\<rparr>)"

definition addToCurrentTable :: "string \<Rightarrow> addr_state \<Rightarrow> addr_state" where
  "addToCurrentTable ident =
     with_top (\<lambda>fk. fk\<lparr>symbolTable :=
       std_insert ident (length (symbolTable fk) + 1) (symbolTable fk)\<rparr>)"

definition push_function :: "nat \<Rightarrow> addr_state \<Rightarrow> addr_state" where
  "push_function i st = st\<lparr>addr_stack := i # addr_stack st\<rparr>"

definition pop_function :: "addr_state \<Rightarrow> addr_state" where
  "pop_function st = st\<lparr>addr_stack := tl (addr_stack st)\<rparr>"

definition calculateVar :: "string \<Rightarrow> bool \<Rightarrow> bool \<Rightarrow> bool \<Rightarrow> addr_state \<Rightarrow> addr_state" where
  "calculateVar ident is_static is_private is_sync st =
     (if is_static then st
      else let st1 = (if is_sync then st else addToCurrentTable ident st)
           in if is_private then addToCurrentPrivatesMap ident st1 else st1)"

text \<open>A try statement contributes its catch identifier only; its bodies are not visited.\<close>

fun calculateStatement :: "stmt \<Rightarrow> addr_state \<Rightarrow> addr_state"
  and calculateNode :: "ast \<Rightarrow> addr_state \<Rightarrow> addr_state"
  and calculateBody :: "stmt list \<Rightarrow> addr_state \<Rightarrow> addr_state"
  and calculateFunction :: "func \<Rightarrow> addr_state \<Rightarrow> addr_state" where
  "calculateStatement (Statement ret brk cont node) st = calculateNode node st"
| "calculateNode (Function_node f) st = calculateFunction f st"
| "calculateNode (Loop_node start iter cond body) st = calculateBody body st"
| "calculateNode (Body_node body) st = calculateBody body st"
| "calculateNode (Conditional_node c body None) st = calculateBody body st"
| "calculateNode (Conditional_node c body (Some elseBody)) st =
     calculateBody elseBody (calculateBody body st)"
| "calculateNode (Var_node ident v is_static is_private is_sync) st =
     calculateVar ident is_static is_private is_sync st"
| "calculateNode (Try_node tryBody catchBody finallyBody catchIdent) st =
     addToCurrentTable catchIdent st"
| "calculateNode (Expr_node e) st = st"
| "calculateBody [] st = st"
| "calculateBody (s # ss) st = calculateBody ss (calculateStatement s st)"
| "calculateFunction (Func i name args body is_static is_async is_private) st =
     (let st1 = addToCurrentTable name st;
          st2 = (if is_private then addToCurrentPrivatesMap name st1 else st1);
          st3 = addToCurrentTable name (addToCurrentTable ''this'' (push_function i st2));
          st4 = fold addToCurrentTable args st3
      in pop_function (calculateBody body st4))"

definition calculateClass :: "class_decl \<Rightarrow> addr_state \<Rightarrow> addr_state" where
  "calculateClass cls st =
     (let st1 = addToCurrentTable ''this'' (push_function (cls_id cls) st);
          st2 = fold addToCurrentTable (cls_args cls) st1
      in calculateBody (cls_body cls) st2)"

definition addr_init :: addr_state where
  "addr_init = \<lparr>addr_stack = [], addr_tables = (\<lambda>_. fkind_new)\<rparr>"

section \<open>Symbol tables number their names 1, 2, 3, ...\<close>

definition symtab_ok :: "(string \<times> nat) list \<Rightarrow> bool" where
  "symtab_ok t \<longleftrightarrow> distinct (map fst t) \<and> map snd t = [1..<length t + 1]"

lemma symtab_ok_Nil: "symtab_ok []"
  by (simp add: symtab_ok_def)

lemma std_insert_new: "k \<notin> fst ` set t \<Longrightarrow> std_insert k v t = t @ [(k, v)]"
  by (simp add: std_insert_def map_of_eq_None_iff)

lemma std_insert_old: "k \<in> fst ` set t \<Longrightarrow> std_insert k v t = t"
  by (simp add: std_insert_def map_of_eq_None_iff)

lemma symtab_ok_insert:
  assumes "symtab_ok t"
  shows "symtab_ok (std_insert k (length t + 1) t)"
proof (cases "k \<in> fst ` set t")
  case True
  with assms show ?thesis by (simp add: std_insert_old)
next
  case False
  with assms show ?thesis by (auto simp: std_insert_new symtab_ok_def)
qed

lemma prefix_std_insert: "prefix t (std_insert k v t)"
  by (simp add: std_insert_def)

lemma symtab_ok_lookup: "symtab_ok t \<Longrightarrow> i < length t \<Longrightarrow> map_of t (fst (t ! i)) = Some (i + 1)"
proof -
  assume ok: "symtab_ok t" and i: "i < length t"
  then have "snd (t ! i) = map snd t ! i" by simp
  also have "\<dots> = i + 1" using ok i by (simp add: symtab_ok_def del: upt_Suc)
  finally have "t ! i = (fst (t ! i), i + 1)" by (metis prod.collapse)
  then have "(fst (t ! i), i + 1) \<in> set t" using i by (metis nth_mem)
  then show ?thesis using ok by (simp add: symtab_ok_def)
qed

text \<open>
  How one step of the pass may change the state: the stack is restored, every symbol table only
  grows at its end and keeps its numbering, and nothing is compiled yet.
\<close>

definition grows :: "addr_state \<Rightarrow> addr_state \<Rightarrow> bool" where
  "grows st st' \<longleftrightarrow> addr_stack st' = addr_stack st \<and>
     (\<forall>i. prefix (symbolTable (addr_tables st i)) (symbolTable (addr_tables st' i)) \<and>
        (symtab_ok (symbolTable (addr_tables st i)) \<longrightarrow> symtab_ok (symbolTable (addr_tables st' i))) \<and>
        registerTable (addr_tables st' i) = registerTable (addr_tables st i) \<and>
        functionsToCompile (addr_tables st' i) = functionsToCompile (addr_tables st i))"

lemma grows_refl [simp]: "grows st st"
  by (simp add: grows_def)

lemma grows_trans: "grows a b \<Longrightarrow> grows b c \<Longrightarrow> grows a c"
  unfolding grows_def using prefix_order.trans by metis

lemma grows_addToCurrentTable: "grows st (addToCurrentTable x st)"
  by (auto simp: grows_def addToCurrentTable_def with_top_def prefix_std_insert symtab_ok_insert[simplified])

lemma grows_addToCurrentPrivatesMap: "grows st (addToCurrentPrivatesMap x st)"
  by (auto simp: grows_def addToCurrentPrivatesMap_def with_top_def)

lemma grows_fold_addToCurrentTable: "grows st (fold addToCurrentTable xs st)"
  by (induction xs arbitrary: st) (auto intro: grows_trans grows_addToCurrentTable)

lemma grows_calculateVar: "grows st (calculateVar x a b c st)"
  by (auto simp: calculateVar_def Let_def
      intro: grows_trans grows_addToCurrentTable grows_addToCurrentPrivatesMap)

lemma grows_bracket:
  assumes "grows (push_function i st) st'"
  shows "grows st (pop_function st')"
  using assms by (simp add: grows_def push_function_def pop_function_def)

lemma grows_calculate:
  "grows st (calculateStatement s st)"
  "grows st (calculateNode n st)"
  "grows st (calculateBody b st)"
  "grows st (calculateFunction f st)"
proof (induction s st and n st and b st and f st
    rule: calculateStatement_calculateNode_calculateBody_calculateFunction.induct)
  case (11 s ss st)
  then show ?case by (auto intro: grows_trans)
next
  case (12 i name args body is_static is_async is_private st)
  let ?st1 = "addToCurrentTable name st"
  let ?st2 = "if is_private then addToCurrentPrivatesMap name ?st1 else ?st1"
  let ?st4 = "fold addToCurrentTable args
      (addToCurrentTable name (addToCurrentTable ''this'' (push_function i ?st2)))"
  have "grows st ?st2"
    by (auto intro: grows_trans grows_addToCurrentTable grows_addToCurrentPrivatesMap)
  moreover have "grows (push_function i ?st2) (calculateBody body ?st4)"
    using 12[OF refl refl refl refl]
    by (blast intro: grows_trans grows_addToCurrentTable grows_fold_addToCurrentTable)
  then have "grows ?st2 (pop_function (calculateBody body ?st4))" by (rule grows_bracket)
  ultimately show ?case by (auto simp: Let_def intro: grows_trans)
qed (auto intro: grows_trans grows_calculateVar grows_addToCurrentTable)

section \<open>Which register a name gets\<close>

definition symbols_of :: "nat \<Rightarrow> addr_state \<Rightarrow> (string \<times> nat) list" where
  "symbols_of i st = symbolTable (addr_tables st i)"

lemma grows_symbols:
  assumes "grows st st'"
  shows "prefix (symbols_of i st) (symbols_of i st')"
    "symtab_ok (symbols_of i st) \<Longrightarrow> symtab_ok (symbols_of i st')"
  using assms by (auto simp: grows_def symbols_of_def)

lemma prefix_names: "prefix s t \<Longrightarrow> prefix (map fst s) (map fst t)"
  by (auto simp: prefix_def)

lemma symtab_position:
  assumes ok: "symtab_ok t" and p: "prefix ks (map fst t)" and j: "j < length ks"
  shows "map_of t (ks ! j) = Some (j + 1)"
proof -
  from p obtain zs where zs: "map fst t = ks @ zs" by (auto simp: prefix_def)
  then have l: "j < length t" using j by (metis length_append length_map trans_less_add1)
  have "fst (t ! j) = ks ! j" using zs j l by (metis nth_append nth_map)
  with symtab_ok_lookup[OF ok l] show ?thesis by simp
qed

text \<open>Declaring new names in order appends them in order to the table on top of the stack.\<close>

lemma addToCurrentTable_new:
  assumes "addr_stack st = i # s" "x \<notin> fst ` set (symbols_of i st)"
  shows "map fst (symbols_of i (addToCurrentTable x st)) = map fst (symbols_of i st) @ [x]"
    "addr_stack (addToCurrentTable x st) = i # s"
  using assms by (simp_all add: addToCurrentTable_def with_top_def symbols_of_def std_insert_new)

lemma fold_addToCurrentTable_new:
  "addr_stack st = i # s \<Longrightarrow> distinct (map fst (symbols_of i st) @ xs) \<Longrightarrow>
   map fst (symbols_of i (fold addToCurrentTable xs st)) = map fst (symbols_of i st) @ xs"
proof (induction xs arbitrary: st)
  case Nil
  then show ?case by simp
next
  case (Cons x xs)
  then have n: "x \<notin> fst ` set (symbols_of i st)" by auto
  note a = addToCurrentTable_new[OF Cons.prems(1) n]
  have "distinct (map fst (symbols_of i (addToCurrentTable x st)) @ xs)"
    unfolding a(1) using Cons.prems(2) by auto
  from Cons.IH[OF a(2) this] show ?case by (simp add: a(1))
qed

lemma symtab_ok_fold:
  "symtab_ok (symbols_of i st) \<Longrightarrow> symtab_ok (symbols_of i (fold addToCurrentTable xs st))"
  by (rule grows_symbols(2)[OF grows_fold_addToCurrentTable])

section \<open>Properties\<close>

text \<open>
  C24: in a function whose parameters, own name and \<open>this\<close> are different names, \<open>this\<close>
  gets register 1, the function register 2 and the j-th parameter register 3 + j, whatever the
  body declares (the places where \<open>CALL\<close> and \<open>FFRAME\<close> of the interpreter put them),
  and all names of the function have different registers.
\<close>

theorem function_registers:
  assumes fresh: "symbols_of i st = []" "i \<noteq> hd (addr_stack st)"
    and dist: "distinct (''this'' # name # args)"
  shows "let t = symbols_of i (calculateFunction (Func i name args body is_static is_async is_private) st)
    in map_of t ''this'' = Some 1 \<and> map_of t name = Some 2 \<and>
       (\<forall>j < length args. map_of t (args ! j) = Some (3 + j)) \<and>
       distinct (map fst t) \<and> map snd t = [1..<length t + 1]"
proof -
  define st2 where "st2 = (if is_private then addToCurrentPrivatesMap name (addToCurrentTable name st)
    else addToCurrentTable name st)"
  define st3 where "st3 = push_function i st2"
  define st4 where "st4 = fold addToCurrentTable (''this'' # name # args) st3"
  define st5 where "st5 = calculateBody body st4"
  define t where "t = symbols_of i st5"
  have f: "symbols_of i (calculateFunction (Func i name args body is_static is_async is_private) st) = t"
    by (simp add: t_def st5_def st4_def st3_def st2_def symbols_of_def pop_function_def Let_def)
  have e: "symbols_of i st3 = []" "addr_stack st3 = i # addr_stack st2"
    using fresh by (simp_all add: st3_def st2_def push_function_def symbols_of_def
        addToCurrentPrivatesMap_def addToCurrentTable_def with_top_def)
  have n4: "map fst (symbols_of i st4) = ''this'' # name # args"
    unfolding st4_def using fold_addToCurrentTable_new[OF e(2), unfolded e(1) list.map append_Nil, OF dist] .
  have ok4: "symtab_ok (symbols_of i st4)"
    unfolding st4_def by (rule symtab_ok_fold) (simp add: e(1) symtab_ok_Nil)
  note g = grows_symbols[OF grows_calculate(3)[of st4 body], of i, folded st5_def t_def]
  have ok: "symtab_ok t" by (rule g(2)[OF ok4])
  have p: "prefix (''this'' # name # args) (map fst t)"
    using prefix_names[OF g(1)] by (simp add: n4)
  have "map_of t ''this'' = Some 1" "map_of t name = Some 2"
    using symtab_position[OF ok p, of 0] symtab_position[OF ok p, of 1] by simp_all
  moreover have "map_of t (args ! j) = Some (3 + j)" if "j < length args" for j
    using symtab_position[OF ok p, of "j + 2"] that by simp
  ultimately show ?thesis using ok unfolding f by (simp add: Let_def symtab_ok_def)
qed

theorem function_registers_witness:
  "map_of (symbols_of 7 (calculateFunction
      (Func 7 ''f'' [''a'', ''b''] [plain_stmt (Var_node ''x'' Empty_expr False False False)] False False False)
      (push_function 0 addr_init))) ''b'' = Some 4"
proof -
  let ?st = "push_function 0 addr_init" and ?args = "[''a'', ''b'']"
  have a: "symbols_of 7 ?st = []" "7 \<noteq> hd (addr_stack ?st)" "distinct (''this'' # ''f'' # ?args)"
    by (simp_all add: push_function_def addr_init_def symbols_of_def fkind_new_def)
  have j: "1 < length ?args" by simp
  have e: "?args ! 1 = ''b''" "3 + 1 = (4::nat)" by simp_all
  show ?thesis
    using function_registers[OF a, unfolded Let_def, THEN conjunct2, THEN conjunct2, THEN conjunct1,
        rule_format, OF j] unfolding e .
qed

text \<open>
  After the pass over a class, the symbol table of the class and of every function in it, at
  any depth, is a numbering: names are different and their registers are 1, 2, 3, and so on; the
  constructor's j-th parameter has register 2 + j.
\<close>

lemma class_registers:
  assumes "distinct (''this'' # cls_args cls)"
  shows "let st = calculateClass cls addr_init in
    (\<forall>i. distinct (map fst (symbols_of i st)) \<and> map snd (symbols_of i st) = [1..<length (symbols_of i st) + 1]) \<and>
    (\<forall>j < length (cls_args cls). map_of (symbols_of (cls_id cls) st) (cls_args cls ! j) = Some (2 + j))"
proof -
  let ?i = "cls_id cls"
  define st1 where "st1 = push_function ?i addr_init"
  define st2 where "st2 = fold addToCurrentTable (''this'' # cls_args cls) st1"
  define st where "st = calculateClass cls addr_init"
  have st: "st = calculateBody (cls_body cls) st2"
    by (simp add: st_def calculateClass_def st2_def st1_def Let_def)
  have e: "symbols_of i st1 = []" "addr_stack st1 = [?i]" for i
    by (simp_all add: st1_def push_function_def addr_init_def symbols_of_def fkind_new_def)
  have n2: "map fst (symbols_of ?i st2) = ''this'' # cls_args cls"
    unfolding st2_def using fold_addToCurrentTable_new[OF e(2), unfolded e(1) list.map append_Nil, OF assms] .
  have ok2: "symtab_ok (symbols_of i st2)" for i
    unfolding st2_def by (rule symtab_ok_fold) (simp add: e(1) symtab_ok_Nil)
  note g = grows_symbols[OF grows_calculate(3)[of st2 "cls_body cls"], folded st]
  have ok: "symtab_ok (symbols_of i st)" for i by (rule g(2)[OF ok2])
  have p: "prefix (''this'' # cls_args cls) (map fst (symbols_of ?i st))"
    using prefix_names[OF g(1)[of ?i]] by (simp add: n2)
  have "map_of (symbols_of ?i st) (cls_args cls ! j) = Some (2 + j)" if "j < length (cls_args cls)" for j
    using symtab_position[OF ok p, of "j + 1"] that by simp
  with ok show ?thesis by (simp add: st_def[symmetric] Let_def symtab_ok_def)
qed

lemma class_registers_witness:
  "map_of (symbols_of 0 (calculateClass \<lparr>cls_id = 0, cls_name = ''A'', cls_args = [''p'', ''q''],
      cls_body = [], importsMap = []\<rparr> addr_init)) ''q'' = Some 3"
proof -
  let ?c = "\<lparr>cls_id = 0, cls_name = ''A'', cls_args = [''p'', ''q''], cls_body = [], importsMap = []\<rparr>"
  have d: "distinct (''this'' # cls_args ?c)" by simp
  have j: "1 < length (cls_args ?c)" by simp
  have e: "cls_args ?c ! 1 = ''q''" "cls_id ?c = 0" "2 + 1 = (3::nat)" by simp_all
  show ?thesis
    using class_registers[OF d, unfolded Let_def, THEN conjunct2, rule_format, OF j] unfolding e .
qed

text \<open>
  A variable declared inside a try, catch or finally body, and nowhere else, gets no register:
  the pass registers the catch identifier only, and the compiler's lookup then answers 0.
\<close>

lemma try_body_variable_unregistered:
  assumes "y \<noteq> x" "y \<noteq> ''this''"
  shows "lookupRegister y (addr_tables (calculateClass \<lparr>cls_id = i, cls_name = c, cls_args = [],
      cls_body = [plain_stmt (Try_node [plain_stmt (Var_node y v False False False)] cb fb x)],
      importsMap = []\<rparr> addr_init) i) = 0"
  using assms
  by (simp add: calculateClass_def addToCurrentTable_def with_top_def push_function_def addr_init_def
      fkind_new_def lookupRegister_def std_insert_def Let_def)

lemma try_body_variable_unregistered_witness:
  "lookupRegister ''y'' (addr_tables (calculateClass \<lparr>cls_id = 0, cls_name = ''A'', cls_args = [],
      cls_body = [plain_stmt (Try_node [plain_stmt (Var_node ''y'' Empty_expr False False False)] [] None ''e'')],
      importsMap = []\<rparr> addr_init) 0) = 0"
  by (rule try_body_variable_unregistered) simp_all

end
