(* ===== verification/ExprCompiler.thy ===== *)
theory ExprCompiler
  imports Instr AddressCalculator
begin

text \<open>
  src/src/compiler/ExprssionCompiler.cpp: expressions to instructions. The state is the program
  being appended to and the register tables of the current function. A compile function returns
  the register that will hold the value; register 0 stands for no value. Where the C++ function
  runs off its end (an operator without an opcode) the model stops with \<open>Undefined_Value\<close>.
\<close>

section \<open>State\<close>

record cstate =
  code :: program
  frame :: "func fkind"

definition emit :: "opcode \<Rightarrow> operand \<Rightarrow> operand \<Rightarrow> operand \<Rightarrow> cstate \<Rightarrow> cstate" where
  "emit c a b d st = st\<lparr>code := snd (addInstruction c a b d (code st))\<rparr>"

definition new_temp :: "cstate \<Rightarrow> fault + (nat \<times> cstate)" where
  "new_temp st = ebind (getTemporary (frame st)) (\<lambda>(r, fk). Inr (r, st\<lparr>frame := fk\<rparr>))"

definition release :: "nat \<Rightarrow> cstate \<Rightarrow> cstate" where
  "release r st = st\<lparr>frame := freeRegister r (frame st)\<rparr>"

definition lookup :: "string \<Rightarrow> cstate \<Rightarrow> nat" where
  "lookup ident st = lookupRegister ident (frame st)"

text \<open>The requested destination register, or a new temporary when 0 is requested.\<close>

definition dest_or_temp :: "nat \<Rightarrow> cstate \<Rightarrow> fault + (nat \<times> cstate)" where
  "dest_or_temp dst st = (if dst = 0 then new_temp st else Inr (dst, st))"

section \<open>Operators and terminals\<close>

definition toOpcode :: "string \<Rightarrow> fault + opcode" where
  "toOpcode operation =
     (if operation = ''.'' then Inr GET_FIELD
      else if operation = ''+'' then Inr ADD
      else if operation = ''-'' then Inr SUB
      else if operation = ''*'' then Inr MUL
      else if operation = ''/'' then Inr DIV
      else if operation = ''<'' then Inr CMP_LESS
      else if operation = ''<='' then Inr CMP_LESS_OR_EQUAL
      else if operation = ''>'' then Inr CMP_GREATER
      else if operation = ''>='' then Inr CMP_GREATER_OR_EQUAL
      else if operation = ''++'' then Inr INC
      else if operation = ''--'' then Inr SUB
      else if operation = ''!='' then Inr CMP_N_EQUAL
      else if operation = ''=='' then Inr CMP_EQUAL
      else if operation = ''%'' then Inr MOD
      else if operation = ''throw'' then Inr THROW_EXCEPTION
      else Inl Undefined_Value)"

definition compileIdentifierImmediate :: "string \<Rightarrow> nat \<Rightarrow> cstate \<Rightarrow> fault + (nat \<times> cstate)" where
  "compileIdentifierImmediate ident dst st =
     (if lookup ident st = 0
      then ebind (dest_or_temp dst st) (\<lambda>(t, st1).
             Inr (t, emit GET_FIELD_IMMEDIATE (Num 1) (Str ident) (Num t) st1))
      else Inr (lookup ident st, st))"

text \<open>\<open>compileTerminal\<close> on a string, as \<open>compileIdentifier\<close> uses it.\<close>

definition compileString :: "string \<Rightarrow> nat \<Rightarrow> cstate \<Rightarrow> fault + (nat \<times> cstate)" where
  "compileString d dst st =
     ebind (dest_or_temp dst st) (\<lambda>(r, st1). Inr (r, emit MOV_STR (Num r) (Str d) null_op st1))"

definition compileIdentifier :: "string \<Rightarrow> nat \<Rightarrow> cstate \<Rightarrow> fault + (nat \<times> cstate)" where
  "compileIdentifier ident dst st =
     (if lookup ident st = 0
      then ebind (dest_or_temp dst st) (\<lambda>(t, st1).
           ebind (compileString ident 0 st1) (\<lambda>(s, st2).
             Inr (t, emit GET_FIELD (Num 1) (Num s) (Num t) st2)))
      else Inr (lookup ident st, st))"

text \<open>With a lookup object the identifier is compiled twice: the first result is not returned.\<close>

definition compileTerminal :: "ttype \<Rightarrow> string \<Rightarrow> nat \<Rightarrow> bool \<Rightarrow> cstate \<Rightarrow> fault + (nat \<times> cstate)" where
  "compileTerminal ty d dst has_lookup_object st =
     (case ty of
        TYPE_IDENTIFIER \<Rightarrow>
          ebind (if has_lookup_object then ebind (compileIdentifier d dst st) (\<lambda>(_, s). Inr s) else Inr st)
            (compileIdentifierImmediate d dst)
      | TYPE_NUMBER \<Rightarrow>
          ebind (dest_or_temp dst st) (\<lambda>(r, st1). Inr (r, emit MOV_NUMBER (Num r) (Str d) null_op st1))
      | TYPE_STRING \<Rightarrow> compileString d dst st)"

text \<open>
  After \<open>++\<close> and \<open>--\<close>: an identifier that is no local is stored back into
  \<open>this\<close> (register 1).
\<close>

definition write_back :: "expr \<Rightarrow> nat \<Rightarrow> cstate \<Rightarrow> fault + cstate" where
  "write_back e leftReg st =
     (case e of
        Terminal TYPE_IDENTIFIER ident \<Rightarrow>
          if lookup ident st = 0
          then ebind (new_temp st) (\<lambda>(t, st1).
                 Inr (release t (emit SET_FIELD (Num 1) (Num t) (Num leftReg)
                   (emit MOV_STR (Num t) (Str ident) null_op st1))))
          else Inr st
      | _ \<Rightarrow> Inr st)"

definition inc_dec :: "string \<Rightarrow> nat \<Rightarrow> nat \<Rightarrow> cstate \<Rightarrow> cstate" where
  "inc_dec op leftReg target st =
     (if op = ''++'' then emit INC (Num leftReg) (Num target) null_op st
      else if op = ''--'' then emit DEC (Num leftReg) (Num target) null_op st
      else st)"

section \<open>Expressions\<close>

function (sequential)
  compileExpression :: "nat \<Rightarrow> bool \<Rightarrow> expr \<Rightarrow> cstate \<Rightarrow> fault + (nat \<times> cstate)"
  and compilePostfix :: "string \<Rightarrow> expr \<Rightarrow> nat \<Rightarrow> cstate \<Rightarrow> fault + (nat \<times> cstate)"
  and compilePrefix :: "string \<Rightarrow> expr \<Rightarrow> nat \<Rightarrow> cstate \<Rightarrow> fault + (nat \<times> cstate)"
  and compileDotForSetField :: "expr \<Rightarrow> expr \<Rightarrow> nat \<Rightarrow> cstate \<Rightarrow> fault + cstate"
  and compileArgs :: "expr list \<Rightarrow> nat \<Rightarrow> cstate \<Rightarrow> fault + (nat \<times> cstate)"
  and compileMethodCall :: "expr \<Rightarrow> expr list \<Rightarrow> nat \<Rightarrow> cstate \<Rightarrow> fault + (nat \<times> cstate)"
  and compilePlainBinary :: "string \<Rightarrow> expr \<Rightarrow> expr \<Rightarrow> nat \<Rightarrow> cstate \<Rightarrow> fault + (nat \<times> cstate)"
  and compileBinary :: "string \<Rightarrow> expr \<Rightarrow> expr \<Rightarrow> nat \<Rightarrow> cstate \<Rightarrow> fault + (nat \<times> cstate)" where
  "compileExpression dst lk (Method_call callee args) st = compileMethodCall callee args dst st"
| "compileExpression dst lk (Binary op l r) st = compileBinary op l r dst st"
| "compileExpression dst lk (Postfix op e) st = compilePostfix op e dst st"
| "compileExpression dst lk (Prefix op e) st = compilePrefix op e dst st"
| "compileExpression dst lk (Terminal ty d) st = compileTerminal ty d dst lk st"
| "compileExpression dst lk Empty_expr st = Inr (0, st)"
| "compilePostfix op e dst st =
     ebind (compileExpression 0 False e st) (\<lambda>(leftReg, st1).
     ebind (dest_or_temp dst st1) (\<lambda>(target, st2).
     ebind (write_back e leftReg
             (inc_dec op leftReg leftReg (emit MOV (Num target) (Num leftReg) null_op st2))) (\<lambda>st3.
     Inr (target, st3))))"
| "compilePrefix op e dst st =
     ebind (compileExpression 0 False e st) (\<lambda>(leftReg, st1).
     ebind (dest_or_temp dst st1) (\<lambda>(target0, st2).
     if op = ''-'' then
       ebind (compileTerminal TYPE_NUMBER ''-1'' 0 False
               (if dst = 0 then release target0 st2 else st2)) (\<lambda>(rightReg, st3).
       let target = (if dst = 0 then leftReg else dst)
       in Inr (target, release rightReg (emit MUL (Num leftReg) (Num rightReg) (Num target) st3)))
     else if op = ''throw'' then
       Inr (target0, emit THROW_EXCEPTION (Num leftReg) null_op null_op
              (if dst = 0 then release target0 st2 else st2))
     else
       let target = (if op \<in> {''++'', ''--''} then (if dst = 0 then leftReg else dst) else target0)
       in ebind (write_back e leftReg (inc_dec op leftReg target st2)) (\<lambda>st3. Inr (target, st3))))"
| "compileDotForSetField l r result st =
     ebind (compileExpression 0 False l st) (\<lambda>(leftReg, st1).
     ebind (compileExpression 0 False r st1) (\<lambda>(rightReg, st2).
     Inr (emit SET_FIELD (Num leftReg) (Num rightReg) (Num result) st2)))"
| "compileArgs [] reg st = Inr (reg, st)"
| "compileArgs (e # es) reg st =
     ebind (compileArgs es reg st) (\<lambda>(reg1, st1).
     ebind (compileExpression reg1 False e st1) (\<lambda>(reg2, st2).
     Inr (reg2, emit PUSH (Num reg2) null_op null_op st2)))"
| "compileMethodCall callee args dst st =
     ebind (dest_or_temp dst st) (\<lambda>(resultReg, st1).
     ebind (new_temp st1) (\<lambda>(argReg, st2).
     ebind (compileArgs args argReg st2) (\<lambda>(lastReg, st3).
     ebind (compileExpression 0 False callee (release lastReg st3)) (\<lambda>(calleeReg, st4).
     Inr (resultReg, release calleeReg
       (emit CALL (Num calleeReg) (Num resultReg) (Num (length args)) st4))))))"
| "compilePlainBinary op l r dst st =
     ebind (compileExpression 0 False l st) (\<lambda>(leftReg, st1).
     ebind (compileExpression (if op = ''='' then leftReg else 0) (op = ''.'') r st1) (\<lambda>(rightReg, st2).
     ebind (dest_or_temp dst st2) (\<lambda>(resultReg, st3).
     ebind (if op = ''='' then Inr st3
            else ebind (toOpcode op) (\<lambda>c.
                   Inr (emit c (Num leftReg) (Num rightReg) (Num resultReg) st3))) (\<lambda>st4.
     Inr (resultReg, release leftReg
       (if rightReg \<noteq> resultReg then release rightReg st4 else st4))))))"
| "compileBinary op l r dst st =
     (if op = ''='' then
        (case l of
           Binary lop ll lr \<Rightarrow>
             if lop = ''.'' then
               ebind (compileExpression 0 False r st) (\<lambda>(rightReg, st1).
               ebind (compileDotForSetField ll lr rightReg st1) (\<lambda>st2. Inr (rightReg, st2)))
             else Inl (Exit_Error ''left value expected'')
         | Terminal ty ident \<Rightarrow>
             if ty = TYPE_IDENTIFIER then
               if lookup ident st = 0 then
                 ebind (new_temp st) (\<lambda>(leftReg, st1).
                 ebind (compileExpression 0 False r
                         (emit MOV_STR (Num leftReg) (Str ident) null_op st1)) (\<lambda>(rightReg, st2).
                 Inr (0, emit SET_FIELD (Num 1) (Num leftReg) (Num rightReg) st2)))
               else compilePlainBinary op l r dst st
             else Inl (Exit_Error ''left value expected'')
         | _ \<Rightarrow> compilePlainBinary op l r dst st)
      else compilePlainBinary op l r dst st)"
  by pat_completeness auto
termination
  by (relation "measure (\<lambda>x. case x of
        Inl (Inl (Inl (_, _, e, _))) \<Rightarrow> 3 * size e
      | Inl (Inl (Inr (_, e, _, _))) \<Rightarrow> 3 * size e + 2
      | Inl (Inr (Inl (_, e, _, _))) \<Rightarrow> 3 * size e + 2
      | Inl (Inr (Inr (l, r, _, _))) \<Rightarrow> 3 * (size l + size r) + 2
      | Inr (Inl (Inl (es, _, _))) \<Rightarrow> 3 * size_list size es
      | Inr (Inl (Inr (c, es, _, _))) \<Rightarrow> 3 * (size c + size_list size es) + 2
      | Inr (Inr (Inl (_, l, r, _, _))) \<Rightarrow> 3 * (size l + size r) + 1
      | Inr (Inr (Inr (_, l, r, _, _))) \<Rightarrow> 3 * (size l + size r) + 2)") auto

section \<open>What compiling an expression may do to the state\<close>

abbreviation top_reg :: "cstate \<Rightarrow> nat" where
  "top_reg st \<equiv> fk_top (frame st)"

text \<open>A function's tables after the address pass.\<close>

definition frame_ok :: "'f fkind \<Rightarrow> bool" where
  "frame_ok fk \<longleftrightarrow> fk_wf fk \<and> symtab_ok (symbolTable fk)"

text \<open>
  The symbols stay, the frame may grow, and instructions are appended whose registers lie in the
  grown frame.
\<close>

definition extends :: "cstate \<Rightarrow> cstate \<Rightarrow> bool" where
  "extends st st' \<longleftrightarrow> frame_ok (frame st') \<and>
     symbolTable (frame st') = symbolTable (frame st) \<and>
     privatesTable (frame st') = privatesTable (frame st) \<and>
     functionsToCompile (frame st') = functionsToCompile (frame st) \<and>
     top_reg st \<le> top_reg st' \<and>
     (\<exists>is. code st' = code st @ is \<and>
        (\<forall>i \<in> set is. instr_ok (top_reg st') i \<and> \<not> is_label i \<and> opc i \<notin> {RETURN, FFRAME}))"

lemma extends_refl: "frame_ok (frame st) \<Longrightarrow> extends st st"
  by (simp add: extends_def)

lemma extends_frame: "extends st st' \<Longrightarrow> frame_ok (frame st')"
  by (simp add: extends_def)

lemma extends_top: "extends st st' \<Longrightarrow> top_reg st \<le> top_reg st'"
  by (simp add: extends_def)

lemma extends_symbols: "extends st st' \<Longrightarrow> symbolTable (frame st') = symbolTable (frame st)"
  by (simp add: extends_def)

lemma extends_trans:
  assumes "extends a b" "extends b c"
  shows "extends a c"
proof -
  obtain xs ys where "code b = code a @ xs" "code c = code b @ ys"
    and x: "\<forall>i \<in> set xs. instr_ok (top_reg b) i \<and> \<not> is_label i \<and> opc i \<notin> {RETURN, FFRAME}"
    and y: "\<forall>i \<in> set ys. instr_ok (top_reg c) i \<and> \<not> is_label i \<and> opc i \<notin> {RETURN, FFRAME}"
    using assms by (auto simp: extends_def)
  then have "code c = code a @ (xs @ ys)" by simp
  moreover have "\<forall>i \<in> set (xs @ ys). instr_ok (top_reg c) i \<and> \<not> is_label i \<and> opc i \<notin> {RETURN, FFRAME}"
    using x y extends_top[OF assms(2)] instr_ok_mono by fastforce
  ultimately show ?thesis using assms unfolding extends_def by (metis le_trans)
qed

lemma emit_frame [simp]: "frame (emit c a b d st) = frame st"
  by (simp add: emit_def)

lemma emit_code [simp]: "code (emit c a b d st) = code st @ [instruction_new c a b d]"
  by (simp add: emit_def addInstruction_def)

lemma extends_emit [emits]:
  "extends st s \<Longrightarrow> instr_ok (top_reg s) (instruction_new c a b d) \<Longrightarrow> c \<notin> {LABEL, RETURN, FFRAME} \<Longrightarrow>
   extends st (emit c a b d s)"
  by (auto simp: extends_def is_label_def)

lemma freeRegister_fields [simp]:
  "symbolTable (freeRegister r fk) = symbolTable fk" "privatesTable (freeRegister r fk) = privatesTable fk"
  "functionsToCompile (freeRegister r fk) = functionsToCompile fk"
  by (auto simp: freeRegister_def split: option.splits)

lemma frame_ok_free: "frame_ok fk \<Longrightarrow> frame_ok (freeRegister r fk) \<and> fk_top (freeRegister r fk) = fk_top fk"
  using fk.free_law[of fk r] by (auto simp: frame_ok_def)

lemma release_fields [simp]:
  "code (release r s) = code s" "symbolTable (frame (release r s)) = symbolTable (frame s)"
  by (simp_all add: release_def)

lemma release_top: "frame_ok (frame s) \<Longrightarrow> top_reg (release r s) = top_reg s"
  using frame_ok_free by (auto simp: release_def)

lemma frame_ok_release: "frame_ok (frame s) \<Longrightarrow> frame_ok (frame (release r s))"
  using frame_ok_free by (auto simp: release_def)

lemma extends_release [emits]: "extends st s \<Longrightarrow> extends st (release r s)"
  using frame_ok_free[of "frame s" r] by (auto simp: extends_def release_def)

lemma new_temp_ok:
  assumes "frame_ok (frame st)"
  shows "\<exists>r s. new_temp st = Inr (r, s) \<and> extends st s \<and> 0 < r \<and> r \<le> top_reg s \<and> code s = code st"
proof -
  have wf: "fk_wf (frame st)" using assms by (simp add: frame_ok_def)
  then obtain r where r: "getTemporary (frame st) = Inr (r, rt_set r False (frame st))"
    "fk_nsyms (frame st) < r" "r \<le> Suc (fk_top (frame st))" using getTemporary_spec by blast
  note w = rt_set_wf[OF wf r(2,3), of False]
  show ?thesis using r w assms by (auto simp: new_temp_def extends_def frame_ok_def)
qed

lemma new_temp_pos: "new_temp st = Inr (r, s) \<Longrightarrow> 0 < r"
  using getTemporary_pos by (auto simp: new_temp_def ebind_Inr_iff)

lemma dest_pos: "dest_or_temp dst st = Inr (r, s) \<Longrightarrow> 0 < r"
  using new_temp_pos by (auto simp: dest_or_temp_def split: if_splits)

text \<open>\<open>this\<close>, register 1, is in the frame as soon as some register is.\<close>

lemma dest_this: "dest_or_temp dst st = Inr (r, s) \<Longrightarrow> r \<le> top_reg s \<Longrightarrow> Suc 0 \<le> top_reg s"
  using dest_pos by fastforce

lemma new_temp_this: "new_temp st = Inr (r, s) \<Longrightarrow> r \<le> top_reg s \<Longrightarrow> Suc 0 \<le> top_reg s"
  using new_temp_pos by fastforce

lemma le_extends: "r \<le> top_reg s \<Longrightarrow> extends s s' \<Longrightarrow> r \<le> top_reg s'"
  using extends_top le_trans by blast

lemma lookup_le_symbols: "frame_ok (frame st) \<Longrightarrow> lookup x st \<le> fk_nsyms (frame st)"
proof -
  assume ok: "frame_ok (frame st)"
  show ?thesis
  proof (cases "map_of (symbolTable (frame st)) x")
    case None
    then show ?thesis by (simp add: lookup_def lookupRegister_def)
  next
    case (Some r)
    then have "r \<in> set (map snd (symbolTable (frame st)))" by (force dest: map_of_SomeD)
    moreover have "set (map snd (symbolTable (frame st))) = set [1..<length (symbolTable (frame st)) + 1]"
      using ok by (simp only: frame_ok_def symtab_ok_def)
    ultimately have "r \<le> length (symbolTable (frame st))" by (simp del: upt_Suc)
    with Some show ?thesis by (simp add: lookup_def lookupRegister_def fk_nsyms_def)
  qed
qed

lemma lookup_le: "frame_ok (frame st) \<Longrightarrow> lookup x st \<le> top_reg st"
  using lookup_le_symbols[of st x] by (simp add: fk_nsyms_def fk_top_def)

section \<open>Results that keep the state in order\<close>

text \<open>
  \<open>delivers b st m\<close>: from a state in order, \<open>m\<close> either returns a register of the frame and
  an extension of the state, or it fails and \<open>b\<close> holds.
\<close>

definition delivers :: "bool \<Rightarrow> cstate \<Rightarrow> (fault + (nat \<times> cstate)) \<Rightarrow> bool" where
  "delivers b st m \<longleftrightarrow> (frame_ok (frame st) \<longrightarrow>
     (case m of Inl _ \<Rightarrow> b | Inr (r, s) \<Rightarrow> extends st s \<and> r \<le> top_reg s))"

definition delivers_st :: "bool \<Rightarrow> cstate \<Rightarrow> (fault + cstate) \<Rightarrow> bool" where
  "delivers_st b st m \<longleftrightarrow> (frame_ok (frame st) \<longrightarrow> (case m of Inl _ \<Rightarrow> b | Inr s \<Rightarrow> extends st s))"

lemma delivers_weaken: "delivers b st m \<Longrightarrow> (b \<Longrightarrow> b') \<Longrightarrow> delivers b' st m"
  by (auto simp: delivers_def split: sum.splits)

lemma delivers_st_weaken: "delivers_st b st m \<Longrightarrow> (b \<Longrightarrow> b') \<Longrightarrow> delivers_st b' st m"
  by (auto simp: delivers_st_def split: sum.splits)

lemma delivers_Inl: "b \<Longrightarrow> delivers b st (Inl e)"
  by (simp add: delivers_def)

lemma delivers_Inr: "(frame_ok (frame st) \<Longrightarrow> extends st s \<and> r \<le> top_reg s) \<Longrightarrow> delivers b st (Inr (r, s))"
  by (simp add: delivers_def)

lemma delivers_from:
  assumes "extends st s" "delivers b s m"
  shows "delivers b st m"
  using assms(2) extends_trans[OF assms(1)] extends_frame[OF assms(1)]
  by (simp add: delivers_def split: sum.splits prod.splits)

lemma delivers_st_from:
  assumes "extends st s" "delivers_st b s m"
  shows "delivers_st b st m"
  using assms(2) extends_trans[OF assms(1)] extends_frame[OF assms(1)]
  by (simp add: delivers_st_def split: sum.splits prod.splits)

lemma delivers_bind:
  assumes "delivers b st m"
    and "\<And>r s. m = Inr (r, s) \<Longrightarrow> extends st s \<Longrightarrow> r \<le> top_reg s \<Longrightarrow> frame_ok (frame s) \<Longrightarrow> delivers b s (f (r, s))"
  shows "delivers b st (ebind m f)"
proof (cases m)
  case (Inl e)
  with assms(1) show ?thesis by (simp add: delivers_def)
next
  case (Inr p)
  obtain r s where p: "p = (r, s)" by (cases p)
  show ?thesis
  proof (cases "frame_ok (frame st)")
    case True
    with assms(1) Inr p have e: "extends st s" "r \<le> top_reg s" by (auto simp: delivers_def)
    with assms(2)[of r s] Inr p extends_frame delivers_from show ?thesis by auto
  qed (simp add: delivers_def)
qed

lemma delivers_bind_st:
  assumes "delivers_st b st m"
    and "\<And>s. extends st s \<Longrightarrow> frame_ok (frame s) \<Longrightarrow> delivers b s (f s)"
  shows "delivers b st (ebind m f)"
proof (cases m)
  case (Inl e)
  with assms(1) show ?thesis by (simp add: delivers_st_def delivers_def)
next
  case (Inr s)
  show ?thesis
  proof (cases "frame_ok (frame st)")
    case True
    with assms(1) Inr have "extends st s" by (auto simp: delivers_st_def)
    with assms(2)[of s] Inr extends_frame delivers_from show ?thesis by auto
  qed (simp add: delivers_def)
qed

lemma delivers_st_bind:
  assumes "delivers b st m"
    and "\<And>r s. m = Inr (r, s) \<Longrightarrow> extends st s \<Longrightarrow> r \<le> top_reg s \<Longrightarrow> frame_ok (frame s) \<Longrightarrow> delivers_st b s (f (r, s))"
  shows "delivers_st b st (ebind m f)"
proof (cases m)
  case (Inl e)
  with assms(1) show ?thesis by (simp add: delivers_st_def delivers_def)
next
  case (Inr p)
  obtain r s where p: "p = (r, s)" by (cases p)
  show ?thesis
  proof (cases "frame_ok (frame st)")
    case True
    with assms(1) Inr p have e: "extends st s" "r \<le> top_reg s" by (auto simp: delivers_def)
    with assms(2)[of r s] Inr p extends_frame delivers_st_from show ?thesis by auto
  qed (simp add: delivers_st_def)
qed

lemma delivers_st_Inr: "(frame_ok (frame st) \<Longrightarrow> extends st s) \<Longrightarrow> delivers_st b st (Inr s)"
  by (simp add: delivers_st_def)

lemma delivers_new_temp: "delivers b st (new_temp st)"
  using new_temp_ok by (fastforce simp: delivers_def)

lemma delivers_dest: "dst \<le> top_reg st \<Longrightarrow> delivers b st (dest_or_temp dst st)"
  using delivers_new_temp by (auto simp: dest_or_temp_def delivers_def extends_refl)

section \<open>Every compile function delivers\<close>

text \<open>
  The expressions the compiler has code for: binary operators with an opcode or an assignment, and
  assignment targets that are members or identifiers. (A postfix or call target compiles as a value
  that is then thrown away.)
\<close>

fun supported :: "expr \<Rightarrow> bool" where
  "supported (Terminal ty d) = True"
| "supported Empty_expr = True"
| "supported (Prefix op e) = supported e"
| "supported (Postfix op e) = supported e"
| "supported (Method_call c args) = (supported c \<and> list_all supported args)"
| "supported (Binary op l r) =
     (supported l \<and> supported r \<and>
      (if op = ''=''
       then (case l of Binary lop _ _ \<Rightarrow> lop = ''.'' | Terminal ty _ \<Rightarrow> ty = TYPE_IDENTIFIER | _ \<Rightarrow> True)
       else (\<exists>c. toOpcode op = Inr c)))"

lemma toOpcode_kind: "toOpcode op = Inr c \<Longrightarrow> c \<notin> {LABEL, RETURN, FFRAME} \<and>
    (c \<in> {ADD, SUB, DIV, MUL, MOD, GET_FIELD, INC, THROW_EXCEPTION} \<or> is_cmp c)"
  by (auto simp: toOpcode_def is_cmp_cases split: if_splits)

lemma instr_ok_new [simp]:
  "instr_ok n (instruction_new MOV_NUMBER (Num a) x y) \<longleftrightarrow> a \<le> n \<and> is_text x"
  "instr_ok n (instruction_new MOV_STR (Num a) x y) \<longleftrightarrow> a \<le> n \<and> is_text x"
  "instr_ok n (instruction_new PUSH (Num a) x y) \<longleftrightarrow> a \<le> n"
  "instr_ok n (instruction_new POP (Num a) x y) \<longleftrightarrow> a \<le> n"
  "instr_ok n (instruction_new MOV_FNC (Num a) x y) \<longleftrightarrow> a \<le> n \<and> is_text x"
  "instr_ok n (instruction_new JMP_TRUE (Num a) x y) \<longleftrightarrow> a \<le> n \<and> is_text x"
  "instr_ok n (instruction_new JMP_NOT_TRUE (Num a) x y) \<longleftrightarrow> a \<le> n \<and> is_text x"
  "instr_ok n (instruction_new RETURN (Num a) x y) \<longleftrightarrow> a \<le> n"
  "instr_ok n (instruction_new THROW_EXCEPTION (Num a) x y) \<longleftrightarrow> a \<le> n"
  "instr_ok n (instruction_new MOV (Num a) (Num b) y) \<longleftrightarrow> a \<le> n \<and> b \<le> n"
  "instr_ok n (instruction_new INC (Num a) (Num b) y) \<longleftrightarrow> a \<le> n \<and> b \<le> n"
  "instr_ok n (instruction_new DEC (Num a) (Num b) y) \<longleftrightarrow> a \<le> n \<and> b \<le> n"
  "instr_ok n (instruction_new CALL (Num a) (Num b) y) \<longleftrightarrow> a \<le> n \<and> b \<le> n"
  "instr_ok n (instruction_new GET_FIELD_IMMEDIATE (Num a) x (Num b)) \<longleftrightarrow> a \<le> n \<and> b \<le> n \<and> is_text x"
  "instr_ok n (instruction_new GET_FIELD (Num a) (Num b) (Num d)) \<longleftrightarrow> a \<le> n \<and> b \<le> n \<and> d \<le> n"
  "instr_ok n (instruction_new SET_FIELD (Num a) (Num b) (Num d)) \<longleftrightarrow> a \<le> n \<and> b \<le> n \<and> d \<le> n"
  "instr_ok n (instruction_new MUL (Num a) (Num b) (Num d)) \<longleftrightarrow> a \<le> n \<and> b \<le> n \<and> d \<le> n"
  "instr_ok n (instruction_new JMP x y z) \<longleftrightarrow> is_text x" "instr_ok n (instruction_new FFRAME x y z)"
  "instr_ok n (instruction_new LABEL x y z) \<longleftrightarrow> is_text x" "instr_ok n (instruction_new CREATE_THIS x y z)"
  "instr_ok n (instruction_new SET_CATCH x y z) \<longleftrightarrow> is_text x" "instr_ok n (instruction_new CLEAR_CATCH x y z)"
  "instr_ok n (instruction_new IMPORT_CLS x y z) \<longleftrightarrow> is_text x \<and> is_text y"
  by (simp_all add: instr_ok_def instr_regs_def is_cmp_cases kinds_ok_def)

lemma instr_ok_binary:
  "toOpcode op = Inr c \<Longrightarrow> a \<le> n \<Longrightarrow> b \<le> n \<Longrightarrow> d \<le> n \<Longrightarrow> 0 < d \<Longrightarrow>
   instr_ok n (instruction_new c (Num a) (Num b) (Num d))"
  by (auto simp: toOpcode_def instr_ok_def instr_regs_def is_cmp_cases kinds_ok_def split: if_splits)

lemma delivers_compileString: "dst \<le> top_reg st \<Longrightarrow> delivers b st (compileString d dst st)"
  unfolding compileString_def
  by (rule delivers_bind[OF delivers_dest]) (auto intro!: delivers_Inr emits extends_refl)

lemma delivers_immediate: "dst \<le> top_reg st \<Longrightarrow> delivers b st (compileIdentifierImmediate d dst st)"
  unfolding compileIdentifierImmediate_def
  by (auto intro!: delivers_Inr delivers_bind[OF delivers_dest] emits extends_refl lookup_le
      intro: dest_this)

lemma delivers_identifier: "dst \<le> top_reg st \<Longrightarrow> delivers b st (compileIdentifier d dst st)"
  unfolding compileIdentifier_def
  by (auto intro!: delivers_Inr delivers_bind[OF delivers_dest] delivers_bind[OF delivers_compileString]
      emits extends_refl lookup_le) (blast intro: le_extends dest_this)+

lemma delivers_st_of: "delivers b st m \<Longrightarrow> delivers_st b st (ebind m (\<lambda>(_, s). Inr s))"
  by (rule delivers_st_bind) (auto intro: delivers_st_Inr extends_refl)

lemma delivers_compileTerminal: "dst \<le> top_reg st \<Longrightarrow> delivers b st (compileTerminal ty d dst lk st)"
proof (cases ty)
  case TYPE_IDENTIFIER
  assume dst: "dst \<le> top_reg st"
  have 1: "delivers_st b st (if lk then ebind (compileIdentifier d dst st) (\<lambda>(_, s). Inr s) else Inr st)"
    using delivers_st_of[OF delivers_identifier[OF dst]] by (auto intro: delivers_st_Inr extends_refl)
  show ?thesis unfolding compileTerminal_def TYPE_IDENTIFIER ttype.case
    by (rule delivers_bind_st[OF 1]) (use dst extends_top in \<open>force intro: delivers_immediate\<close>)
next
  case TYPE_NUMBER
  assume "dst \<le> top_reg st"
  then show ?thesis unfolding compileTerminal_def TYPE_NUMBER ttype.case
    by (auto intro!: delivers_Inr delivers_bind[OF delivers_dest] emits extends_refl)
next
  case TYPE_STRING
  assume "dst \<le> top_reg st"
  then show ?thesis by (simp add: compileTerminal_def TYPE_STRING delivers_compileString)
qed

lemma delivers_write_back: "r \<le> top_reg st \<Longrightarrow> delivers_st b st (write_back e r st)"
proof (cases "\<exists>x. e = Terminal TYPE_IDENTIFIER x \<and> lookup x st = 0")
  case True
  assume r: "r \<le> top_reg st"
  from True obtain x where e: "e = Terminal TYPE_IDENTIFIER x" "lookup x st = 0" by blast
  have "write_back e r st = ebind (new_temp st) (\<lambda>(t, st1).
      Inr (release t (emit SET_FIELD (Num 1) (Num t) (Num r) (emit MOV_STR (Num t) (Str x) null_op st1))))"
    by (simp add: write_back_def e)
  then show ?thesis
    using r by (auto intro!: delivers_st_bind[OF delivers_new_temp] delivers_st_Inr emits extends_refl
        intro: le_extends new_temp_this)
next
  case False
  then have "write_back e r st = Inr st"
    by (auto simp: write_back_def split: expr.splits ttype.splits)
  then show ?thesis by (auto intro: delivers_st_Inr extends_refl)
qed

lemma extends_inc_dec:
  "extends st s \<Longrightarrow> a \<le> top_reg s \<Longrightarrow> t \<le> top_reg s \<Longrightarrow> extends st (inc_dec op a t s)"
  by (auto simp: inc_dec_def intro!: emits)

lemma inc_dec_top [simp]: "top_reg (inc_dec op a t s) = top_reg s"
  by (simp add: inc_dec_def)

lemma write_back_then:
  assumes "extends st s" "r \<le> top_reg s"
    "\<And>s2. extends st s2 \<Longrightarrow> frame_ok (frame s2) \<Longrightarrow> delivers b s2 (f s2)"
  shows "delivers b st (ebind (write_back e r s) f)"
  using assms by (intro delivers_bind_st[OF delivers_st_from[OF _ delivers_write_back]])

lemmas delivers_rules = delivers_Inr delivers_st_Inr emits extends_refl extends_inc_dec

lemma delivers_all:
  "dst \<le> top_reg st \<Longrightarrow> delivers (\<not> supported e) st (compileExpression dst lk e st)"
  "dst \<le> top_reg st \<Longrightarrow> delivers (\<not> supported e) st (compilePostfix op e dst st)"
  "dst \<le> top_reg st \<Longrightarrow> delivers (\<not> supported e) st (compilePrefix op e dst st)"
  "dst \<le> top_reg st \<Longrightarrow> delivers_st (\<not> (supported l \<and> supported r)) st (compileDotForSetField l r dst st)"
  "dst \<le> top_reg st \<Longrightarrow> delivers (\<not> list_all supported es) st (compileArgs es dst st)"
  "dst \<le> top_reg st \<Longrightarrow>
    delivers (\<not> (supported c \<and> list_all supported es)) st (compileMethodCall c es dst st)"
  "dst \<le> top_reg st \<Longrightarrow>
    delivers (\<not> (supported l \<and> supported r \<and> (op \<noteq> ''='' \<longrightarrow> (\<exists>oc. toOpcode op = Inr oc)))) st
      (compilePlainBinary op l r dst st)"
  "dst \<le> top_reg st \<Longrightarrow> delivers (\<not> supported (Binary op l r)) st (compileBinary op l r dst st)"
proof (induction dst lk e st and op e dst st and op e dst st and l r dst st and es dst st and c es dst st
    and op l r dst st and op l r dst st
    rule: compileExpression_compilePostfix_compilePrefix_compileDotForSetField_compileArgs_compileMethodCall_compilePlainBinary_compileBinary.induct)
  case (1 dst lk callee args st)
  then show ?case by simp
next
  case (2 dst lk op l r st)
  then show ?case by simp
next
  case (3 dst lk op e st)
  then show ?case by simp
next
  case (4 dst lk op e st)
  then show ?case by simp
next
  case (5 dst lk ty d st)
  then show ?case by (simp add: delivers_compileTerminal)
next
  case (6 dst lk st)
  then show ?case by (auto intro: delivers_rules)
next
  case (7 op e dst st)
  show ?case unfolding compilePostfix.simps
  proof (rule delivers_bind[OF 7(1)], goal_cases)
    case (2 leftReg st1)
    then show ?case using 7(2) unfolding prod.case
      by (auto intro!: delivers_bind[OF delivers_dest] write_back_then delivers_rules intro: le_extends)
  qed simp
next
  case (8 op e dst st)
  show ?case unfolding compilePrefix.simps
  proof (rule delivers_bind[OF 8(1)], goal_cases)
    case (2 leftReg st1)
    have d1: "dst \<le> top_reg st1" using 8(2) 2(2) by (rule le_extends)
    show ?case unfolding prod.case
    proof (rule delivers_bind[OF delivers_dest[OF d1]], goal_cases)
      case (1 target0 st2)
      have le: "leftReg \<le> top_reg st2" "dst \<le> top_reg st2" "target0 \<le> top_reg st2"
        using 1 2 d1 le_extends by blast+
      have rel: "extends st2 (if dst = 0 then release target0 st2 else st2)"
        using 1 by (auto intro: emits extends_refl)
      consider (neg) "op = ''-''" | (thr) "op = ''throw''" | (other) "op \<noteq> ''-''" "op \<noteq> ''throw''"
        by blast
      then show ?case
      proof cases
        case neg
        show ?thesis unfolding prod.case if_P[OF neg]
        proof (rule delivers_from[OF rel], rule delivers_bind[OF delivers_compileTerminal], goal_cases)
          case (2 rightReg st3)
          then have "leftReg \<le> top_reg st3" "dst \<le> top_reg st3" using le rel le_extends by blast+
          with 2 show ?case by (auto simp: Let_def release_top intro!: delivers_rules)
        qed simp
      next
        case thr
        then show ?thesis using le rel extends_top[OF rel] by (auto intro!: delivers_rules)
      next
        case other
        show ?thesis unfolding prod.case if_not_P[OF other(1)] if_not_P[OF other(2)] Let_def
          using le \<open>frame_ok (frame st2)\<close>
          by (intro write_back_then extends_inc_dec extends_refl) (auto intro!: delivers_Inr extends_refl intro: le_extends)
      qed
    qed
  qed simp
next
  case (9 l r result st)
  show ?case unfolding compileDotForSetField.simps
  proof (rule delivers_st_bind[OF delivers_weaken[OF 9(1)]], goal_cases)
    case (3 leftReg st1)
    note s1 = 3
    show ?case unfolding prod.case
    proof (rule delivers_st_bind[OF delivers_weaken[OF 9(2)[OF s1(1) refl]]], goal_cases)
      case (3 rightReg st2)
      then have "leftReg \<le> top_reg st2" "result \<le> top_reg st2" using s1 9(3) le_extends by blast+
      with 3 show ?case by (auto intro!: delivers_rules)
    qed auto
  qed auto
next
  case (10 reg st)
  then show ?case by (auto intro: delivers_rules)
next
  case (11 e es reg st)
  show ?case unfolding compileArgs.simps
  proof (rule delivers_bind[OF delivers_weaken[OF 11(1)[OF 11(3)]]], goal_cases)
    case (2 reg1 st1)
    show ?case unfolding prod.case
      by (rule delivers_bind[OF delivers_weaken[OF 11(2)[OF 2(1) refl]]])
        (use 2 in \<open>auto intro!: delivers_rules\<close>)
  qed auto
next
  case (12 callee args dst st)
  show ?case unfolding compileMethodCall.simps
  proof (rule delivers_bind[OF delivers_dest[OF 12(3)]], goal_cases)
    case (1 resultReg st1)
    note s1 = 1
    show ?case unfolding prod.case
    proof (rule delivers_bind[OF delivers_new_temp], goal_cases)
      case (1 argReg st2)
      note s2 = 1
      show ?case unfolding prod.case
      proof (rule delivers_bind[OF delivers_weaken[OF 12(1)[OF s1(1) refl s2(1) refl s2(3)]]], goal_cases)
        case (2 lastReg st3)
        note s3 = 2
        have rel: "extends st3 (release lastReg st3)" using s3 by (auto intro: emits extends_refl)
        have le: "resultReg \<le> top_reg st3" using s1 s2 s3 le_extends by blast
        show ?case unfolding prod.case
        proof (rule delivers_from[OF rel],
            rule delivers_bind[OF delivers_weaken[OF 12(2)[OF s1(1) refl s2(1) refl s3(1) refl]]], goal_cases)
          case (3 calleeReg st4)
          then have "resultReg \<le> top_reg st4" using le rel le_extends by blast
          with 3 show ?case by (auto simp: release_top intro!: delivers_rules)
        qed auto
      qed auto
    qed
  qed
next
  case (13 op l r dst st)
  let ?bad = "\<not> (supported l \<and> supported r \<and> (op \<noteq> ''='' \<longrightarrow> (\<exists>oc. toOpcode op = Inr oc)))"
  show ?case unfolding compilePlainBinary.simps
  proof (rule delivers_bind[OF delivers_weaken[OF 13(1)]], goal_cases)
    case (3 leftReg st1)
    note s1 = 3
    have "(if op = ''='' then leftReg else 0) \<le> top_reg st1" using s1 by simp
    note ih = 13(2)[OF s1(1) refl this]
    show ?case unfolding prod.case
    proof (rule delivers_bind[OF delivers_weaken[OF ih]], goal_cases)
      case (2 rightReg st2)
      note s2 = 2
      have d2: "dst \<le> top_reg st2" "leftReg \<le> top_reg st2" using 13(3) s1 s2 le_extends by blast+
      show ?case unfolding prod.case
      proof (rule delivers_bind[OF delivers_dest[OF d2(1)]], goal_cases)
        case (1 resultReg st3)
        note s3 = 1
        have le: "leftReg \<le> top_reg st3" "rightReg \<le> top_reg st3" using d2 s2 s3 le_extends by blast+
        have pos: "0 < resultReg" using dest_pos[OF s3(1)] .
        have "delivers_st ?bad st3
          (if op = ''='' then Inr st3
           else ebind (toOpcode op) (\<lambda>c. Inr (emit c (Num leftReg) (Num rightReg) (Num resultReg) st3)))"
          using le pos s3(3,4) toOpcode_kind[of op] instr_ok_binary[of op]
          by (cases "toOpcode op") (auto simp: delivers_st_def intro!: emits extends_refl)
        then show ?case unfolding prod.case
        proof (rule delivers_bind_st, goal_cases)
          case (1 st4)
          then have "resultReg \<le> top_reg st4" using s3 le_extends by blast
          with 1 show ?case by (auto simp: release_top frame_ok_release intro!: delivers_rules)
        qed
      qed
    qed auto
  qed auto
next
  case (14 op l r dst st)
  have plain: "delivers (\<not> supported (Binary op l r)) st (compilePlainBinary op l r dst st)"
    if "op = ''='' \<Longrightarrow> (\<forall>lop ll lr. l \<noteq> Binary lop ll lr) \<and> (\<forall>ty d. l = Terminal ty d \<longrightarrow> ty = TYPE_IDENTIFIER \<and> lookup d st \<noteq> 0)"
  proof -
    have "delivers (\<not> (supported l \<and> supported r \<and> (op \<noteq> ''='' \<longrightarrow> (\<exists>oc. toOpcode op = Inr oc)))) st
        (compilePlainBinary op l r dst st)"
      using that 14 by (cases "op = ''=''"; cases l) auto
    then show ?thesis by (rule delivers_weaken) (use that in \<open>auto split: expr.splits\<close>)
  qed
  show ?case
  proof (cases "op = ''=''")
    case False
    then show ?thesis using plain by simp
  next
    case op: True
    show ?thesis
    proof (cases l)
      case l: (Binary lop ll lr)
      show ?thesis
      proof (cases "lop = ''.''")
        case True
        show ?thesis unfolding compileBinary.simps if_P[OF op] l expr.case if_P[OF True]
        proof (rule delivers_bind[OF delivers_weaken[OF 14(3)[OF op l True]]], goal_cases)
          case (3 rightReg st1)
          note s1 = 3
          show ?case unfolding prod.case
          proof (rule delivers_bind_st[OF delivers_st_weaken[OF 14(4)[OF op l True s1(1) refl s1(3)]]], goal_cases)
            case (2 st2)
            then show ?case using s1 by (auto intro!: delivers_rules intro: le_extends)
          qed (use op True l in auto)
        qed (use op True l in auto)
      next
        case False
        then show ?thesis using op l by (auto intro: delivers_Inl)
      qed
    next
      case l: (Terminal ty ident)
      show ?thesis
      proof (cases "ty = TYPE_IDENTIFIER \<and> lookup ident st = 0")
        case True
        then have t: "ty = TYPE_IDENTIFIER" "lookup ident st = 0" by simp_all
        show ?thesis unfolding compileBinary.simps if_P[OF op] l expr.case if_P[OF t(1)] if_P[OF t(2)]
        proof (rule delivers_bind[OF delivers_new_temp], goal_cases)
          case (1 leftReg st1)
          note s1 = 1
          let ?s = "emit MOV_STR (Num leftReg) (Str ident) null_op st1"
          have rel: "extends st1 ?s" using s1 by (auto intro!: delivers_rules)
          show ?case unfolding prod.case
          proof (rule delivers_from[OF rel],
              rule delivers_bind[OF delivers_weaken[OF 14(1)[OF op l t s1(1) refl]]], goal_cases)
            case (3 rightReg st2)
            then have "leftReg \<le> top_reg st2" using s1 rel le_extends by blast
            moreover from this have "Suc 0 \<le> top_reg st2" using new_temp_pos[OF s1(1)] by simp
            ultimately show ?case using 3 by (auto intro!: delivers_rules)
          qed (use op l in auto)
        qed
      next
        case False
        then show ?thesis using op l plain by (auto intro: delivers_Inl)
      qed
    qed (use op plain in auto)
  qed
qed

section \<open>Properties\<close>

text \<open>A method \<open>f(x, y)\<close> right after the address pass, for the concrete instances.\<close>

definition sample_state :: cstate where
  "sample_state = \<lparr>code = [], frame = fkind_new\<lparr>symbolTable :=
     [(''this'', 1), (''f'', 2), (''x'', 3), (''y'', 4)]\<rparr>\<rparr>"

lemma sample_frame_ok: "frame_ok (frame sample_state)"
  by (auto simp: sample_state_def frame_ok_def fk_wf_def symtab_ok_def fkind_new_def fk_nsyms_def
      fk_top_def upt_conv_Cons numeral_eq_Suc)

text \<open>
  C7: every expression of the supported grammar compiles, in any state after the address pass. The
  compiler only appends instructions; the symbols keep their registers; every register an emitted
  instruction names, and the register returned, lies inside the function's frame as its tables then
  describe it; every compare writes a real register; and no label, return or function frame is emitted.
\<close>

theorem expression_compiles:
  assumes "supported e" "frame_ok (frame st)" "dst \<le> fk_top (frame st)"
  shows "\<exists>r st' is. compileExpression dst lk e st = Inr (r, st') \<and> code st' = code st @ is \<and>
    (\<forall>i \<in> set is. instr_ok (fk_top (frame st')) i \<and> \<not> is_label i \<and> opc i \<notin> {RETURN, FFRAME}) \<and>
    r \<le> fk_top (frame st') \<and> fk_top (frame st) \<le> fk_top (frame st') \<and>
    symbolTable (frame st') = symbolTable (frame st) \<and> frame_ok (frame st')"
proof (cases "compileExpression dst lk e st")
  case (Inl f)
  with delivers_all(1)[OF assms(3), of e lk] assms(1,2) show ?thesis by (simp add: delivers_def)
next
  case (Inr p)
  obtain r st' where p: "p = (r, st')" by (cases p)
  with Inr delivers_all(1)[OF assms(3), of e lk] assms(2)
  have "extends st st'" "r \<le> fk_top (frame st')" by (auto simp: delivers_def)
  with Inr p show ?thesis by (auto simp: extends_def)
qed

theorem expression_compiles_witness:
  "\<exists>r st' is. compileExpression 0 False
      (Binary ''='' (Binary ''.'' (Terminal TYPE_IDENTIFIER ''x'') (Terminal TYPE_STRING ''k''))
        (Method_call (Terminal TYPE_IDENTIFIER ''g'') [Postfix ''++'' (Terminal TYPE_IDENTIFIER ''y'')]))
      sample_state = Inr (r, st') \<and> code st' = code sample_state @ is \<and>
      (\<forall>i \<in> set is. instr_ok (fk_top (frame st')) i)"
proof -
  let ?e = "Binary ''='' (Binary ''.'' (Terminal TYPE_IDENTIFIER ''x'') (Terminal TYPE_STRING ''k''))
        (Method_call (Terminal TYPE_IDENTIFIER ''g'') [Postfix ''++'' (Terminal TYPE_IDENTIFIER ''y'')])"
  have "supported ?e" by (simp add: toOpcode_def)
  from expression_compiles[OF this sample_frame_ok, of 0] show ?thesis by blast
qed

text \<open>
  An assignment whose target is neither a member nor an identifier stops the compiler with
  its error message.
\<close>

lemma assignment_needs_left_value:
  assumes "case l of Binary lop _ _ \<Rightarrow> lop \<noteq> ''.'' | Terminal ty _ \<Rightarrow> ty \<noteq> TYPE_IDENTIFIER | _ \<Rightarrow> False"
  shows "compileExpression dst lk (Binary ''='' l r) st = Inl (Exit_Error ''left value expected'')"
  using assms by (cases l) auto

lemma assignment_needs_left_value_witness:
  "compileExpression 0 False (Binary ''='' (Terminal TYPE_NUMBER ''3'') Empty_expr) sample_state =
     Inl (Exit_Error ''left value expected'')"
  by (rule assignment_needs_left_value) simp

text \<open>
  Assigning one local variable to another compiles to no instruction at all: the right side
  answers its own register and ignores the requested destination, and the assignment operator emits
  nothing; the value returned is a fresh temporary that nothing has written.
\<close>

lemma local_assignment_emits_nothing:
  assumes "frame_ok (frame st)" "lookup x st \<noteq> 0" "lookup y st \<noteq> 0"
  shows "\<exists>t st'. compileExpression 0 lk
      (Binary ''='' (Terminal TYPE_IDENTIFIER x) (Terminal TYPE_IDENTIFIER y)) st = Inr (t, st') \<and>
    code st' = code st \<and> t \<notin> fk_used (frame st) \<and> fk_nsyms (frame st) < t"
proof -
  have wf: "fk_wf (frame st)" using assms(1) by (simp add: frame_ok_def)
  obtain t where t: "getTemporary (frame st) = Inr (t, rt_set t False (frame st))"
    "fk_nsyms (frame st) < t" "t \<notin> fk_used (frame st)" using getTemporary_spec[OF wf] by blast
  show ?thesis using assms(2,3) t
    by (simp add: compileTerminal_def compileIdentifierImmediate_def dest_or_temp_def new_temp_def)
qed

lemma local_assignment_emits_nothing_witness:
  "\<exists>t st'. compileExpression 0 False
      (Binary ''='' (Terminal TYPE_IDENTIFIER ''x'') (Terminal TYPE_IDENTIFIER ''y'')) sample_state = Inr (t, st') \<and>
    code st' = []"
  using local_assignment_emits_nothing[OF sample_frame_ok, of "''x''" "''y''" False]
  by (auto simp: sample_state_def lookup_def lookupRegister_def)

text \<open>
  In a call whose last argument is a local variable, the register of that variable becomes the
  destination of the argument before it: a number there is moved into the variable.
\<close>

lemma call_argument_overwrites_local:
  assumes "frame_ok (frame st)" "lookup x st \<noteq> 0"
    and "compileArgs [Terminal TYPE_NUMBER d, Terminal TYPE_IDENTIFIER x] reg st = Inr (r, st')"
  shows "r = lookup x st \<and> code st' = code st @
    [instruction_new PUSH (Num (lookup x st)) null_op null_op,
     instruction_new MOV_NUMBER (Num (lookup x st)) (Str d) null_op,
     instruction_new PUSH (Num (lookup x st)) null_op null_op]"
  using assms(2,3)
  by (auto simp: compileTerminal_def compileIdentifierImmediate_def dest_or_temp_def lookup_def)

lemma call_argument_overwrites_local_witness:
  "\<exists>r st'. compileArgs [Terminal TYPE_NUMBER ''1'', Terminal TYPE_IDENTIFIER ''x''] 5 sample_state = Inr (r, st') \<and>
    instruction_new MOV_NUMBER (Num 3) (Str ''1'') null_op \<in> set (code st')"
proof -
  have l: "lookup ''x'' sample_state = 3"
    by (simp add: sample_state_def lookup_def lookupRegister_def)
  obtain r st' where c: "compileArgs [Terminal TYPE_NUMBER ''1'', Terminal TYPE_IDENTIFIER ''x''] 5 sample_state = Inr (r, st')"
    using l by (auto simp: compileTerminal_def compileIdentifierImmediate_def dest_or_temp_def lookup_def)
  with call_argument_overwrites_local[OF sample_frame_ok _ c] l show ?thesis by auto
qed

text \<open>
  Negating a local variable as an operand multiplies the variable itself by -1 and answers the
  variable's register: evaluating \<open>-x\<close> changes \<open>x\<close>.
\<close>

lemma negation_changes_local:
  assumes "frame_ok (frame st)" "lookup x st \<noteq> 0"
  shows "\<exists>t st'. compileExpression 0 lk (Prefix ''-'' (Terminal TYPE_IDENTIFIER x)) st =
      Inr (lookup x st, st') \<and>
    code st' = code st @ [instruction_new MOV_NUMBER (Num t) (Str ''-1'') null_op,
      instruction_new MUL (Num (lookup x st)) (Num t) (Num (lookup x st))] \<and> t \<noteq> lookup x st"
proof -
  obtain t0 s0 where s0: "new_temp st = Inr (t0, s0)" "extends st s0" "code s0 = code st"
    using new_temp_ok[OF assms(1)] by blast
  let ?s1 = "release t0 s0"
  have f1: "frame_ok (frame ?s1)" using s0(2) by (simp add: frame_ok_release extends_frame)
  have wf: "fk_wf (frame ?s1)" using f1 by (simp add: frame_ok_def)
  obtain t where t: "getTemporary (frame ?s1) = Inr (t, rt_set t False (frame ?s1))"
    "fk_nsyms (frame ?s1) < t" using getTemporary_spec[OF wf] by blast
  have sym: "symbolTable (frame ?s1) = symbolTable (frame st)" using extends_symbols[OF s0(2)] by simp
  have "lookup x st \<le> fk_nsyms (frame ?s1)"
    using lookup_le_symbols[OF assms(1), of x] sym by (simp add: fk_nsyms_def)
  then have "t \<noteq> lookup x st" using t(2) by simp
  then show ?thesis using assms(2) s0 t(1)
    by (simp add: compileTerminal_def compileIdentifierImmediate_def dest_or_temp_def new_temp_def) blast
qed

lemma negation_changes_local_witness:
  "\<exists>t st'. compileExpression 0 False (Prefix ''-'' (Terminal TYPE_IDENTIFIER ''x'')) sample_state = Inr (3, st') \<and>
    instruction_new MUL (Num 3) (Num t) (Num 3) \<in> set (code st')"
proof -
  have l: "lookup ''x'' sample_state = 3"
    by (simp add: sample_state_def lookup_def lookupRegister_def)
  with negation_changes_local[OF sample_frame_ok, of "''x''" False] show ?thesis by fastforce
qed

end
