(* ===== verification/Compiler.thy ===== *)
theory Compiler
  imports ExprCompiler Optimizer
begin

text \<open>
  src/src/compiler/Compiler.cpp: statements, functions and classes to one instruction list. The
  state is the program, the register tables of every function (by object number), the stack of
  functions being compiled, the stacks of loop labels, the finally bodies in whose scope the
  compiler is, the static functions seen so far and the label counter. \<open>fuel\<close> bounds the two
  kinds of calls that do not follow the syntax: the finally bodies compiled before a return, and
  the functions compiled after the body that declares them.
\<close>

section \<open>State\<close>

record comp =
  prog :: program
  ctables :: tables
  functionsStack :: "nat list"
  loopEndLabelsStack :: "string list"
  loopStartLabelsStack :: "string list"
  finallyBlocks :: "stmt list list"
  compiledStaticFunctions :: "string list"
  labelCount :: nat

definition top_fn :: "comp \<Rightarrow> nat" where
  "top_fn c = hd (functionsStack c)"

definition top_table :: "comp \<Rightarrow> func fkind" where
  "top_table c = ctables c (top_fn c)"

definition view :: "comp \<Rightarrow> cstate" where
  "view c = \<lparr>code = prog c, frame = top_table c\<rparr>"

definition put_view :: "cstate \<Rightarrow> comp \<Rightarrow> comp" where
  "put_view st c = c\<lparr>prog := code st, ctables := (ctables c)(top_fn c := frame st)\<rparr>"

definition comp_expr :: "expr \<Rightarrow> nat \<Rightarrow> comp \<Rightarrow> fault + (nat \<times> comp)" where
  "comp_expr e dst c =
     ebind (compileExpression dst False e (view c)) (\<lambda>(r, st). Inr (r, put_view st c))"

definition comp_temp :: "comp \<Rightarrow> fault + (nat \<times> comp)" where
  "comp_temp c = ebind (new_temp (view c)) (\<lambda>(r, st). Inr (r, put_view st c))"

definition comp_free :: "nat \<Rightarrow> comp \<Rightarrow> comp" where
  "comp_free r c = put_view (release r (view c)) c"

definition comp_reg :: "string \<Rightarrow> comp \<Rightarrow> nat" where
  "comp_reg ident c = lookupRegister ident (top_table c)"

definition gen :: "opcode \<Rightarrow> operand \<Rightarrow> operand \<Rightarrow> operand \<Rightarrow> comp \<Rightarrow> comp" where
  "gen oc a b d c = c\<lparr>prog := snd (addInstruction oc a b d (prog c))\<rparr>"

definition gen_label :: "string \<Rightarrow> comp \<Rightarrow> comp" where
  "gen_label s c = c\<lparr>prog := addLabel s (prog c)\<rparr>"

text \<open>\<open>sprintf(label, "...%d", ++labelCount)\<close>.\<close>

definition next_label :: "string \<Rightarrow> comp \<Rightarrow> string \<times> comp" where
  "next_label stem c =
     (let n = labelCount c + 1 in (stem @ dec_string n, c\<lparr>labelCount := n\<rparr>))"

definition addFunctionToCompileLater :: "func \<Rightarrow> comp \<Rightarrow> comp" where
  "addFunctionToCompileLater f c = c\<lparr>ctables := (ctables c)(top_fn c :=
     (top_table c)\<lparr>functionsToCompile := functionsToCompile (top_table c) @ [f]\<rparr>)\<rparr>"

section \<open>Variables, jumps and the pieces without statements\<close>

definition compileVar :: "string \<Rightarrow> expr \<Rightarrow> bool \<Rightarrow> comp \<Rightarrow> fault + comp" where
  "compileVar ident val is_sync c =
     (let reg = comp_reg ident c in
      ebind (comp_expr val reg c) (\<lambda>(valueReg, c1).
        if is_sync then
          ebind (comp_temp c1) (\<lambda>(tempReg, c2).
          Inr (comp_free tempReg (gen SET_FIELD (Num 1) (Num tempReg) (Num valueReg)
                (gen MOV_STR (Num tempReg) (Str ident) null_op c2))))
        else if valueReg \<noteq> reg then
          Inr (comp_free valueReg (gen MOV (Num reg) (Num valueReg) null_op c1))
        else Inr c1))"

text \<open>\<open>break\<close>: the top of an empty label stack is undefined.\<close>

definition compileBreak :: "bool \<Rightarrow> comp \<Rightarrow> fault + comp" where
  "compileBreak has_break c =
     (if has_break
      then (case loopEndLabelsStack c of
              [] \<Rightarrow> Inl Undefined_Value
            | lend # _ \<Rightarrow> Inr (gen JMP (Str lend) null_op null_op c))
      else Inr c)"

text \<open>The hoisting loop of a body: the declared functions are moved into their registers first.\<close>

definition hoist1 :: "stmt \<Rightarrow> comp \<Rightarrow> comp" where
  "hoist1 s c =
     (case stmt_node s of
        Function_node f \<Rightarrow>
          gen MOV_FNC (Num (comp_reg (fn_name f) c)) (Str (fn_name f)) (Num (if fn_async f then 1 else 0)) c
      | _ \<Rightarrow> c)"

definition hoist :: "stmt list \<Rightarrow> comp \<Rightarrow> comp" where
  "hoist body c = fold hoist1 body c"

text \<open>The prologue of the static constructor: imports, then every static function into \<open>__static__\<close>.\<close>

definition static_prologue :: "(string \<times> string) list \<Rightarrow> comp \<Rightarrow> fault + comp" where
  "static_prologue imports c0 =
     (let c = fold (\<lambda>(a, b). gen IMPORT_CLS (Str a) (Str b) null_op) imports c0 in
      ebind (comp_temp c) (\<lambda>(statics, c1).
      let c2 = gen GET_FIELD_IMMEDIATE (Num 1) (Str ''__static__'') (Num statics) c1 in
      ebind (comp_temp c2) (\<lambda>(fncName, c3).
      ebind (comp_temp c3) (\<lambda>(fncRef, c4).
      Inr (fold (\<lambda>nm x. gen SET_FIELD (Num statics) (Num fncName) (Num fncRef)
              (gen MOV_STR (Num fncName) (Str nm) null_op
                (gen MOV_FNC (Num fncRef) (Str nm) null_op x)))
            (compiledStaticFunctions c4) c4)))))"

text \<open>After the body: frame size, symbol tables and end label go into the FFRAME instruction.\<close>

definition patch_frame :: "nat \<Rightarrow> nat \<Rightarrow> string \<Rightarrow> comp \<Rightarrow> comp" where
  "patch_frame index fid endLabel c =
     c\<lparr>prog := (prog c)[index := (prog c ! index)\<lparr>
         r0 := Num (length (registerTable (ctables c fid)) + length (symbolTable (ctables c fid))),
         r1 := Fun_ptr fid, r2 := Str endLabel\<rparr>]\<rparr>"

definition clear_functions :: "comp \<Rightarrow> comp" where
  "clear_functions c = c\<lparr>ctables := (ctables c)(top_fn c := (top_table c)\<lparr>functionsToCompile := []\<rparr>)\<rparr>"

definition push_fn :: "nat \<Rightarrow> comp \<Rightarrow> comp" where
  "push_fn i c = c\<lparr>functionsStack := i # functionsStack c\<rparr>"

definition pop_fn :: "comp \<Rightarrow> comp" where
  "pop_fn c = c\<lparr>functionsStack := tl (functionsStack c)\<rparr>"

text \<open>An optional expression compiled for its effect: the start and iteration parts of a loop.\<close>

definition effect_expr :: "expr option \<Rightarrow> comp \<Rightarrow> fault + comp" where
  "effect_expr e c =
     (case e of None \<Rightarrow> Inr c
      | Some x \<Rightarrow> ebind (comp_expr x 0 c) (\<lambda>(r, y). Inr (comp_free r y)))"

definition loop_condition :: "expr option \<Rightarrow> string \<Rightarrow> comp \<Rightarrow> fault + comp" where
  "loop_condition e lstart c =
     (case e of None \<Rightarrow> Inr c
      | Some x \<Rightarrow> ebind (comp_expr x 0 c) (\<lambda>(r, y).
          Inr (comp_free r (gen JMP_TRUE (Num r) (Str lstart) null_op y))))"

text \<open>The three labels of a loop; its end and start go onto their stacks, only the end is popped.\<close>

definition push_loop :: "comp \<Rightarrow> string \<times> string \<times> string \<times> comp" where
  "push_loop c0 =
     (let (lstart, c1) = next_label ''.lstart_'' c0;
          (lend, c2) = next_label ''.lend_'' c1;
          (lcond, c3) = next_label ''.lcond_''
             (c2\<lparr>loopEndLabelsStack := lend # loopEndLabelsStack c2,
                 loopStartLabelsStack := lstart # loopStartLabelsStack c2\<rparr>)
      in (lstart, lend, lcond, c3))"

definition pop_loop :: "comp \<Rightarrow> comp" where
  "pop_loop c = c\<lparr>loopEndLabelsStack := tl (loopEndLabelsStack c)\<rparr>"

definition two_labels :: "string \<Rightarrow> string \<Rightarrow> comp \<Rightarrow> string \<times> string \<times> comp" where
  "two_labels s1 s2 c0 =
     (let (l1, c1) = next_label s1 c0; (l2, c2) = next_label s2 c1 in (l1, l2, c2))"

definition push_finally :: "stmt list option \<Rightarrow> comp \<Rightarrow> comp" where
  "push_finally fb c = (case fb of None \<Rightarrow> c | Some b \<Rightarrow> c\<lparr>finallyBlocks := finallyBlocks c @ [b]\<rparr>)"

definition pop_finally :: "stmt list option \<Rightarrow> comp \<Rightarrow> comp" where
  "pop_finally fb c = (case fb of None \<Rightarrow> c | Some b \<Rightarrow> c\<lparr>finallyBlocks := butlast (finallyBlocks c)\<rparr>)"

section \<open>Statements\<close>

function (sequential)
  compileStmt :: "nat \<Rightarrow> stmt \<Rightarrow> comp \<Rightarrow> fault + comp"
  and compileNode :: "nat \<Rightarrow> bool \<Rightarrow> ast \<Rightarrow> comp \<Rightarrow> fault + comp"
  and compileStmts :: "nat \<Rightarrow> stmt list \<Rightarrow> comp \<Rightarrow> fault + comp"
  and compileBody :: "nat \<Rightarrow> stmt list \<Rightarrow> comp \<Rightarrow> fault + comp"
  and compileFinally :: "nat \<Rightarrow> nat \<Rightarrow> comp \<Rightarrow> fault + comp" where
  "compileStmt fuel (Statement ret brk cont node) c =
     ebind (compileBreak brk c) (compileNode fuel ret node)"
| "compileNode fuel ret (Function_node f) c = Inr (addFunctionToCompileLater f c)"
| "compileNode fuel ret (Var_node ident val is_static is_private is_sync) c = compileVar ident val is_sync c"
| "compileNode fuel ret (Loop_node start iter cond body) c0 =
     (case push_loop c0 of (lstart, lend, lcond, c3) \<Rightarrow>
      ebind (effect_expr start c3) (\<lambda>c4.
      ebind (compileBody fuel body (gen_label lstart (gen JMP (Str lcond) null_op null_op c4))) (\<lambda>c5.
      ebind (effect_expr iter c5) (\<lambda>c6.
      ebind (loop_condition cond lstart (gen_label lcond c6)) (\<lambda>c7.
      Inr (pop_loop (gen_label lend c7)))))))"
| "compileNode fuel ret (Body_node body) c = compileBody fuel body c"
| "compileNode fuel ret (Conditional_node cond body elseBody) c0 =
     (case two_labels ''.else_'' ''.end_cond_'' c0 of (lfail, lend, c2) \<Rightarrow>
      ebind (comp_expr cond 0 c2) (\<lambda>(r, c3).
      ebind (compileBody fuel body
              (comp_free r (gen JMP_NOT_TRUE (Num r) (Str lfail) null_op c3))) (\<lambda>c4.
      ebind (case elseBody of None \<Rightarrow> Inr (gen_label lfail c4)
             | Some eb \<Rightarrow> compileBody fuel eb
                 (gen_label lfail (gen JMP (Str lend) null_op null_op c4))) (\<lambda>c5.
      Inr (gen_label lend c5)))))"
| "compileNode fuel ret (Try_node tryBody catchBody finallyBody catchIdent) c0 =
     (case two_labels ''.catch_'' ''.finally_'' (push_finally finallyBody c0) of (lcatch, lfinally, c2) \<Rightarrow>
      ebind (compileBody fuel tryBody (gen SET_CATCH (Str lcatch) (Str lfinally) null_op c2)) (\<lambda>c3.
      let c4 = gen_label lcatch (gen JMP (Str lfinally) null_op null_op c3) in
      ebind (compileBody fuel catchBody (gen POP (Num (comp_reg catchIdent c4)) null_op null_op c4)) (\<lambda>c5.
      ebind (case finallyBody of None \<Rightarrow> Inr (gen_label lfinally c5)
             | Some fb \<Rightarrow> compileBody fuel fb (gen_label lfinally c5)) (\<lambda>c6.
      Inr (pop_finally finallyBody (gen CLEAR_CATCH null_op null_op null_op c6))))))"
| "compileNode fuel ret (Expr_node e) c =
     ebind (comp_expr e 0 c) (\<lambda>(reg, c1).
     ebind (if ret then
              ebind (compileFinally fuel 0 c1) (\<lambda>c2. Inr (gen RETURN (Num reg) null_op null_op c2))
            else Inr c1) (\<lambda>c3.
     Inr (comp_free reg c3)))"
| "compileStmts fuel [] c = Inr c"
| "compileStmts fuel (s # ss) c = ebind (compileStmt fuel s c) (compileStmts fuel ss)"
| "compileBody fuel body c = compileStmts fuel body (hoist body c)"
| "compileFinally 0 i c = (if i < length (finallyBlocks c) then Inl Out_Of_Fuel else Inr c)"
| "compileFinally (Suc fuel) i c =
     (if i < length (finallyBlocks c)
      then ebind (compileBody fuel (finallyBlocks c ! i) c) (compileFinally fuel (i + 1))
      else Inr c)"
  by pat_completeness auto
termination
  by (relation "measures [
      \<lambda>x. case x of
        Inl (Inl (n, _)) \<Rightarrow> n | Inl (Inr (n, _)) \<Rightarrow> n
      | Inr (Inl (n, _)) \<Rightarrow> n | Inr (Inr (Inl (n, _))) \<Rightarrow> n | Inr (Inr (Inr (n, _))) \<Rightarrow> n,
      \<lambda>x. case x of
        Inl (Inl (_, s, _)) \<Rightarrow> 2 * size s | Inl (Inr (_, _, a, _)) \<Rightarrow> 2 * size a + 1
      | Inr (Inl (_, ss, _)) \<Rightarrow> 2 * size_list size ss
      | Inr (Inr (Inl (_, ss, _))) \<Rightarrow> 2 * size_list size ss + 1 | Inr (Inr (Inr _)) \<Rightarrow> 0]") auto

section \<open>Functions and classes\<close>

text \<open>
  A function's code is followed by the code of the functions its body declared. \<open>fuel\<close> counts
  down with every function of the list and every level.
\<close>

fun compileFunction :: "(string \<times> string) list \<Rightarrow> nat \<Rightarrow> func \<Rightarrow> comp \<Rightarrow> fault + comp"
  and compileRemainingFunctions :: "(string \<times> string) list \<Rightarrow> nat \<Rightarrow> nat \<Rightarrow> comp \<Rightarrow> fault + comp" where
  "compileFunction im fuel (Func fid name args body is_static is_async is_private) c0 =
     (let endLabel = take 99 (''end'' @ name);
          c1 = gen_label name c0;
          index = length (prog c1);
          c2 = push_fn fid (gen FFRAME null_op null_op null_op c1);
          c3 = gen MOV_FNC (Num (comp_reg name c2)) (Str name) (Num (if is_async then 1 else 0)) c2
      in
      ebind (if name = ''__static__constructor__'' then static_prologue im c3
             else if is_static
             then Inr (c3\<lparr>compiledStaticFunctions := compiledStaticFunctions c3 @ [name]\<rparr>)
             else Inr c3) (\<lambda>c4.
      ebind (compileBody fuel body c4) (\<lambda>c5.
      ebind (compileRemainingFunctions im fuel 0
              (gen_label (''end'' @ name) (gen RETURN null_op null_op null_op c5))) (\<lambda>c6.
      Inr (pop_fn (patch_frame index fid endLabel c6))))))"
| "compileRemainingFunctions im 0 i c =
     (if i < length (functionsToCompile (top_table c)) then Inl Out_Of_Fuel else Inr (clear_functions c))"
| "compileRemainingFunctions im (Suc fuel) i c =
     (if i < length (functionsToCompile (top_table c))
      then ebind (compileFunction im fuel (functionsToCompile (top_table c) ! i) c)
             (compileRemainingFunctions im fuel (i + 1))
      else Inr (clear_functions c))"

definition compileClass :: "nat \<Rightarrow> class_decl \<Rightarrow> comp \<Rightarrow> fault + comp" where
  "compileClass fuel cls c0 =
     (let endLabel = take 99 (''end'' @ cls_name cls);
          im = importsMap cls;
          c1 = gen_label (cls_name cls) c0;
          index = length (prog c1);
          c2 = gen CREATE_THIS null_op null_op null_op (gen FFRAME null_op null_op null_op c1);
          c3 = push_fn (cls_id cls) c2;
          c4 = fold (\<lambda>ident x. gen POP (Num (comp_reg ident x)) null_op null_op x) (cls_args cls) c3
      in
      ebind (compileBody fuel (cls_body cls) c4) (\<lambda>c5.
      ebind (compileRemainingFunctions im fuel 0
              (gen_label (''end'' @ cls_name cls) (gen RETURN null_op null_op null_op c5))) (\<lambda>c6.
      Inr (pop_fn (patch_frame index (cls_id cls) endLabel c6)))))"

text \<open>The compiler's constructor: addresses, then code, then the optimiser.\<close>

definition comp_init :: "class_decl \<Rightarrow> comp" where
  "comp_init cls = \<lparr>prog = [], ctables = addr_tables (calculateClass cls addr_init),
     functionsStack = [], loopEndLabelsStack = [], loopStartLabelsStack = [], finallyBlocks = [],
     compiledStaticFunctions = [], labelCount = 0\<rparr>"

definition compile :: "nat \<Rightarrow> class_decl \<Rightarrow> fault + (program \<times> tables)" where
  "compile fuel cls =
     ebind (compileClass fuel cls (comp_init cls)) (\<lambda>c.
       case optimize (prog c) of
         None \<Rightarrow> Inl Out_Of_Bounds
       | Some p \<Rightarrow> Inr (p, ctables c))"

section \<open>What compiling inside a function may do\<close>

text \<open>The functions a body declares, those of nested blocks included, not those of nested functions.\<close>

fun decls_stmt :: "stmt \<Rightarrow> func list"
  and decls_node :: "ast \<Rightarrow> func list"
  and decls :: "stmt list \<Rightarrow> func list" where
  "decls_stmt (Statement ret brk cont node) = decls_node node"
| "decls_node (Function_node f) = [f]"
| "decls_node (Loop_node start iter cond body) = decls body"
| "decls_node (Body_node body) = decls body"
| "decls_node (Conditional_node cond body None) = decls body"
| "decls_node (Conditional_node cond body (Some eb)) = decls body @ decls eb"
| "decls_node (Try_node tb cb None x) = decls tb @ decls cb"
| "decls_node (Try_node tb cb (Some fb) x) = decls tb @ decls cb @ decls fb"
| "decls_node _ = []"
| "decls [] = []"
| "decls (s # ss) = decls_stmt s @ decls ss"

abbreviation frame_top :: "comp \<Rightarrow> nat" where
  "frame_top c \<equiv> fk_top (top_table c)"

definition all_ok :: "comp \<Rightarrow> bool" where
  "all_ok c \<longleftrightarrow> (\<forall>i. frame_ok (ctables c i))"

definition body_instr :: "nat \<Rightarrow> z_instruction \<Rightarrow> bool" where
  "body_instr n x \<longleftrightarrow> instr_ok n x \<and> opc x \<noteq> FFRAME \<and> (is_label x \<longrightarrow> r1 x = null_op)"

definition same_stacks :: "comp \<Rightarrow> comp \<Rightarrow> bool" where
  "same_stacks c c' \<longleftrightarrow> loopEndLabelsStack c' = loopEndLabelsStack c \<and> finallyBlocks c' = finallyBlocks c"

text \<open>
  \<open>grown D c c'\<close>: still in the same function, whose symbols are kept and whose frame may
  have grown; only its tables changed; functions of \<open>D\<close> were put off; code was appended that
  stays in the frame.
\<close>

definition grown :: "func set \<Rightarrow> comp \<Rightarrow> comp \<Rightarrow> bool" where
  "grown D c c' \<longleftrightarrow> functionsStack c' = functionsStack c \<and> all_ok c' \<and>
     (\<forall>i. i \<noteq> top_fn c \<longrightarrow> ctables c' i = ctables c i) \<and>
     symbolTable (top_table c') = symbolTable (top_table c) \<and> frame_top c \<le> frame_top c' \<and>
     (\<exists>fs. functionsToCompile (top_table c') = functionsToCompile (top_table c) @ fs \<and> set fs \<subseteq> D) \<and>
     (\<exists>is. prog c' = prog c @ is \<and> (\<forall>x \<in> set is. body_instr (frame_top c') x))"

definition kept :: "func set \<Rightarrow> comp \<Rightarrow> comp \<Rightarrow> bool" where
  "kept D c c' \<longleftrightarrow> grown D c c' \<and> same_stacks c c'"

lemma grown_refl: "all_ok c \<Longrightarrow> grown D c c"
  by (simp add: grown_def)

lemma grown_fn: "grown D c c' \<Longrightarrow> top_fn c' = top_fn c"
  by (simp add: grown_def top_fn_def)

lemma grown_ok: "grown D c c' \<Longrightarrow> all_ok c'"
  by (simp add: grown_def)

lemma grown_top: "grown D c c' \<Longrightarrow> frame_top c \<le> frame_top c'"
  by (simp add: grown_def)

lemma body_instr_mono: "body_instr m x \<Longrightarrow> m \<le> n \<Longrightarrow> body_instr n x"
  using instr_ok_mono by (auto simp: body_instr_def)

lemma grown_trans:
  assumes "grown D a b" "grown D b c"
  shows "grown D a c"
proof -
  obtain xs ys where "prog b = prog a @ xs" "prog c = prog b @ ys"
    and x: "\<forall>i \<in> set xs. body_instr (frame_top b) i" and y: "\<forall>i \<in> set ys. body_instr (frame_top c) i"
    using assms by (auto simp: grown_def)
  then have p: "prog c = prog a @ (xs @ ys)" by simp
  have q: "\<forall>i \<in> set (xs @ ys). body_instr (frame_top c) i"
    using x y grown_top[OF assms(2)] body_instr_mono by fastforce
  obtain fs gs where f: "functionsToCompile (top_table b) = functionsToCompile (top_table a) @ fs" "set fs \<subseteq> D"
    "functionsToCompile (top_table c) = functionsToCompile (top_table b) @ gs" "set gs \<subseteq> D"
    using assms by (auto simp: grown_def)
  have t: "\<forall>i. i \<noteq> top_fn a \<longrightarrow> ctables c i = ctables a i"
    using assms grown_fn[OF assms(1)] by (simp add: grown_def)
  show ?thesis unfolding grown_def
    using p q t f grown_top[OF assms(1)] grown_top[OF assms(2)] assms
    by (intro conjI exI[of _ "xs @ ys"] exI[of _ "fs @ gs"]) (auto simp: grown_def)
qed

lemma same_stacks_refl [simp]: "same_stacks c c"
  by (simp add: same_stacks_def)

lemma same_stacks_trans: "same_stacks a b \<Longrightarrow> same_stacks b c \<Longrightarrow> same_stacks a c"
  by (simp add: same_stacks_def)

lemma kept_refl: "all_ok c \<Longrightarrow> kept D c c"
  by (simp add: kept_def grown_refl)

lemma kept_trans: "kept D a b \<Longrightarrow> kept D b c \<Longrightarrow> kept D a c"
  unfolding kept_def using grown_trans same_stacks_trans by blast

lemma kept_ok: "kept D c c' \<Longrightarrow> all_ok c'"
  unfolding kept_def using grown_ok by blast

lemma kept_top: "kept D c c' \<Longrightarrow> frame_top c \<le> frame_top c'"
  unfolding kept_def using grown_top by blast

lemma frame_le: "r \<le> frame_top c \<Longrightarrow> kept D c c' \<Longrightarrow> r \<le> frame_top c'"
  using kept_top le_trans by blast

lemma gen_fields [simp]:
  "ctables (gen oc a b d c) = ctables c" "functionsStack (gen oc a b d c) = functionsStack c"
  "top_fn (gen oc a b d c) = top_fn c" "top_table (gen oc a b d c) = top_table c"
  "same_stacks x (gen oc a b d c) = same_stacks x c"
  "prog (gen oc a b d c) = prog c @ [instruction_new oc a b d]"
  "comp_reg y (gen oc a b d c) = comp_reg y c" "all_ok (gen oc a b d c) = all_ok c"
  "compiledStaticFunctions (gen oc a b d c) = compiledStaticFunctions c"
  "loopEndLabelsStack (gen oc a b d c) = loopEndLabelsStack c" "finallyBlocks (gen oc a b d c) = finallyBlocks c"
  by (simp_all add: gen_def top_fn_def top_table_def addInstruction_def same_stacks_def comp_reg_def all_ok_def)

lemma gen_label_gen: "gen_label s c = gen LABEL (Str (take 98 s)) null_op null_op c"
  by (simp add: gen_label_def gen_def addLabel_def)

lemma kept_gen [emits]:
  "kept D c x \<Longrightarrow> body_instr (frame_top x) (instruction_new oc a b d) \<Longrightarrow> kept D c (gen oc a b d x)"
  by (auto simp: kept_def grown_def)

lemma body_label [simp]: "body_instr n (instruction_new LABEL (Str s) null_op null_op)"
  by (simp add: body_instr_def is_label_def)

lemma kept_label [emits]: "kept D c x \<Longrightarrow> kept D c (gen_label s x)"
  by (simp add: gen_label_gen kept_gen)

lemma body_instr_new [simp]:
  "oc \<noteq> LABEL \<Longrightarrow> oc \<noteq> FFRAME \<Longrightarrow> body_instr n (instruction_new oc a b d) \<longleftrightarrow> instr_ok n (instruction_new oc a b d)"
  by (simp add: body_instr_def is_label_def)

section \<open>Expressions and temporaries in this state\<close>

lemma view_simps [simp]: "code (view c) = prog c" "frame (view c) = top_table c"
  by (simp_all add: view_def)

lemma top_reg_view [simp]: "top_reg (view c) = frame_top c"
  by simp

lemma put_view_fields [simp]:
  "prog (put_view st c) = code st" "top_table (put_view st c) = frame st" "top_fn (put_view st c) = top_fn c"
  "functionsStack (put_view st c) = functionsStack c" "same_stacks x (put_view st c) = same_stacks x c"
  "finallyBlocks (put_view st c) = finallyBlocks c" "loopEndLabelsStack (put_view st c) = loopEndLabelsStack c"
  by (simp_all add: put_view_def top_table_def top_fn_def same_stacks_def)

lemma kept_put_view:
  assumes ok: "all_ok c" and e: "extends (view c) st"
  shows "kept D c (put_view st c)"
proof -
  obtain xs where xs: "code st = prog c @ xs"
    "\<forall>i \<in> set xs. instr_ok (top_reg st) i \<and> \<not> is_label i \<and> opc i \<notin> {RETURN, FFRAME}"
    using e by (auto simp: extends_def)
  have "all_ok (put_view st c)" using ok e by (auto simp: all_ok_def put_view_def extends_def)
  moreover have "\<forall>i. i \<noteq> top_fn c \<longrightarrow> ctables (put_view st c) i = ctables c i" by (simp add: put_view_def)
  ultimately show ?thesis using e xs
    by (auto simp: kept_def grown_def extends_def body_instr_def)
qed

lemma comp_expr_kept:
  assumes "comp_expr e dst c = Inr (r, c')" "all_ok c" "dst \<le> frame_top c"
  shows "kept D c c'" "r \<le> frame_top c'"
proof -
  obtain st where st: "compileExpression dst False e (view c) = Inr (r, st)" "c' = put_view st c"
    using assms(1) by (auto simp: comp_expr_def ebind_Inr_iff)
  have f: "frame_ok (frame (view c))" using assms(2) by (simp add: all_ok_def top_table_def)
  have "delivers (\<not> supported e) (view c) (compileExpression dst False e (view c))"
    using assms(3) by (intro delivers_all(1)) simp
  with st(1) f have e: "extends (view c) st" "r \<le> top_reg st" by (auto simp: delivers_def)
  show "kept D c c'" unfolding st(2) by (rule kept_put_view[OF assms(2) e(1)])
  show "r \<le> frame_top c'" unfolding st(2) using e(2) by simp
qed

lemma comp_temp_kept:
  assumes "comp_temp c = Inr (r, c')" "all_ok c"
  shows "kept D c c'" "r \<le> frame_top c'" "0 < r"
proof -
  obtain st where st: "new_temp (view c) = Inr (r, st)" "c' = put_view st c"
    using assms(1) by (auto simp: comp_temp_def ebind_Inr_iff)
  have f: "frame_ok (frame (view c))" using assms(2) by (simp add: all_ok_def top_table_def)
  from new_temp_ok[OF f] st(1) have e: "extends (view c) st" "0 < r" "r \<le> top_reg st" by auto
  show "kept D c c'" unfolding st(2) by (rule kept_put_view[OF assms(2) e(1)])
  show "r \<le> frame_top c'" "0 < r" unfolding st(2) using e(2,3) by simp_all
qed

lemma kept_free [emits]: "kept D c x \<Longrightarrow> kept D c (comp_free r x)"
proof -
  assume k: "kept D c x"
  then have ok: "all_ok x" by (rule kept_ok)
  then have "frame_ok (frame (view x))" by (simp add: all_ok_def top_table_def)
  then have "extends (view x) (release r (view x))" by (intro emits extends_refl)
  then show ?thesis unfolding comp_free_def using kept_trans[OF k kept_put_view[OF ok]] by blast
qed

lemma comp_free_top [simp]: "all_ok c \<Longrightarrow> frame_top (comp_free r c) = frame_top c"
proof -
  assume "all_ok c"
  then have "frame_ok (frame (view c))" by (simp add: all_ok_def top_table_def)
  from release_top[OF this, of r] show ?thesis by (simp add: comp_free_def)
qed

lemma comp_reg_le: "all_ok c \<Longrightarrow> comp_reg x c \<le> frame_top c"
  using lookup_le[of "view c" x] by (simp add: comp_reg_def lookup_def all_ok_def top_table_def)

section \<open>Statements keep the state in order\<close>

text \<open>Fields that play no part in \<open>kept\<close>, and the two stacks on their own.\<close>

lemma kept_upd [simp]:
  "kept D (c\<lparr>labelCount := n\<rparr>) c' = kept D c c'" "kept D c (c'\<lparr>labelCount := n\<rparr>) = kept D c c'"
  "kept D c (c'\<lparr>loopStartLabelsStack := q\<rparr>) = kept D c c'"
  "kept D c (c'\<lparr>compiledStaticFunctions := p\<rparr>) = kept D c c'"
  by (simp_all add: kept_def grown_def same_stacks_def all_ok_def top_table_def top_fn_def)

lemma upd_fields [simp]:
  "top_table (c\<lparr>labelCount := n\<rparr>) = top_table c" "all_ok (c\<lparr>labelCount := n\<rparr>) = all_ok c"
  "top_table (c\<lparr>loopStartLabelsStack := q\<rparr>) = top_table c" "all_ok (c\<lparr>loopStartLabelsStack := q\<rparr>) = all_ok c"
  "top_table (c\<lparr>loopEndLabelsStack := q\<rparr>) = top_table c" "all_ok (c\<lparr>loopEndLabelsStack := q\<rparr>) = all_ok c"
  "top_table (c\<lparr>finallyBlocks := b\<rparr>) = top_table c" "all_ok (c\<lparr>finallyBlocks := b\<rparr>) = all_ok c"
  "top_table (c\<lparr>compiledStaticFunctions := p\<rparr>) = top_table c" "all_ok (c\<lparr>compiledStaticFunctions := p\<rparr>) = all_ok c"
  by (simp_all add: all_ok_def top_table_def top_fn_def)

lemma grown_upd [simp]:
  "grown D (c\<lparr>loopEndLabelsStack := q\<rparr>) c' = grown D c c'" "grown D c (c'\<lparr>loopEndLabelsStack := q\<rparr>) = grown D c c'"
  "grown D (c\<lparr>loopStartLabelsStack := q\<rparr>) c' = grown D c c'" "grown D c (c'\<lparr>loopStartLabelsStack := q\<rparr>) = grown D c c'"
  "grown D (c\<lparr>finallyBlocks := b\<rparr>) c' = grown D c c'" "grown D c (c'\<lparr>finallyBlocks := b\<rparr>) = grown D c c'"
  "grown D (c\<lparr>labelCount := n\<rparr>) c' = grown D c c'" "grown D c (c'\<lparr>labelCount := n\<rparr>) = grown D c c'"
  by (simp_all add: grown_def all_ok_def top_table_def top_fn_def)

definition fin_in :: "func set \<Rightarrow> comp \<Rightarrow> bool" where
  "fin_in D c \<longleftrightarrow> (\<forall>fb \<in> set (finallyBlocks c). set (decls fb) \<subseteq> D)"

lemma kept_fin: "kept D c c' \<Longrightarrow> fin_in D c' = fin_in D c"
  by (simp add: kept_def same_stacks_def fin_in_def)

lemma kept_hoist: "all_ok c \<Longrightarrow> kept D c (hoist body c)"
proof -
  have "kept D c x \<Longrightarrow> kept D c (hoist body x)" if "all_ok c" for x
    unfolding hoist_def
  proof (induction body arbitrary: x)
    case (Cons s ss)
    have "kept D c (hoist1 s x)" using Cons.prems kept_ok[OF Cons.prems]
      by (auto simp: hoist1_def comp_reg_le intro: emits split: ast.splits)
    with Cons.IH show ?case by simp
  qed simp
  then show "all_ok c \<Longrightarrow> kept D c (hoist body c)" using kept_refl by blast
qed

lemma kept_compileVar:
  assumes "compileVar ident val is_sync c = Inr c'" "all_ok c"
  shows "kept D c c'"
proof -
  let ?reg = "comp_reg ident c"
  obtain valueReg c1 where e: "comp_expr val ?reg c = Inr (valueReg, c1)"
    using assms(1) by (auto simp: compileVar_def Let_def ebind_Inr_iff)
  note k = comp_expr_kept[OF e assms(2) comp_reg_le[OF assms(2)]]
  have ok: "all_ok c1" by (rule kept_ok[OF k(1)])
  have reg: "?reg \<le> frame_top c1" using frame_le[OF comp_reg_le[OF assms(2)] k(1)] .
  show ?thesis
  proof (cases is_sync)
    case True
    then obtain t c2 where t: "comp_temp c1 = Inr (t, c2)" and
      c': "c' = comp_free t (gen SET_FIELD (Num 1) (Num t) (Num valueReg) (gen MOV_STR (Num t) (Str ident) null_op c2))"
      using assms(1) e by (auto simp: compileVar_def Let_def ebind_Inr_iff)
    note k2 = comp_temp_kept[OF t ok]
    show ?thesis unfolding c' using k2 frame_le[OF k(2) k2(1)] kept_trans[OF k(1) k2(1)]
      by (intro emits) auto
  next
    case False
    then have c': "c' = (if valueReg \<noteq> ?reg then comp_free valueReg (gen MOV (Num ?reg) (Num valueReg) null_op c1) else c1)"
      using assms(1) e by (auto simp: compileVar_def Let_def split: if_splits)
    show ?thesis unfolding c' using k reg by (auto intro!: kept_free kept_gen)
  qed
qed

lemma kept_break: "compileBreak brk c = Inr c' \<Longrightarrow> all_ok c \<Longrightarrow> kept D c c'"
  by (auto simp: compileBreak_def split: if_splits list.splits intro!: emits kept_refl)

lemma kept_later: "all_ok c \<Longrightarrow> f \<in> D \<Longrightarrow> kept D c (addFunctionToCompileLater f c)"
  by (auto simp: kept_def grown_def addFunctionToCompileLater_def all_ok_def top_table_def top_fn_def
      same_stacks_def frame_ok_def fk_wf_def fk_nsyms_def fk_top_def)

lemma kept_effect: "effect_expr e c = Inr c' \<Longrightarrow> all_ok c \<Longrightarrow> kept D c c'"
proof (cases e)
  case (Some x)
  assume "effect_expr e c = Inr c'" "all_ok c"
  then obtain r y where "comp_expr x 0 c = Inr (r, y)" "c' = comp_free r y"
    using Some by (auto simp: effect_expr_def ebind_Inr_iff)
  with comp_expr_kept[OF this(1) \<open>all_ok c\<close>] show ?thesis by (auto intro: kept_free)
qed (simp add: effect_expr_def kept_refl)

lemma kept_loop_condition: "loop_condition e l c = Inr c' \<Longrightarrow> all_ok c \<Longrightarrow> kept D c c'"
proof (cases e)
  case (Some x)
  assume "loop_condition e l c = Inr c'" "all_ok c"
  then obtain r y where "comp_expr x 0 c = Inr (r, y)" "c' = comp_free r (gen JMP_TRUE (Num r) (Str l) null_op y)"
    using Some by (auto simp: loop_condition_def ebind_Inr_iff)
  with comp_expr_kept[OF this(1) \<open>all_ok c\<close>] show ?thesis by (auto intro!: kept_free kept_gen)
qed (simp add: loop_condition_def kept_refl)

text \<open>The brackets: what was pushed is popped again.\<close>

lemma push_loop_kept:
  assumes "push_loop c0 = (lstart, lend, lcond, c)"
  shows "all_ok c = all_ok c0" "fin_in D c = fin_in D c0" "kept D c x \<Longrightarrow> kept D c0 (pop_loop x)"
  using assms
  by (auto simp: push_loop_def next_label_def pop_loop_def kept_def same_stacks_def fin_in_def all_ok_def)

lemma two_labels_kept:
  assumes "two_labels s1 s2 c0 = (l1, l2, c)"
  shows "all_ok c = all_ok c0" "fin_in D c = fin_in D c0" "kept D c x = kept D c0 x"
  using assms by (auto simp: two_labels_def next_label_def fin_in_def all_ok_def)

lemma push_finally_kept:
  shows "all_ok (push_finally fb c) = all_ok c"
    and "fin_in D c \<Longrightarrow> (\<And>b. fb = Some b \<Longrightarrow> set (decls b) \<subseteq> D) \<Longrightarrow> fin_in D (push_finally fb c)"
    and "kept D (push_finally fb c) x \<Longrightarrow> kept D c (pop_finally fb x)"
  by (auto simp: push_finally_def pop_finally_def kept_def same_stacks_def fin_in_def all_ok_def
      split: option.splits)

lemma kept_all:
  "compileStmt fuel s c = Inr c' \<Longrightarrow> all_ok c \<Longrightarrow> set (decls_stmt s) \<subseteq> D \<Longrightarrow> fin_in D c \<Longrightarrow> kept D c c'"
  "compileNode fuel ret n c = Inr c' \<Longrightarrow> all_ok c \<Longrightarrow> set (decls_node n) \<subseteq> D \<Longrightarrow> fin_in D c \<Longrightarrow> kept D c c'"
  "compileStmts fuel ss c = Inr c' \<Longrightarrow> all_ok c \<Longrightarrow> set (decls ss) \<subseteq> D \<Longrightarrow> fin_in D c \<Longrightarrow> kept D c c'"
  "compileBody fuel ss c = Inr c' \<Longrightarrow> all_ok c \<Longrightarrow> set (decls ss) \<subseteq> D \<Longrightarrow> fin_in D c \<Longrightarrow> kept D c c'"
  "compileFinally fuel i c = Inr c' \<Longrightarrow> all_ok c \<Longrightarrow> fin_in D c \<Longrightarrow> kept D c c'"
proof (induction fuel s c and fuel ret n c and fuel ss c and fuel ss c and fuel i c arbitrary: c' and c' and c' and c' and c'
    rule: compileStmt_compileNode_compileStmts_compileBody_compileFinally.induct)
  case (1 fuel ret brk cont node c)
  then obtain c1 where c1: "compileBreak brk c = Inr c1" "compileNode fuel ret node c1 = Inr c'"
    by (auto simp: ebind_Inr_iff)
  have k: "kept D c c1" using kept_break[OF c1(1) 1(3)] .
  have "kept D c1 c'" using 1(1)[OF c1] kept_ok[OF k] kept_fin[OF k] 1(4,5) by simp
  with k show ?case by (rule kept_trans)
next
  case (2 fuel ret f c)
  then show ?case by (auto intro: kept_later)
next
  case (3 fuel ret ident val is_static is_private is_sync c)
  then show ?case by (auto intro: kept_compileVar)
next
  case (4 fuel ret start iter cond body c0)
  obtain lstart lend lcond c3 where p: "push_loop c0 = (lstart, lend, lcond, c3)"
    by (cases "push_loop c0") auto
  let ?c4 = "\<lambda>c4. gen_label lstart (gen JMP (Str lcond) null_op null_op c4)"
  from 4(2) p obtain c4 c5 c6 c7 where
    a: "effect_expr start c3 = Inr c4" and b: "compileBody fuel body (?c4 c4) = Inr c5" and
    i: "effect_expr iter c5 = Inr c6" and d: "loop_condition cond lstart (gen_label lcond c6) = Inr c7" and
    c': "c' = pop_loop (gen_label lend c7)"
    by (auto simp: ebind_Inr_iff simp del: compileBody.simps)
  have ok3: "all_ok c3" using 4(3) push_loop_kept(1)[OF p] by simp
  have k4: "kept D c3 (?c4 c4)" using kept_effect[OF a ok3] by (intro kept_label kept_gen) auto
  have "kept D (?c4 c4) c5"
    using 4(1)[OF p[symmetric] refl refl a b] kept_ok[OF k4] kept_fin[OF k4] push_loop_kept(2)[OF p] 4(4,5)
    by simp
  with k4 have k5: "kept D c3 c5" by (rule kept_trans)
  have k6: "kept D c3 (gen_label lcond c6)"
    using kept_label[OF kept_trans[OF k5 kept_effect[OF i kept_ok[OF k5]]]] .
  show ?case unfolding c'
    by (rule push_loop_kept(3)[OF p], rule kept_label, rule kept_trans[OF k6])
      (rule kept_loop_condition[OF d kept_ok[OF k6]])
next
  case (5 fuel ret body c)
  then show ?case by simp
next
  case (6 fuel ret cond body elseBody c0)
  obtain lfail lend c2 where p: "two_labels ''.else_'' ''.end_cond_'' c0 = (lfail, lend, c2)"
    by (cases "two_labels ''.else_'' ''.end_cond_'' c0") auto
  let ?c3 = "\<lambda>r c3. comp_free r (gen JMP_NOT_TRUE (Num r) (Str lfail) null_op c3)"
  let ?c4 = "\<lambda>c4. gen_label lfail (gen JMP (Str lend) null_op null_op c4)"
  from 6(3) p obtain r c3 c4 c5 where
    a: "comp_expr cond 0 c2 = Inr (r, c3)" and b: "compileBody fuel body (?c3 r c3) = Inr c4" and
    e: "(case elseBody of None \<Rightarrow> Inr (gen_label lfail c4) | Some eb \<Rightarrow> compileBody fuel eb (?c4 c4)) = Inr c5" and
    c': "c' = gen_label lend c5"
    by (auto simp: ebind_Inr_iff simp del: compileBody.simps)
  have ok2: "all_ok c2" using 6(4) two_labels_kept(1)[OF p] by simp
  have k3: "kept D c2 (?c3 r c3)" using comp_expr_kept[OF a ok2] by (auto intro!: kept_free kept_gen)
  have fin2: "fin_in D c2" using 6(6) two_labels_kept(2)[OF p] by simp
  have dl: "set (decls body) \<subseteq> D" "\<And>eb. elseBody = Some eb \<Longrightarrow> set (decls eb) \<subseteq> D"
    using 6(5) by (cases elseBody; simp)+
  have "kept D (?c3 r c3) c4"
    using 6(1)[OF p[symmetric] refl a refl b] kept_ok[OF k3] kept_fin[OF k3] fin2 dl(1) by simp
  with k3 have k4: "kept D c2 c4" by (rule kept_trans)
  have k5: "kept D c2 c5"
  proof (cases elseBody)
    case None
    with e k4 show ?thesis by (auto intro: kept_label)
  next
    case (Some eb)
    have k4': "kept D c2 (?c4 c4)" using k4 by (intro kept_label kept_gen) auto
    have "kept D (?c4 c4) c5"
      using 6(2)[OF p[symmetric] refl a refl b Some] e Some kept_ok[OF k4'] kept_fin[OF k4'] fin2 dl(2)[OF Some]
      by simp
    with k4' show ?thesis by (rule kept_trans)
  qed
  show ?case unfolding c' using kept_label[OF k5] two_labels_kept(3)[OF p] by simp
next
  case (7 fuel ret tryBody catchBody finallyBody catchIdent c0)
  let ?c1 = "push_finally finallyBody c0"
  obtain lcatch lfinally c2 where p: "two_labels ''.catch_'' ''.finally_'' ?c1 = (lcatch, lfinally, c2)"
    by (cases "two_labels ''.catch_'' ''.finally_'' ?c1") auto
  let ?c2 = "gen SET_CATCH (Str lcatch) (Str lfinally) null_op c2"
  let ?c4 = "\<lambda>c3. gen_label lcatch (gen JMP (Str lfinally) null_op null_op c3)"
  let ?c5 = "\<lambda>c4. gen POP (Num (comp_reg catchIdent c4)) null_op null_op c4"
  from 7(4) p obtain c3 c5 c6 where
    t: "compileBody fuel tryBody ?c2 = Inr c3" and
    h: "compileBody fuel catchBody (?c5 (?c4 c3)) = Inr c5" and
    f: "(case finallyBody of None \<Rightarrow> Inr (gen_label lfinally c5)
         | Some fb \<Rightarrow> compileBody fuel fb (gen_label lfinally c5)) = Inr c6" and
    c': "c' = pop_finally finallyBody (gen CLEAR_CATCH null_op null_op null_op c6)"
    by (auto simp: ebind_Inr_iff Let_def simp del: compileBody.simps)
  have ok2: "all_ok c2" using 7(5) two_labels_kept(1)[OF p] by (simp add: push_finally_kept(1))
  have dl: "set (decls tryBody) \<subseteq> D" "set (decls catchBody) \<subseteq> D" "\<And>fb. finallyBody = Some fb \<Longrightarrow> set (decls fb) \<subseteq> D"
    using 7(6) by (cases finallyBody; simp)+
  have fin2: "fin_in D c2" using push_finally_kept(2)[OF 7(7) dl(3)] two_labels_kept(2)[OF p] by simp
  have k2: "kept D c2 ?c2" using ok2 by (auto intro!: kept_gen kept_refl)
  have "kept D ?c2 c3" using 7(1)[OF p[symmetric] refl t] kept_ok[OF k2] kept_fin[OF k2] fin2 dl(1) by simp
  then have k4: "kept D c2 (?c4 c3)" using kept_trans[OF k2] by (intro kept_label kept_gen) auto
  then have k4': "kept D c2 (?c5 (?c4 c3))" using comp_reg_le[OF kept_ok[OF k4]] by (auto intro!: kept_gen)
  have "kept D (?c5 (?c4 c3)) c5"
    using 7(2)[OF p[symmetric] refl t refl h] kept_ok[OF k4'] kept_fin[OF k4'] fin2 dl(2) by simp
  from kept_label[OF kept_trans[OF k4' this]] have k5: "kept D c2 (gen_label lfinally c5)" .
  have "kept D (gen_label lfinally c5) c6"
  proof (cases finallyBody)
    case None
    with f kept_refl[OF kept_ok[OF k5]] show ?thesis by simp
  next
    case (Some fb)
    with 7(3)[OF p[symmetric] refl t refl h Some] f kept_ok[OF k5] kept_fin[OF k5] fin2 dl(3)[OF Some]
    show ?thesis by simp
  qed
  with k5 have "kept D c2 (gen CLEAR_CATCH null_op null_op null_op c6)"
    using kept_trans by (intro kept_gen) auto
  then have "kept D ?c1 (gen CLEAR_CATCH null_op null_op null_op c6)" using two_labels_kept(3)[OF p] by simp
  then show ?case unfolding c' by (rule push_finally_kept(3))
next
  case (8 fuel ret e c)
  from 8(2) obtain reg c1 c3 where e: "comp_expr e 0 c = Inr (reg, c1)" and
    f: "(if ret then ebind (compileFinally fuel 0 c1) (\<lambda>c2. Inr (gen RETURN (Num reg) null_op null_op c2)) else Inr c1) = Inr c3"
    and c': "c' = comp_free reg c3"
    by (simp only: compileNode.simps ebind_Inr_iff split_paired_Ex prod.case sum.inject) blast
  note k1 = comp_expr_kept[OF e 8(3)]
  have k3: "kept D c c3"
  proof (cases ret)
    case False
    with f k1 show ?thesis by simp
  next
    case True
    with f obtain c2 where c2: "compileFinally fuel 0 c1 = Inr c2" "c3 = gen RETURN (Num reg) null_op null_op c2"
      by (auto simp: ebind_Inr_iff)
    have "kept D c1 c2" using 8(1)[OF e refl True c2(1)] kept_ok[OF k1(1)] kept_fin[OF k1(1)] 8(5) k1(1) by simp
    with k1 frame_le[OF k1(2) this] kept_trans[OF k1(1) this] show ?thesis
      by (auto simp: c2(2) intro!: kept_gen)
  qed
  then show ?case unfolding c' by (rule kept_free)
next
  case (9 fuel c)
  then show ?case by (simp add: kept_refl)
next
  case (10 fuel s ss c)
  then obtain c1 where c1: "compileStmt fuel s c = Inr c1" "compileStmts fuel ss c1 = Inr c'"
    by (auto simp: ebind_Inr_iff)
  have k: "kept D c c1" using 10(1)[OF c1(1)] 10(4-6) by simp
  have "kept D c1 c'" using 10(2)[OF c1] kept_ok[OF k] kept_fin[OF k] 10(5,6) by simp
  with k show ?case by (rule kept_trans)
next
  case (11 fuel body c)
  have k: "kept D c (hoist body c)" by (rule kept_hoist[OF 11(3)])
  then show ?case using 11(1)[of c'] 11(2,4,5) kept_ok[OF k] kept_fin[OF k] kept_trans[OF k] by simp
next
  case (12 i c)
  then show ?case by (auto simp: kept_refl split: if_splits)
next
  case (13 fuel i c)
  show ?case
  proof (cases "i < length (finallyBlocks c)")
    case False
    with 13 show ?thesis by (simp add: kept_refl)
  next
    case True
    with 13(3) obtain c1 where c1: "compileBody fuel (finallyBlocks c ! i) c = Inr c1"
      "compileFinally fuel (i + 1) c1 = Inr c'" by (auto simp: ebind_Inr_iff)
    have "set (decls (finallyBlocks c ! i)) \<subseteq> D" using 13(5) True by (simp add: fin_in_def)
    then have k: "kept D c c1" using 13(1)[OF True c1(1)] 13(4,5) by simp
    have "kept D c1 c'" using 13(2)[OF True c1] kept_ok[OF k] kept_fin[OF k] 13(5) by simp
    with k show ?thesis by (rule kept_trans)
  qed
qed

section \<open>The code of functions\<close>

text \<open>
  Every instruction stays inside the frame announced by the FFRAME instruction that precedes it,
  compares write real registers and labels have a null operand.
\<close>

fun frames_ok :: "nat \<Rightarrow> program \<Rightarrow> bool" where
  "frames_ok n [] = True"
| "frames_ok n (x # xs) =
     (if opc x = FFRAME
      then (case (r0 x, r1 x, r2 x) of (Num m, Fun_ptr _, Str _) \<Rightarrow> frames_ok m xs | _ \<Rightarrow> False)
      else body_instr n x \<and> frames_ok n xs)"

lemma frames_ok_frame:
  "opc x = FFRAME \<Longrightarrow> frames_ok n (x # xs) \<longleftrightarrow>
    (\<exists>m f l. r0 x = Num m \<and> r1 x = Fun_ptr f \<and> r2 x = Str l \<and> frames_ok m xs)"
  by (cases "r0 x"; cases "r1 x"; cases "r2 x") auto

lemma frames_ok_body: "\<forall>x \<in> set is. body_instr n x \<Longrightarrow> frames_ok n (is @ rest) = frames_ok n rest"
  by (induction "is") (auto simp: body_instr_def)

lemma frames_ok_append: "frames_ok n xs \<Longrightarrow> (\<And>m. frames_ok m ys) \<Longrightarrow> frames_ok n (xs @ ys)"
  by (induction n xs rule: frames_ok.induct) (auto split: if_splits operand.splits)

lemma frames_ok_opt_wf: "frames_ok n p \<Longrightarrow> opt_wf p"
proof (induction n p rule: frames_ok.induct)
  case (2 n x xs)
  then have "opt_wf xs" by (auto split: if_splits operand.splits)
  moreover have "opt_wf [x]"
    using 2(3) by (auto simp: opt_wf_def body_instr_def instr_ok_def is_label_def is_cmp_cases split: if_splits)
  ultimately show ?case by (auto simp: opt_wf_def)
qed (simp add: opt_wf_def)

text \<open>The code of complete functions: in order whatever frame precedes it, closed by a label.\<close>

definition whole :: "program \<Rightarrow> bool" where
  "whole p \<longleftrightarrow> (\<forall>n. frames_ok n p) \<and> (p \<noteq> [] \<longrightarrow> ends_in_label p)"

lemma whole_append: "whole xs \<Longrightarrow> whole ys \<Longrightarrow> whole (xs @ ys)"
  unfolding whole_def using frames_ok_append by (auto simp: ends_in_label_def last_append)

definition around :: "comp \<Rightarrow> comp \<Rightarrow> bool" where
  "around c c' \<longleftrightarrow> functionsStack c' = functionsStack c \<and> same_stacks c c' \<and> all_ok c' \<and>
     (\<forall>i. symbolTable (ctables c' i) = symbolTable (ctables c i) \<and>
        fk_top (ctables c i) \<le> fk_top (ctables c' i)) \<and>
     (\<exists>is. prog c' = prog c @ is \<and> whole is)"

lemma around_refl: "all_ok c \<Longrightarrow> around c c"
  by (simp add: around_def whole_def)

lemma around_trans:
  assumes "around a b" "around b c"
  shows "around a c"
proof -
  obtain xs ys where "prog b = prog a @ xs" "whole xs" "prog c = prog b @ ys" "whole ys"
    using assms unfolding around_def by blast
  then have "\<exists>is. prog c = prog a @ is \<and> whole is"
    by (intro exI[of _ "xs @ ys"]) (simp add: whole_append)
  moreover have "fk_top (ctables a i) \<le> fk_top (ctables c i)" for i
    using assms le_trans unfolding around_def by blast
  moreover have "same_stacks a c" using assms same_stacks_trans unfolding around_def by blast
  ultimately show ?thesis using assms unfolding around_def by simp
qed

lemma around_ok: "around c c' \<Longrightarrow> all_ok c'"
  by (simp add: around_def)

lemma kept_tables:
  assumes "kept D c c'"
  shows "symbolTable (ctables c' i) = symbolTable (ctables c i) \<and> fk_top (ctables c i) \<le> fk_top (ctables c' i)"
proof -
  have g: "grown D c c'" and t: "top_fn c' = top_fn c" using assms grown_fn by (auto simp: kept_def)
  show ?thesis
  proof (cases "i = top_fn c")
    case True
    with g t show ?thesis unfolding grown_def top_table_def by simp
  next
    case False
    with g have "ctables c' i = ctables c i" unfolding grown_def by blast
    then show ?thesis by simp
  qed
qed

lemma kept_static_prologue:
  assumes "static_prologue im c0 = Inr c'" "all_ok c0"
  shows "kept D c0 c'"
proof -
  define c where "c = fold (\<lambda>(a, b). gen IMPORT_CLS (Str a) (Str b) null_op) im c0"
  have "kept D c0 x \<Longrightarrow> kept D c0 (fold (\<lambda>(a, b). gen IMPORT_CLS (Str a) (Str b) null_op) im x)" for x
  proof (induction im arbitrary: x)
    case (Cons p im)
    obtain a b where p: "p = (a, b)" by (cases p)
    have "kept D c0 (gen IMPORT_CLS (Str a) (Str b) null_op x)" by (rule kept_gen[OF Cons.prems]) simp
    from Cons.IH[OF this] show ?case by (simp add: p)
  qed simp
  then have k: "kept D c0 c" unfolding c_def using kept_refl[OF assms(2)] by blast
  obtain s n r c1 c3 c4 where t: "comp_temp c = Inr (s, c1)"
    "comp_temp (gen GET_FIELD_IMMEDIATE (Num 1) (Str ''__static__'') (Num s) c1) = Inr (n, c3)"
    "comp_temp c3 = Inr (r, c4)" and
    c': "c' = fold (\<lambda>nm x. gen SET_FIELD (Num s) (Num n) (Num r)
              (gen MOV_STR (Num n) (Str nm) null_op (gen MOV_FNC (Num r) (Str nm) null_op x)))
            (compiledStaticFunctions c4) c4"
    using assms(1) by (auto simp: static_prologue_def Let_def ebind_Inr_iff c_def)
  note t1 = comp_temp_kept[OF t(1) kept_ok[OF k]]
  have k2: "kept D c0 (gen GET_FIELD_IMMEDIATE (Num 1) (Str ''__static__'') (Num s) c1)"
    using t1 kept_trans[OF k t1(1)] by (intro kept_gen) auto
  note t2 = comp_temp_kept[OF t(2) kept_ok[OF k2]]
  have k3: "kept D c0 c3" by (rule kept_trans[OF k2 t2(1)])
  note t3 = comp_temp_kept[OF t(3) kept_ok[OF k3]]
  have k4: "kept D c0 c4" by (rule kept_trans[OF k3 t3(1)])
  have g: "frame_top (gen GET_FIELD_IMMEDIATE (Num 1) (Str ''__static__'') (Num s) c1) = frame_top c1" by simp
  have "s \<le> frame_top c3" using frame_le[OF _ t2(1), of s] t1(2) unfolding g .
  then have le: "s \<le> frame_top c4" "n \<le> frame_top c4" "r \<le> frame_top c4"
    using frame_le[OF _ t3(1)] t2(2) t3(2) by blast+
  have "kept D c0 x \<Longrightarrow> frame_top x = frame_top c4 \<Longrightarrow>
      kept D c0 (fold (\<lambda>nm x. gen SET_FIELD (Num s) (Num n) (Num r)
              (gen MOV_STR (Num n) (Str nm) null_op (gen MOV_FNC (Num r) (Str nm) null_op x))) ns x)" for x ns
  proof (induction ns arbitrary: x)
    case (Cons nm ns)
    show ?case using Cons.prems le by (simp add: Cons.IH kept_gen)
  qed simp
  then show ?thesis unfolding c' using k4 by blast
qed

text \<open>The code a function adds, once its FFRAME instruction is patched.\<close>

lemma patched_code:
  assumes p: "prog c = pre @ [x, y] @ body @ rest" and i: "index = length pre + 1" and y: "opc y = FFRAME"
  shows "prog (patch_frame index fid el c) =
    pre @ [x, y\<lparr>r0 := Num (fk_top (ctables c fid)), r1 := Fun_ptr fid, r2 := Str el\<rparr>] @ body @ rest"
  unfolding patch_frame_def using p i
  by (simp add: nth_append list_update_append fk_top_def add.commute)

lemma patch_fields [simp]:
  "ctables (patch_frame i f e c) = ctables c" "functionsStack (patch_frame i f e c) = functionsStack c"
  "same_stacks x (patch_frame i f e c) = same_stacks x c" "ctables (pop_fn c) = ctables c"
  "functionsStack (pop_fn c) = tl (functionsStack c)" "prog (pop_fn c) = prog c"
  "same_stacks x (pop_fn c) = same_stacks x c" "ctables (push_fn i c) = ctables c"
  "functionsStack (push_fn i c) = i # functionsStack c" "prog (push_fn i c) = prog c"
  "same_stacks (push_fn i c) x = same_stacks c x" "top_fn (push_fn i c) = i"
  "same_stacks (gen oc a b d c) x = same_stacks c x" "same_stacks (gen_label s c) x = same_stacks c x"
  "all_ok (push_fn i c) = all_ok c" "top_table (push_fn i c) = ctables c i"
  by (auto simp: patch_frame_def pop_fn_def push_fn_def same_stacks_def top_fn_def all_ok_def top_table_def
      gen_def gen_label_def)

lemma gen_label_fields [simp]:
  "ctables (gen_label s c) = ctables c" "functionsStack (gen_label s c) = functionsStack c"
  "prog (gen_label s c) = prog c @ [instruction_new LABEL (Str (take 98 s)) null_op null_op]"
  "all_ok (gen_label s c) = all_ok c" "top_table (gen_label s c) = top_table c"
  by (simp_all add: gen_label_gen)

text \<open>
  A frame: label, FFRAME, a body compiled in the frame's function, return, end label, and then the
  code of other functions.
\<close>

lemma framed_code:
  assumes k: "kept D (push_fn fid (gen FFRAME null_op null_op null_op (gen_label name c0))) c5"
    and r: "around (gen_label l (gen RETURN null_op null_op null_op c5)) c6" and ok: "all_ok c0"
  shows "around c0 (pop_fn (patch_frame (length (prog (gen_label name c0))) fid el c6))"
    and "prog (pop_fn (patch_frame (length (prog (gen_label name c0))) fid el c6)) \<noteq> prog c0"
    and "prog c0 = [] \<Longrightarrow> ends_in_label (prog (pop_fn (patch_frame (length (prog (gen_label name c0))) fid el c6)))"
proof -
  let ?x = "instruction_new LABEL (Str (take 98 name)) null_op null_op"
  let ?y = "instruction_new FFRAME null_op null_op null_op"
  let ?c2 = "push_fn fid (gen FFRAME null_op null_op null_op (gen_label name c0))"
  let ?c' = "pop_fn (patch_frame (length (prog (gen_label name c0))) fid el c6)"
  have fn5: "functionsStack c5 = fid # functionsStack c0" "top_fn c5 = fid"
    using k by (auto simp: kept_def grown_def top_fn_def)
  obtain bs where bs: "prog c5 = prog c0 @ [?x, ?y] @ bs" "\<forall>i \<in> set bs. body_instr (fk_top (ctables c5 fid)) i"
    using k fn5(2) by (auto simp: kept_def grown_def top_table_def)
  define body where "body = bs @ [instruction_new RETURN null_op null_op null_op,
    instruction_new LABEL (Str (take 98 l)) null_op null_op]"
  obtain rest where rest: "prog c6 = prog c0 @ [?x, ?y] @ body @ rest" "\<forall>n. frames_ok n rest"
    "rest \<noteq> [] \<longrightarrow> ends_in_label rest"
    using r bs(1) by (auto simp: around_def body_def whole_def)
  define m where "m = fk_top (ctables c6 fid)"
  have le: "fk_top (ctables c5 fid) \<le> m" using r by (simp add: around_def m_def)
  then have body: "\<forall>i \<in> set body. body_instr m i"
    using bs(2) body_instr_mono by (auto simp: body_def instr_ok_def instr_regs_def is_cmp_cases kinds_ok_def)
  have p': "prog ?c' = prog c0 @ [?x, ?y\<lparr>r0 := Num m, r1 := Fun_ptr fid, r2 := Str el\<rparr>] @ body @ rest"
    using patched_code[OF rest(1), of "length (prog (gen_label name c0))"] by (simp add: m_def)
  have "frames_ok n ([?x, ?y\<lparr>r0 := Num m, r1 := Fun_ptr fid, r2 := Str el\<rparr>] @ body @ rest)" for n
    using body rest(2) by (simp add: frames_ok_body)
  moreover have e: "ends_in_label (pre @ [x, y] @ body @ rest)" for pre x y
    using rest(3) by (auto simp: ends_in_label_def body_def is_label_def)
  ultimately have code: "\<exists>is. prog ?c' = prog c0 @ is \<and> whole is"
    unfolding p' whole_def using e[of "[]"] by (metis append_Nil)
  have ok6: "all_ok c6" using r by (rule around_ok)
  have t: "symbolTable (ctables c6 i) = symbolTable (ctables c0 i) \<and> fk_top (ctables c0 i) \<le> fk_top (ctables c6 i)" for i
    using kept_tables[OF k, of i] r le_trans by (fastforce simp: around_def)
  have st: "same_stacks c0 c6" using k r by (auto simp: kept_def around_def same_stacks_def gen_def gen_label_def push_fn_def)
  have "functionsStack c6 = fid # functionsStack c0" using r fn5(1) by (simp add: around_def)
  then show "around c0 ?c'" using code ok6 t st by (simp add: around_def all_ok_def)
  show "prog ?c' \<noteq> prog c0" unfolding p' by simp
  show "ends_in_label (prog ?c')" if "prog c0 = []"
    unfolding p' by (rule e)
qed

lemma fin_in_UNIV [simp]: "fin_in UNIV c"
  by (simp add: fin_in_def)

lemma all_ok_clear: "all_ok c \<Longrightarrow> around c (clear_functions c)"
  by (auto simp: around_def clear_functions_def all_ok_def same_stacks_def whole_def top_table_def top_fn_def
      frame_ok_def fk_wf_def fk_nsyms_def fk_top_def)

lemma around_all:
  "compileFunction im fuel f c = Inr c' \<Longrightarrow> all_ok c \<Longrightarrow> around c c'"
  "compileRemainingFunctions im fuel i c = Inr c' \<Longrightarrow> all_ok c \<Longrightarrow> around c c'"
proof (induction im fuel f c and im fuel i c arbitrary: c' and c'
    rule: compileFunction_compileRemainingFunctions.induct)
  case (1 im fuel fid name args body is_static is_async is_private c0)
  let ?c1 = "gen_label name c0"
  let ?c2 = "push_fn fid (gen FFRAME null_op null_op null_op ?c1)"
  let ?c3 = "gen MOV_FNC (Num (comp_reg name ?c2)) (Str name) (Num (if is_async then 1 else 0)) ?c2"
  from 1(2) obtain c4 c5 c6 where
    a: "(if name = ''__static__constructor__'' then static_prologue im ?c3
         else if is_static then Inr (?c3\<lparr>compiledStaticFunctions := compiledStaticFunctions ?c3 @ [name]\<rparr>)
         else Inr ?c3) = Inr c4" and
    b: "compileBody fuel body c4 = Inr c5" and
    r: "compileRemainingFunctions im fuel 0 (gen_label (''end'' @ name) (gen RETURN null_op null_op null_op c5)) = Inr c6" and
    c': "c' = pop_fn (patch_frame (length (prog ?c1)) fid (take 99 (''end'' @ name)) c6)"
    by (simp only: compileFunction.simps ebind_Inr_iff Let_def) blast
  have ok2: "all_ok ?c2" using 1(3) by simp
  have k3: "kept UNIV ?c2 ?c3" using kept_refl[OF ok2] comp_reg_le[OF ok2] by (intro kept_gen) auto
  have "kept UNIV ?c3 c4"
  proof (cases "name = ''__static__constructor__''")
    case True
    with a kept_static_prologue[OF _ kept_ok[OF k3]] show ?thesis by simp
  next
    case False
    with a kept_refl[OF kept_ok[OF k3]] show ?thesis by (auto split: if_splits)
  qed
  with k3 have k4: "kept UNIV ?c2 c4" by (rule kept_trans)
  have k5: "kept UNIV ?c2 c5" using kept_trans[OF k4 kept_all(4)[OF b kept_ok[OF k4]]] by simp
  have "all_ok (gen_label (''end'' @ name) (gen RETURN null_op null_op null_op c5))" using kept_ok[OF k5] by simp
  from 1(1)[OF refl refl refl refl refl a b r this]
  have "around (gen_label (''end'' @ name) (gen RETURN null_op null_op null_op c5)) c6" .
  from framed_code(1)[OF k5 this 1(3)] show ?case unfolding c' .
next
  case (2 im i c)
  show ?case using 2(1) all_ok_clear[OF 2(2)] by (auto split: if_splits)
next
  case (3 im fuel i c)
  show ?case
  proof (cases "i < length (functionsToCompile (top_table c))")
    case False
    with 3(3) all_ok_clear[OF 3(4)] show ?thesis by simp
  next
    case True
    with 3(3) obtain c1 where c1: "compileFunction im fuel (functionsToCompile (top_table c) ! i) c = Inr c1"
      "compileRemainingFunctions im fuel (i + 1) c1 = Inr c'" by (auto simp: ebind_Inr_iff)
    have a: "around c c1" by (rule 3(1)[OF True c1(1) 3(4)])
    show ?thesis by (rule around_trans[OF a 3(2)[OF True c1 around_ok[OF a]]])
  qed
qed

lemma push_gen: "push_fn i (gen oc a b d c) = gen oc a b d (push_fn i c)"
  by (simp add: push_fn_def gen_def)

lemma comp_init_ok: "all_ok (comp_init cls)"
proof -
  define st2 where "st2 = fold addToCurrentTable (cls_args cls) (addToCurrentTable ''this'' (push_function (cls_id cls) addr_init))"
  have g: "grows (push_function (cls_id cls) addr_init) (calculateClass cls addr_init)"
    unfolding calculateClass_def Let_def
    by (blast intro: grows_trans grows_addToCurrentTable grows_fold_addToCurrentTable grows_calculate(3))
  have "symtab_ok (symbolTable (addr_tables (push_function (cls_id cls) addr_init) i))"
    "registerTable (addr_tables (push_function (cls_id cls) addr_init) i) = []" for i
    by (simp_all add: push_function_def addr_init_def fkind_new_def symtab_ok_Nil)
  with g have "symtab_ok (symbolTable (addr_tables (calculateClass cls addr_init) i))"
    "registerTable (addr_tables (calculateClass cls addr_init) i) = []" for i
    by (simp_all add: grows_def)
  then show ?thesis
    by (simp add: comp_init_def all_ok_def frame_ok_def fk_wf_def fk_nsyms_def fk_top_def)
qed

lemma compileClass_code:
  assumes "compileClass fuel cls (comp_init cls) = Inr c"
  shows "frames_ok n (prog c)" "ends_in_label (prog c)" "all_ok c"
proof -
  let ?c0 = "comp_init cls"
  let ?c1 = "gen_label (cls_name cls) ?c0"
  let ?c2 = "push_fn (cls_id cls) (gen FFRAME null_op null_op null_op ?c1)"
  let ?pop = "\<lambda>ident x. gen POP (Num (comp_reg ident x)) null_op null_op x"
  have e: "push_fn (cls_id cls) (gen CREATE_THIS null_op null_op null_op (gen FFRAME null_op null_op null_op ?c1)) =
      gen CREATE_THIS null_op null_op null_op ?c2" by (rule push_gen)
  let ?c4 = "fold ?pop (cls_args cls) (gen CREATE_THIS null_op null_op null_op ?c2)"
  obtain c5 c6 where b: "compileBody fuel (cls_body cls) ?c4 = Inr c5" and
    r: "compileRemainingFunctions (importsMap cls) fuel 0
          (gen_label (''end'' @ cls_name cls) (gen RETURN null_op null_op null_op c5)) = Inr c6" and
    c: "c = pop_fn (patch_frame (length (prog ?c1)) (cls_id cls) (take 99 (''end'' @ cls_name cls)) c6)"
    using assms unfolding compileClass_def Let_def e ebind_Inr_iff by blast
  have ok: "all_ok ?c2" using comp_init_ok by simp
  have k3: "kept UNIV ?c2 (gen CREATE_THIS null_op null_op null_op ?c2)"
    using kept_refl[OF ok] by (intro kept_gen) auto
  have "kept UNIV ?c2 x \<Longrightarrow> kept UNIV ?c2 (fold ?pop as x)" for as x
  proof (induction as arbitrary: x)
    case (Cons a as)
    have "kept UNIV ?c2 (?pop a x)" using comp_reg_le[OF kept_ok[OF Cons.prems]] by (intro kept_gen[OF Cons.prems]) simp
    from Cons.IH[OF this] show ?case by simp
  qed simp
  with k3 have k4: "kept UNIV ?c2 ?c4" by blast
  have k5: "kept UNIV ?c2 c5" using kept_trans[OF k4 kept_all(4)[OF b kept_ok[OF k4]]] by simp
  have "around (gen_label (''end'' @ cls_name cls) (gen RETURN null_op null_op null_op c5)) c6"
    using around_all(2)[OF r] kept_ok[OF k5] by simp
  note f = framed_code[OF k5 this comp_init_ok, of "take 99 (''end'' @ cls_name cls)", folded c]
  have p0: "prog ?c0 = []" by (simp add: comp_init_def)
  show "ends_in_label (prog c)" using f(3)[OF p0] .
  show "frames_ok n (prog c)" "all_ok c" using f(1) p0 by (auto simp: around_def whole_def)
qed

lemma compile_tables_ok: "compile fuel cls = Inr (p, t) \<Longrightarrow> frame_ok (t f)"
  using compileClass_code(3)
  by (fastforce simp: compile_def ebind_Inr_iff all_ok_def split: option.splits)

section \<open>The optimiser keeps the frames\<close>

lemma frames_ok_Cons: "opc x \<noteq> FFRAME \<Longrightarrow> frames_ok n (x # xs) = (body_instr n x \<and> frames_ok n xs)"
  by simp

lemma body_jump_immediate:
  assumes "jump_immediate (opc x) = Some c" "body_instr n x" "body_instr n cur" "opc cur = MOV_NUMBER"
  shows "body_instr n \<lparr>opc = c, r0 = r0 x, r1 = r1 cur, r2 = r2 x\<rparr>" "c \<noteq> FFRAME"
proof -
  show "c \<noteq> FFRAME" using assms(1) by (rule jump_immediate_SomeE) simp_all
  show "body_instr n \<lparr>opc = c, r0 = r0 x, r1 = r1 cur, r2 = r2 x\<rparr>"
    by (insert assms(2-4), rule jump_immediate_SomeE[OF assms(1)])
      (simp_all add: body_instr_def instr_ok_def instr_regs_def is_cmp_cases is_label_def kinds_ok_def)
qed

lemma opt_iter_body:
  assumes "opt_iter cur nxt = Some (e, skip)" "opc cur \<noteq> FFRAME" "body_instr n cur"
    "\<And>x. nxt = Some x \<Longrightarrow> (if opc x = FFRAME then \<exists>i. r1 x = Fun_ptr i else body_instr n x)"
  shows "(\<forall>i. e = Some i \<longrightarrow> body_instr n i \<and> opc i \<noteq> FFRAME) \<and> (skip \<longrightarrow> (\<exists>x. nxt = Some x \<and> opc x \<noteq> FFRAME))"
  using assms(1)
proof (cases rule: opt_iter_cases)
  case (imm x c)
  then have "body_instr n x" "opc x \<noteq> FFRAME" using assms(4)[of x] by (auto simp: jump_immediate_def split: if_splits)
  then show ?thesis using imm body_jump_immediate[OF imm(4) _ assms(3) imm(3)] by simp
next
  case (swallow x)
  have "list_all (reg_le n) [r0 cur, r1 cur, r2 cur]"
    using swallow assms(3) by (auto simp: body_instr_def instr_ok_def instr_regs_def is_cmp_cases)
  then obtain k where "r2 cur = Num k" by (cases "r2 cur") auto
  then have "opc x \<noteq> FFRAME" using swallow assms(4)[of x] by auto
  then show ?thesis using swallow assms(2,3) by auto
next
  case (fuse x)
  have "list_all (reg_le n) [r0 cur, r1 cur, r2 cur]"
    using fuse assms(3) by (auto simp: body_instr_def instr_ok_def instr_regs_def is_cmp_cases)
  moreover have "is_text (r1 x)"
    using fuse assms(4)[of x] by (auto simp: body_instr_def instr_ok_def kinds_ok_def)
  ultimately show ?thesis using fuse
    by (auto simp: body_instr_def instr_ok_def instr_regs_def is_cmp_cases is_label_def fuse_jump_def kinds_ok_def)
qed (use assms(2,3) in auto)

lemma opt_pass_frames: "opt_pass p = Some q \<Longrightarrow> frames_ok n p \<Longrightarrow> frames_ok n q"
proof (induction p arbitrary: q n rule: opt_pass.induct)
  case 1
  then show ?case by simp
next
  case (2 cur rest)
  then obtain e skip out where it: "opt_iter cur (head_opt rest) = Some (e, skip)"
    and out: "opt_pass (if skip then tl rest else rest) = Some out"
    and q: "q = (case e of None \<Rightarrow> out | Some i \<Rightarrow> i # out)"
    by (auto split: option.splits prod.splits)
  show ?case
  proof (cases "opc cur = FFRAME")
    case True
    then have "e = Some cur" "\<not> skip" using it by (auto simp: opt_iter_def is_cmp_cases)
    with 2(1)[OF it refl out] 2(3) True q frames_ok_frame[OF True] show ?thesis by auto
  next
    case False
    have b: "body_instr n cur" "frames_ok n rest" using 2(3) False by simp_all
    have nx: "if opc x = FFRAME then \<exists>i. r1 x = Fun_ptr i else body_instr n x" if "head_opt rest = Some x" for x
      using b(2) that frames_ok_frame[of x] by (cases rest) (auto simp: head_opt_def split: if_splits)
    note i = opt_iter_body[OF it False b(1) nx]
    have "frames_ok n (if skip then tl rest else rest)"
      using i b(2) by (cases rest) (auto simp: head_opt_def)
    from 2(1)[OF it refl out this] show ?thesis using i q by (auto split: option.splits)
  qed
qed

lemma optimize_frames: "optimize p = Some q \<Longrightarrow> frames_ok n p \<Longrightarrow> frames_ok n q"
proof (induction p rule: optimize.induct)
  case (1 p)
  obtain ret where ret: "opt_pass p = Some ret" using 1(2) by (subst (asm) optimize.simps) (auto split: option.splits)
  have f: "frames_ok n ret" by (rule opt_pass_frames[OF ret 1(3)])
  show ?case
  proof (cases "length p - length ret = 0")
    case True
    then have "q = ret" using 1(2) ret by (subst (asm) optimize.simps) simp
    with f show ?thesis by simp
  next
    case False
    then have "optimize ret = Some q" using 1(2) ret by (subst (asm) optimize.simps) simp
    from 1(1)[OF ret False this f] show ?thesis .
  qed
qed

end
