(* ===== verification/CompilerTotal.thy ===== *)
theory CompilerTotal
  imports Compiler
begin

text \<open>
  When the compiler of Compiler returns. The programs are those whose expressions it has code for,
  whose \<open>break\<close>s are inside a loop, and whose finally blocks do not return (a return there
  compiles the finally blocks in scope again, its own included, forever). For these there is an
  amount of fuel from which on the compiler returns, always with the same result.
\<close>

declare compileBody.simps [simp del]

section \<open>Results that do not depend on the fuel\<close>

definition settles :: "(nat \<Rightarrow> fault + 'a) \<Rightarrow> 'a \<Rightarrow> bool" where
  "settles f x \<longleftrightarrow> (\<exists>n. \<forall>m \<ge> n. f m = Inr x)"

lemma settles_const: "settles (\<lambda>m. Inr x) x"
  by (simp add: settles_def)

lemma settles_bind:
  assumes "settles f a" "settles (\<lambda>m. g m a) b"
  shows "settles (\<lambda>m. ebind (f m) (g m)) b"
proof -
  obtain n1 n2 where "\<forall>m \<ge> n1. f m = Inr a" "\<forall>m \<ge> n2. g m a = Inr b"
    using assms by (auto simp: settles_def)
  then show ?thesis unfolding settles_def by (intro exI[of _ "max n1 n2"]) auto
qed

lemma settles_bind_const: "f = Inr a \<Longrightarrow> settles (\<lambda>m. g m a) b \<Longrightarrow> settles (\<lambda>m. ebind f (g m)) b"
  using settles_bind[of "\<lambda>_. f" a g b] settles_const by simp

lemma settles_Suc: "settles (\<lambda>m. f (Suc m)) x \<Longrightarrow> settles f x"
  unfolding settles_def by (metis Suc_le_D Suc_le_mono)

lemma settles_at: "settles f x \<Longrightarrow> \<exists>m. f m = Inr x"
  unfolding settles_def by blast

section \<open>The programs that compile\<close>

text \<open>
  \<open>ok_body l r\<close>: inside a loop if \<open>l\<close>, where a return is allowed if \<open>r\<close>.
\<close>

fun ok_stmt :: "bool \<Rightarrow> bool \<Rightarrow> stmt \<Rightarrow> bool"
  and ok_node :: "bool \<Rightarrow> bool \<Rightarrow> bool \<Rightarrow> ast \<Rightarrow> bool"
  and ok_body :: "bool \<Rightarrow> bool \<Rightarrow> stmt list \<Rightarrow> bool"
  and ok_func :: "func \<Rightarrow> bool" where
  "ok_stmt l r (Statement ret brk cont node) \<longleftrightarrow> (brk \<longrightarrow> l) \<and> ok_node l r ret node"
| "ok_node l r ret (Function_node f) \<longleftrightarrow> ok_func f"
| "ok_node l r ret (Var_node ident v s p y) \<longleftrightarrow> supported v"
| "ok_node l r ret (Loop_node start iter cond body) \<longleftrightarrow>
     pred_option supported start \<and> pred_option supported iter \<and> pred_option supported cond \<and> ok_body True r body"
| "ok_node l r ret (Body_node body) \<longleftrightarrow> ok_body l r body"
| "ok_node l r ret (Conditional_node cond body None) \<longleftrightarrow> supported cond \<and> ok_body l r body"
| "ok_node l r ret (Conditional_node cond body (Some eb)) \<longleftrightarrow> supported cond \<and> ok_body l r body \<and> ok_body l r eb"
| "ok_node l r ret (Try_node tb cb None x) \<longleftrightarrow> ok_body l r tb \<and> ok_body l r cb"
| "ok_node l r ret (Try_node tb cb (Some fb) x) \<longleftrightarrow> ok_body l r tb \<and> ok_body l r cb \<and> ok_body l False fb"
| "ok_node l r ret (Expr_node e) \<longleftrightarrow> supported e \<and> (ret \<longrightarrow> r)"
| "ok_body l r [] \<longleftrightarrow> True"
| "ok_body l r (s # ss) \<longleftrightarrow> ok_stmt l r s \<and> ok_body l r ss"
| "ok_func (Func i name args body s a p) \<longleftrightarrow> ok_body False True body"

section \<open>The pieces without statements return\<close>

lemma comp_expr_returns:
  assumes "supported e" "all_ok c" "dst \<le> frame_top c"
  shows "\<exists>r c'. comp_expr e dst c = Inr (r, c')"
proof -
  have f: "frame_ok (frame (view c))" using assms(2) by (simp add: all_ok_def top_table_def)
  have d: "delivers (\<not> supported e) (view c) (compileExpression dst False e (view c))"
    using assms(3) by (intro delivers_all(1)) simp
  show ?thesis using d assms(1) f
    by (cases "compileExpression dst False e (view c)") (auto simp: delivers_def comp_expr_def)
qed

lemma comp_temp_returns: "all_ok c \<Longrightarrow> \<exists>r c'. comp_temp c = Inr (r, c')"
  using new_temp_ok[of "view c"] by (auto simp: comp_temp_def all_ok_def top_table_def)

lemma comp_expr_bind: "supported e \<Longrightarrow> all_ok c \<Longrightarrow> \<exists>x. ebind (comp_expr e 0 c) (\<lambda>(r, y). Inr (f r y)) = Inr x"
  using comp_expr_returns[of e c 0] by fastforce

lemma effect_returns: "pred_option supported e \<Longrightarrow> all_ok c \<Longrightarrow> \<exists>c'. effect_expr e c = Inr c'"
  using comp_expr_bind by (cases e) (auto simp: effect_expr_def)

lemma loop_condition_returns: "pred_option supported e \<Longrightarrow> all_ok c \<Longrightarrow> \<exists>c'. loop_condition e l c = Inr c'"
  using comp_expr_bind by (cases e) (auto simp: loop_condition_def)

lemma compileVar_returns:
  assumes "supported v" "all_ok c"
  shows "\<exists>c'. compileVar ident v is_sync c = Inr c'"
proof -
  note le = comp_reg_le[OF assms(2), of ident]
  obtain r c1 where r: "comp_expr v (comp_reg ident c) c = Inr (r, c1)"
    using comp_expr_returns[OF assms le] by blast
  have "all_ok c1" using kept_ok[OF comp_expr_kept(1)[OF r assms(2) le]] .
  then obtain t c2 where "comp_temp c1 = Inr (t, c2)" using comp_temp_returns by blast
  with r show ?thesis by (simp add: compileVar_def Let_def)
qed

section \<open>Statements return\<close>

text \<open>The finally bodies in scope can be compiled wherever a return can stand.\<close>

definition body_settles :: "stmt list \<Rightarrow> comp \<Rightarrow> bool" where
  "body_settles b c \<longleftrightarrow> (\<exists>c'. settles (\<lambda>m. compileBody m b c) c')"

definition fins_ok :: "comp \<Rightarrow> bool" where
  "fins_ok c \<longleftrightarrow> (\<forall>fb \<in> set (finallyBlocks c). \<forall>x. all_ok x \<longrightarrow>
     (loopEndLabelsStack c \<noteq> [] \<longrightarrow> loopEndLabelsStack x \<noteq> []) \<longrightarrow> body_settles fb x)"

lemma kept_stacks: "kept D c c' \<Longrightarrow> loopEndLabelsStack c' = loopEndLabelsStack c \<and> finallyBlocks c' = finallyBlocks c"
  by (simp add: kept_def same_stacks_def)

lemma kept_fins: "kept D c c' \<Longrightarrow> fins_ok c' = fins_ok c"
  using kept_stacks[of D c c'] by (simp add: fins_ok_def)

lemma body_kept: "settles (\<lambda>m. compileBody m b c) c' \<Longrightarrow> all_ok c \<Longrightarrow> kept UNIV c c'"
  using settles_at kept_all(4) by fastforce

lemma finally_settles:
  "k + i = length (finallyBlocks c) \<Longrightarrow> all_ok c \<Longrightarrow> fins_ok c \<Longrightarrow> \<exists>c'. settles (\<lambda>m. compileFinally m i c) c'"
proof (induction k arbitrary: i c)
  case 0
  then have "compileFinally m i c = Inr c" for m by (cases m) auto
  then show ?case using settles_const[of c] by auto
next
  case (Suc k)
  then have i: "i < length (finallyBlocks c)" by simp
  then have "body_settles (finallyBlocks c ! i) c" using Suc.prems by (simp add: fins_ok_def)
  then obtain c1 where c1: "settles (\<lambda>m. compileBody m (finallyBlocks c ! i) c) c1"
    unfolding body_settles_def by blast
  have k: "kept UNIV c c1" by (rule body_kept[OF c1 Suc.prems(2)])
  have "k + (i + 1) = length (finallyBlocks c1)" using Suc.prems(1) kept_stacks[OF k] by simp
  from Suc.IH[OF this kept_ok[OF k]] obtain c2 where c2: "settles (\<lambda>m. compileFinally m (i + 1) c1) c2"
    using kept_fins[OF k] Suc.prems(3) by auto
  have "settles (\<lambda>m. ebind (compileBody m (finallyBlocks c ! i) c) (compileFinally m (i + 1))) c2"
    by (rule settles_bind, rule c1, rule c2)
  then have "settles (\<lambda>m. compileFinally (Suc m) i c) c2" using i by simp
  then show ?case using settles_Suc[of "\<lambda>m. compileFinally m i c"] by blast
qed

lemma push_loop_stack: "push_loop c0 = (a, b, d, c) \<Longrightarrow> loopEndLabelsStack c \<noteq> [] \<and> finallyBlocks c = finallyBlocks c0"
  by (auto simp: push_loop_def next_label_def)

lemma push_loop_fins: "push_loop c0 = (a, b, d, c) \<Longrightarrow> fins_ok c0 \<Longrightarrow> fins_ok c"
  using push_loop_stack[of c0 a b d c] by (simp add: fins_ok_def)

lemma two_labels_stack:
  "two_labels s1 s2 c0 = (a, b, c) \<Longrightarrow> loopEndLabelsStack c = loopEndLabelsStack c0 \<and> finallyBlocks c = finallyBlocks c0"
  by (auto simp: two_labels_def next_label_def)

lemma two_labels_fins: "two_labels s1 s2 c0 = (a, b, c) \<Longrightarrow> fins_ok c = fins_ok c0"
  using two_labels_stack[of s1 s2 c0 a b c] by (simp add: fins_ok_def)

lemma gen_fins [simp]: "fins_ok (gen oc a b d c) = fins_ok c" "fins_ok (gen_label s c) = fins_ok c"
  "fins_ok (comp_free r c) = fins_ok c" "loopEndLabelsStack (comp_free r c) = loopEndLabelsStack c"
  "loopEndLabelsStack (gen_label s c) = loopEndLabelsStack c"
  by (simp_all add: fins_ok_def gen_label_gen comp_free_def)

lemma comp_free_ok [simp]: "all_ok c \<Longrightarrow> all_ok (comp_free r c)"
  using kept_ok[OF kept_free[OF kept_refl]] by blast

text \<open>What is known of a state in which a body is compiled.\<close>

definition ready :: "bool \<Rightarrow> bool \<Rightarrow> comp \<Rightarrow> bool" where
  "ready l r c \<longleftrightarrow> all_ok c \<and> (l \<longrightarrow> loopEndLabelsStack c \<noteq> []) \<and> (r \<longrightarrow> fins_ok c)"

lemma ready_kept: "ready l r c \<Longrightarrow> kept UNIV c c' \<Longrightarrow> ready l r c'"
  using kept_ok[of UNIV c c'] kept_stacks[of UNIV c c'] kept_fins[of UNIV c c'] by (simp add: ready_def)

lemma ready_gen [simp]: "ready l r (gen oc a b d c) = ready l r c" "ready l r (gen_label s c) = ready l r c"
  by (simp_all add: ready_def gen_fins)

lemma ready_two_labels: "two_labels s1 s2 c0 = (a, b, c) \<Longrightarrow> ready l r c = ready l r c0"
  using two_labels_fins[of s1 s2 c0 a b c] two_labels_stack[of s1 s2 c0 a b c] two_labels_kept(1)[of s1 s2 c0 a b c]
  by (simp add: ready_def)

lemma ready_free: "ready l r c \<Longrightarrow> ready l r (comp_free t c)"
  by (simp add: ready_def)

lemma ready_expr: "ready l r c \<Longrightarrow> comp_expr e 0 c = Inr (t, c') \<Longrightarrow> ready l r c'"
  using ready_kept[OF _ comp_expr_kept(1)[of e 0 c t c']] unfolding ready_def by blast

lemma ready_push_finally:
  assumes "ready l r c" "\<And>b x. fb = Some b \<Longrightarrow> ready l False x \<Longrightarrow> body_settles b x"
  shows "ready l r (push_finally fb c)"
proof (cases fb)
  case None
  with assms(1) show ?thesis by (simp add: push_finally_def)
next
  case (Some b)
  have "fins_ok c \<Longrightarrow> fins_ok (c\<lparr>finallyBlocks := finallyBlocks c @ [b]\<rparr>)"
    using assms Some by (auto simp: fins_ok_def ready_def)
  then show ?thesis using assms(1) Some by (simp add: ready_def push_finally_def)
qed

lemma kept_body_settled: "ready l r c \<Longrightarrow> settles (\<lambda>m. compileBody m b c) c' \<Longrightarrow> kept UNIV c c'"
  using body_kept by (simp add: ready_def)

definition stmts_settle :: "stmt list \<Rightarrow> comp \<Rightarrow> bool" where
  "stmts_settle b c \<longleftrightarrow> (\<exists>c'. settles (\<lambda>m. compileStmts m b c) c')"

lemma stmts_body: "(\<And>x. ready l r x \<Longrightarrow> stmts_settle b x) \<Longrightarrow> ready l r c \<Longrightarrow> body_settles b c"
proof -
  assume st: "\<And>x. ready l r x \<Longrightarrow> stmts_settle b x" and r: "ready l r c"
  then have "ready l r (hoist b c)" using ready_kept[OF r kept_hoist] by (simp add: ready_def)
  from st[OF this] show ?thesis by (simp add: stmts_settle_def body_settles_def compileBody.simps)
qed

text \<open>Under these conditions every statement and body settles.\<close>

lemma statements_settle:
  "ok_stmt l r s \<Longrightarrow> ready l r c \<Longrightarrow> \<exists>c'. settles (\<lambda>m. compileStmt m s c) c'"
  "ok_node l r ret n \<Longrightarrow> ready l r c \<Longrightarrow> \<exists>c'. settles (\<lambda>m. compileNode m ret n c) c'"
  "ok_body l r b \<Longrightarrow> ready l r c \<Longrightarrow> stmts_settle b c \<and> body_settles b c"
  "ok_func f \<Longrightarrow> True"
proof (induction l r s and l r ret n and l r b and f arbitrary: c and c and c
    rule: ok_stmt_ok_node_ok_body_ok_func.induct)
  case (1 l r ret brk cont node)
  obtain c1 where c1: "compileBreak brk c = Inr c1"
    using 1(2,3) by (cases brk; cases "loopEndLabelsStack c") (simp_all add: compileBreak_def ready_def)
  have "ready l r c1" using ready_kept[OF 1(3) kept_break[OF c1]] 1(3) by (simp add: ready_def)
  then obtain c2 where "settles (\<lambda>m. compileNode m ret node c1) c2" using 1 by auto
  then show ?case using c1 by auto
next
  case (2 l r ret f)
  show ?case using settles_const[of "addFunctionToCompileLater f c"] by auto
next
  case (3 l r ret ident v s p y)
  then obtain c' where "compileVar ident v y c = Inr c'" using compileVar_returns[of v c] by (auto simp: ready_def)
  then show ?case using settles_const[of c'] by auto
next
  case (4 l r ret start iter cond body c0)
  obtain lstart lend lcond c3 where p: "push_loop c0 = (lstart, lend, lcond, c3)"
    by (cases "push_loop c0") auto
  have r3: "ready True r c3" using 4(3) push_loop_stack[OF p] push_loop_fins[OF p] push_loop_kept(1)[OF p]
    by (simp add: ready_def)
  obtain c4 where c4: "effect_expr start c3 = Inr c4" using effect_returns[of start c3] 4(2) r3 by (auto simp: ready_def)
  have r4: "ready True r c4" using ready_kept[OF r3 kept_effect[OF c4]] r3 by (simp add: ready_def)
  let ?c4 = "gen_label lstart (gen JMP (Str lcond) null_op null_op c4)"
  obtain c5 where c5: "settles (\<lambda>m. compileBody m body ?c4) c5" using 4(1)[of ?c4] 4(2) r4
    by (auto simp: body_settles_def)
  have "ready True r ?c4" using r4 by simp
  from ready_kept[OF this kept_body_settled[OF this c5]] have r5: "ready True r c5" .
  obtain c6 where c6: "effect_expr iter c5 = Inr c6" using effect_returns[of iter c5] 4(2) r5 by (auto simp: ready_def)
  have r6: "ready True r (gen_label lcond c6)" using ready_kept[OF r5 kept_effect[OF c6]] r5 by (simp add: ready_def)
  obtain c7 where c7: "loop_condition cond lstart (gen_label lcond c6) = Inr c7"
    using loop_condition_returns[of cond "gen_label lcond c6"] 4(2) r6 by (auto simp: ready_def)
  have "settles (\<lambda>m. compileNode m ret (Loop_node start iter cond body) c0) (pop_loop (gen_label lend c7))"
    unfolding compileNode.simps p prod.case
    by (rule settles_bind_const[OF c4] settles_bind[OF c5] settles_bind_const[OF c6] settles_bind_const[OF c7]
        settles_const)+
  then show ?case by blast
next
  case (5 l r ret body)
  then show ?case by (simp add: body_settles_def)
next
  case (6 l r ret cond body)
  obtain lfail lend c2 where p: "two_labels ''.else_'' ''.end_cond_'' c = (lfail, lend, c2)"
    by (cases "two_labels ''.else_'' ''.end_cond_'' c") auto
  have r2: "ready l r c2" using ready_two_labels[OF p] 6(3) by simp
  obtain t c3 where e: "comp_expr cond 0 c2 = Inr (t, c3)"
    using comp_expr_returns[of cond c2 0] 6(2) r2 by (auto simp: ready_def)
  let ?c3 = "comp_free t (gen JMP_NOT_TRUE (Num t) (Str lfail) null_op c3)"
  have r3: "ready l r ?c3" using ready_expr[OF r2 e] by (intro ready_free) simp
  obtain c4 where c4: "settles (\<lambda>m. compileBody m body ?c3) c4" using 6(1)[of ?c3] 6(2) r3
    by (auto simp: body_settles_def)
  have "settles (\<lambda>m. compileNode m ret (Conditional_node cond body None) c) (gen_label lend (gen_label lfail c4))"
    unfolding compileNode.simps p prod.case e ebind.simps option.case
    by (rule settles_bind[OF c4] settles_const)+
  then show ?case by blast
next
  case (7 l r ret cond body eb)
  obtain lfail lend c2 where p: "two_labels ''.else_'' ''.end_cond_'' c = (lfail, lend, c2)"
    by (cases "two_labels ''.else_'' ''.end_cond_'' c") auto
  have r2: "ready l r c2" using ready_two_labels[OF p] 7(4) by simp
  obtain t c3 where e: "comp_expr cond 0 c2 = Inr (t, c3)"
    using comp_expr_returns[of cond c2 0] 7(3) r2 by (auto simp: ready_def)
  let ?c3 = "comp_free t (gen JMP_NOT_TRUE (Num t) (Str lfail) null_op c3)"
  have r3: "ready l r ?c3" using ready_expr[OF r2 e] by (intro ready_free) simp
  obtain c4 where c4: "settles (\<lambda>m. compileBody m body ?c3) c4" using 7(1)[of ?c3] 7(3) r3
    by (auto simp: body_settles_def)
  let ?c4 = "gen_label lfail (gen JMP (Str lend) null_op null_op c4)"
  have r4: "ready l r ?c4" using ready_kept[OF r3 kept_body_settled[OF r3 c4]] by simp
  obtain c5 where c5: "settles (\<lambda>m. compileBody m eb ?c4) c5" using 7(2)[of ?c4] 7(3) r4
    by (auto simp: body_settles_def)
  have "settles (\<lambda>m. compileNode m ret (Conditional_node cond body (Some eb)) c) (gen_label lend c5)"
    unfolding compileNode.simps p prod.case e ebind.simps option.case
    by (rule settles_bind[OF c4] settles_bind[OF c5] settles_const)+
  then show ?case by blast
next
  case (8 l r ret tb cb x)
  let ?fb = "None :: stmt list option" and ?L = "two_labels ''.catch_'' ''.finally_''"
  obtain lcatch lfinally c2 where p: "?L (push_finally ?fb c) = (lcatch, lfinally, c2)"
    by (cases "?L (push_finally ?fb c)") auto
  have "ready l r (push_finally ?fb c)" by (rule ready_push_finally[OF 8(4)]) (use 8(3) in auto)
  then have r2: "ready l r c2" using ready_two_labels[OF p] by simp
  let ?c2 = "gen SET_CATCH (Str lcatch) (Str lfinally) null_op c2"
  obtain c3 where c3: "settles (\<lambda>m. compileBody m tb ?c2) c3" using 8(1)[of ?c2] 8(3) r2
    by (auto simp: body_settles_def)
  have "ready l r ?c2" using r2 by simp
  from ready_kept[OF this kept_body_settled[OF this c3]] have r3: "ready l r c3" .
  let ?c4 = "gen_label lcatch (gen JMP (Str lfinally) null_op null_op c3)"
  let ?c5 = "gen POP (Num (comp_reg x ?c4)) null_op null_op ?c4"
  obtain c5 where c5: "settles (\<lambda>m. compileBody m cb ?c5) c5" using 8(2)[of ?c5] 8(3) r3
    by (auto simp: body_settles_def)
  have "settles (\<lambda>m. compileNode m ret (Try_node tb cb None x) c)
      (pop_finally ?fb (gen CLEAR_CATCH null_op null_op null_op (gen_label lfinally c5)))"
    unfolding compileNode.simps p prod.case Let_def option.case ebind.simps
    by (rule settles_bind[OF c3] settles_bind[OF c5] settles_const)+
  then show ?case by blast
next
  case (9 l r ret tb cb fb x)
  let ?fb = "Some fb" and ?L = "two_labels ''.catch_'' ''.finally_''"
  obtain lcatch lfinally c2 where p: "?L (push_finally ?fb c) = (lcatch, lfinally, c2)"
    by (cases "?L (push_finally ?fb c)") auto
  have "ready l r (push_finally ?fb c)" by (rule ready_push_finally[OF 9(5)]) (use 9(3,4) in auto)
  then have r2: "ready l r c2" using ready_two_labels[OF p] by simp
  let ?c2 = "gen SET_CATCH (Str lcatch) (Str lfinally) null_op c2"
  obtain c3 where c3: "settles (\<lambda>m. compileBody m tb ?c2) c3" using 9(1)[of ?c2] 9(4) r2
    by (auto simp: body_settles_def)
  have "ready l r ?c2" using r2 by simp
  from ready_kept[OF this kept_body_settled[OF this c3]] have r3: "ready l r c3" .
  let ?c4 = "gen_label lcatch (gen JMP (Str lfinally) null_op null_op c3)"
  let ?c5 = "gen POP (Num (comp_reg x ?c4)) null_op null_op ?c4"
  obtain c5 where c5: "settles (\<lambda>m. compileBody m cb ?c5) c5" using 9(2)[of ?c5] 9(4) r3
    by (auto simp: body_settles_def)
  have "ready l r ?c5" using r3 by simp
  from ready_kept[OF this kept_body_settled[OF this c5]] have r5: "ready l False (gen_label lfinally c5)"
    by (simp add: ready_def)
  obtain c6 where c6: "settles (\<lambda>m. compileBody m fb (gen_label lfinally c5)) c6"
    using 9(3)[OF _ r5] 9(4) by (auto simp: body_settles_def)
  have "settles (\<lambda>m. compileNode m ret (Try_node tb cb (Some fb) x) c)
      (pop_finally ?fb (gen CLEAR_CATCH null_op null_op null_op c6))"
    unfolding compileNode.simps p prod.case Let_def option.case
    by (rule settles_bind[OF c3] settles_bind[OF c5] settles_bind[OF c6] settles_const)+
  then show ?case by blast
next
  case (10 l r ret e)
  obtain t c1 where e: "comp_expr e 0 c = Inr (t, c1)" using comp_expr_returns[of e c 0] 10 by (auto simp: ready_def)
  have r1: "ready l r c1" by (rule ready_expr[OF 10(2) e])
  have "\<exists>c3. settles (\<lambda>m. if ret then ebind (compileFinally m 0 c1) (\<lambda>c2. Inr (gen RETURN (Num t) null_op null_op c2))
      else Inr c1) c3"
  proof (cases ret)
    case False
    then show ?thesis using settles_const[of c1] by auto
  next
    case True
    then obtain c2 where "settles (\<lambda>m. compileFinally m 0 c1) c2"
      using finally_settles[of "length (finallyBlocks c1)" 0 c1] r1 10(1) by (auto simp: ready_def)
    from settles_bind[OF this settles_const] show ?thesis using True by auto
  qed
  then obtain c3 where c3: "settles (\<lambda>m. if ret then ebind (compileFinally m 0 c1) (\<lambda>c2. Inr (gen RETURN (Num t) null_op null_op c2))
      else Inr c1) c3" by blast
  have "settles (\<lambda>m. compileNode m ret (Expr_node e) c) (comp_free t c3)"
    unfolding compileNode.simps e ebind.simps prod.case by (rule settles_bind[OF c3 settles_const])
  then show ?case by blast
next
  case (11 l r)
  have "stmts_settle [] x" for x using settles_const[of x] by (auto simp: stmts_settle_def)
  then show ?case using stmts_body 11(2) by blast
next
  case (12 l r s ss)
  have st: "stmts_settle (s # ss) x" if rx: "ready l r x" for x
  proof -
    obtain c1 where c1: "settles (\<lambda>m. compileStmt m s x) c1" using 12(1,3) rx by auto
    then obtain m where "compileStmt m s x = Inr c1" using settles_at by fast
    then have "kept UNIV x c1" using kept_all(1)[of m s x c1 UNIV] rx by (simp add: ready_def)
    then obtain c2 where c2: "settles (\<lambda>m. compileStmts m ss c1) c2"
      using 12(2)[of c1] 12(3) ready_kept[OF rx] by (auto simp: stmts_settle_def)
    have "settles (\<lambda>m. compileStmts m (s # ss) x) c2"
      unfolding compileStmts.simps by (rule settles_bind, rule c1, rule c2)
    then show ?thesis by (auto simp: stmts_settle_def)
  qed
  then show ?case using stmts_body 12(4) by blast
next
  case (13 i name args body s a p)
  then show ?case by simp
qed

section \<open>Functions return\<close>

text \<open>
  A function's object differs from those of the functions around it, and so on inwards: what the
  syntax tree guarantees, as every function is an object of its own.
\<close>

fun nested_ids :: "func \<Rightarrow> nat set"
  and nested_ids_stmt :: "stmt \<Rightarrow> nat set"
  and nested_ids_node :: "ast \<Rightarrow> nat set"
  and nested_ids_body :: "stmt list \<Rightarrow> nat set" where
  "nested_ids (Func i name args body s a p) = insert i (nested_ids_body body)"
| "nested_ids_stmt (Statement ret brk cont node) = nested_ids_node node"
| "nested_ids_node (Function_node f) = nested_ids f"
| "nested_ids_node (Loop_node start iter cond body) = nested_ids_body body"
| "nested_ids_node (Body_node body) = nested_ids_body body"
| "nested_ids_node (Conditional_node cond body None) = nested_ids_body body"
| "nested_ids_node (Conditional_node cond body (Some eb)) = nested_ids_body body \<union> nested_ids_body eb"
| "nested_ids_node (Try_node tb cb None x) = nested_ids_body tb \<union> nested_ids_body cb"
| "nested_ids_node (Try_node tb cb (Some fb) x) = nested_ids_body tb \<union> nested_ids_body cb \<union> nested_ids_body fb"
| "nested_ids_node _ = {}"
| "nested_ids_body [] = {}"
| "nested_ids_body (s # ss) = nested_ids_stmt s \<union> nested_ids_body ss"

fun own_ids :: "func \<Rightarrow> bool"
  and own_ids_stmt :: "stmt \<Rightarrow> bool"
  and own_ids_node :: "ast \<Rightarrow> bool"
  and own_ids_body :: "stmt list \<Rightarrow> bool" where
  "own_ids (Func i name args body s a p) \<longleftrightarrow> i \<notin> nested_ids_body body \<and> own_ids_body body"
| "own_ids_stmt (Statement ret brk cont node) \<longleftrightarrow> own_ids_node node"
| "own_ids_node (Function_node f) \<longleftrightarrow> own_ids f"
| "own_ids_node (Loop_node start iter cond body) \<longleftrightarrow> own_ids_body body"
| "own_ids_node (Body_node body) \<longleftrightarrow> own_ids_body body"
| "own_ids_node (Conditional_node cond body None) \<longleftrightarrow> own_ids_body body"
| "own_ids_node (Conditional_node cond body (Some eb)) \<longleftrightarrow> own_ids_body body \<and> own_ids_body eb"
| "own_ids_node (Try_node tb cb None x) \<longleftrightarrow> own_ids_body tb \<and> own_ids_body cb"
| "own_ids_node (Try_node tb cb (Some fb) x) \<longleftrightarrow> own_ids_body tb \<and> own_ids_body cb \<and> own_ids_body fb"
| "own_ids_node _ \<longleftrightarrow> True"
| "own_ids_body [] \<longleftrightarrow> True"
| "own_ids_body (s # ss) \<longleftrightarrow> own_ids_stmt s \<and> own_ids_body ss"

lemma decls_facts:
  "f \<in> set (decls_stmt s) \<Longrightarrow> size f < size s \<and> (ok_stmt l r s \<longrightarrow> ok_func f) \<and>
     nested_ids f \<subseteq> nested_ids_stmt s \<and> (own_ids_stmt s \<longrightarrow> own_ids f)"
  "f \<in> set (decls_node n) \<Longrightarrow> size f < size n \<and> (ok_node l r ret n \<longrightarrow> ok_func f) \<and>
     nested_ids f \<subseteq> nested_ids_node n \<and> (own_ids_node n \<longrightarrow> own_ids f)"
  "f \<in> set (decls b) \<Longrightarrow> size f < size_list size b \<and> (ok_body l r b \<longrightarrow> ok_func f) \<and>
     nested_ids f \<subseteq> nested_ids_body b \<and> (own_ids_body b \<longrightarrow> own_ids f)"
proof (induction s and n and b arbitrary: l r and l r ret and l r rule: decls_stmt_decls_node_decls.induct)
  case (1 ret brk cont node)
  then show ?case by fastforce
next
  case (3 start iter cond body)
  then show ?case by fastforce
next
  case (4 body)
  then show ?case by fastforce
next
  case (5 cond body)
  then show ?case by fastforce
next
  case (6 cond body eb)
  from "6.prems" consider "f \<in> set (decls body)" | "f \<in> set (decls eb)" by auto
  then show ?case
  proof cases
    case 1
    from "6.IH"(1)[OF 1, of l r] show ?thesis by auto
  next
    case 2
    from "6.IH"(2)[OF 2, of l r] show ?thesis by auto
  qed
next
  case (7 tb cb x)
  then show ?case by fastforce
next
  case (8 tb cb fb x)
  from "8.prems" consider "f \<in> set (decls tb)" | "f \<in> set (decls cb)" | "f \<in> set (decls fb)" by auto
  then show ?case
  proof cases
    case 1
    from "8.IH"(1)[OF 1, of l r] show ?thesis by auto
  next
    case 2
    from "8.IH"(2)[OF 2, of l r] show ?thesis by auto
  next
    case 3
    from "8.IH"(3)[OF 3, of l False] show ?thesis by auto
  qed
next
  case (11 s ss)
  then show ?case by fastforce
qed auto


text \<open>No function outside the stack has functions put off.\<close>

definition nothing_left :: "comp \<Rightarrow> bool" where
  "nothing_left c \<longleftrightarrow> (\<forall>i. i \<notin> set (functionsStack c) \<longrightarrow> functionsToCompile (ctables c i) = [])"

definition at_function :: "comp \<Rightarrow> bool" where
  "at_function c \<longleftrightarrow> all_ok c \<and> nothing_left c \<and> finallyBlocks c = [] \<and> loopEndLabelsStack c = []"

text \<open>What compiling a function leaves as it was.\<close>

definition leaves :: "comp \<Rightarrow> comp \<Rightarrow> bool" where
  "leaves c c' \<longleftrightarrow> at_function c' \<and> functionsStack c' = functionsStack c \<and>
     (\<forall>i \<in> set (functionsStack c). ctables c' i = ctables c i)"

lemma leaves_trans: "leaves a b \<Longrightarrow> leaves b c \<Longrightarrow> leaves a c"
  by (simp add: leaves_def)

definition func_settles :: "(string \<times> string) list \<Rightarrow> func \<Rightarrow> comp \<Rightarrow> bool" where
  "func_settles im f c \<longleftrightarrow> (\<exists>c'. settles (\<lambda>m. compileFunction im m f c) c' \<and> leaves c c')"

lemma remaining_settles:
  assumes "\<And>f x. f \<in> set fs \<Longrightarrow> at_function x \<Longrightarrow> functionsStack x = stk \<Longrightarrow> func_settles im f x"
    and "stk \<noteq> []"
  shows "at_function c \<Longrightarrow> functionsStack c = stk \<Longrightarrow> functionsToCompile (top_table c) = fs \<Longrightarrow> k + i = length fs \<Longrightarrow>
    \<exists>c'. settles (\<lambda>m. compileRemainingFunctions im m i c) (clear_functions c') \<and> leaves c c'"
proof (induction k arbitrary: i c)
  case 0
  then have "compileRemainingFunctions im m i c = Inr (clear_functions c)" for m by (cases m) auto
  then show ?case using 0 settles_const[of "clear_functions c"] by (auto simp: leaves_def intro!: exI[of _ c])
next
  case (Suc k)
  then have i: "i < length (functionsToCompile (top_table c))" by simp
  then obtain c1 where c1: "settles (\<lambda>m. compileFunction im m (functionsToCompile (top_table c) ! i) c) c1" "leaves c c1"
    using assms(1)[of "functionsToCompile (top_table c) ! i" c] Suc.prems by (auto simp: func_settles_def)
  have t: "top_table c1 = top_table c"
    using c1(2) Suc.prems(2) assms(2) by (simp add: leaves_def top_table_def top_fn_def)
  obtain c2 where c2: "settles (\<lambda>m. compileRemainingFunctions im m (i + 1) c1) (clear_functions c2)" "leaves c1 c2"
    using Suc.IH[of c1 "i + 1"] c1(2) Suc.prems t by (auto simp: leaves_def)
  have "settles (\<lambda>m. ebind (compileFunction im m (functionsToCompile (top_table c) ! i) c)
      (compileRemainingFunctions im m (i + 1))) (clear_functions c2)"
    by (rule settles_bind, rule c1(1), rule c2(1))
  then have "settles (\<lambda>m. compileRemainingFunctions im (Suc m) i c) (clear_functions c2)" using i by simp
  then show ?case using settles_Suc[of "\<lambda>m. compileRemainingFunctions im m i c"] leaves_trans[OF c1(2) c2(2)] by blast
qed

lemma stack_fields [simp]:
  "finallyBlocks (push_fn i c) = finallyBlocks c" "loopEndLabelsStack (push_fn i c) = loopEndLabelsStack c"
  "finallyBlocks (gen_label s c) = finallyBlocks c"
  by (simp_all add: push_fn_def gen_label_gen)

lemma all_ok_cleared: "all_ok c \<Longrightarrow> all_ok (clear_functions c)"
  using all_ok_clear around_ok by blast

lemma framed_settles:
  assumes k: "kept (set fs) (push_fn fid (gen FFRAME null_op null_op null_op (gen_label nm c0))) c5"
    and at: "at_function c0" and new: "fid \<notin> set (functionsStack c0)"
    and IH: "\<And>f x. f \<in> set fs \<Longrightarrow> at_function x \<Longrightarrow> functionsStack x = fid # functionsStack c0 \<Longrightarrow> func_settles im f x"
  shows "\<exists>c6. settles (\<lambda>m. compileRemainingFunctions im m 0 (gen_label l (gen RETURN null_op null_op null_op c5))) c6 \<and>
    leaves c0 (pop_fn (patch_frame index fid el c6))"
proof -
  let ?x = "gen_label l (gen RETURN null_op null_op null_op c5)"
  have g: "functionsStack c5 = fid # functionsStack c0" "all_ok c5"
    "\<And>i. i \<noteq> fid \<Longrightarrow> ctables c5 i = ctables c0 i" "finallyBlocks c5 = []" "loopEndLabelsStack c5 = []"
    using k at by (simp_all add: kept_def grown_def same_stacks_def at_function_def)
  have t5: "top_fn c5 = fid" using g(1) by (simp add: top_fn_def)
  have "functionsToCompile (ctables c0 fid) = []" using at new by (simp add: at_function_def nothing_left_def)
  then have sub: "set (functionsToCompile (ctables c5 fid)) \<subseteq> set fs"
    using k t5 by (auto simp: kept_def grown_def top_table_def)
  have atx: "at_function ?x" using g at
    by (auto simp: at_function_def nothing_left_def gen_label_gen)
  obtain c2 where c2: "settles (\<lambda>m. compileRemainingFunctions im m 0 ?x) (clear_functions c2)" "leaves ?x c2"
    using remaining_settles[of "functionsToCompile (top_table ?x)" "fid # functionsStack c0" im ?x
        "length (functionsToCompile (top_table ?x))" 0] IH sub atx g(1) t5
    by (auto simp: top_table_def gen_label_gen)
  have st: "functionsStack c2 = fid # functionsStack c0" using c2(2) g(1) by (simp add: leaves_def)
  then have t2: "top_fn c2 = fid" by (simp add: top_fn_def)
  have l2: "at_function c2" "\<And>i. i \<in> set (functionsStack c0) \<Longrightarrow> ctables c2 i = ctables c5 i"
    using c2(2) g(1) by (auto simp: leaves_def)
  have cl: "ctables (clear_functions c2) i = (if i = fid then (ctables c2 fid)\<lparr>functionsToCompile := []\<rparr> else ctables c2 i)"
    "functionsStack (clear_functions c2) = functionsStack c2"
    "finallyBlocks (clear_functions c2) = finallyBlocks c2" "loopEndLabelsStack (clear_functions c2) = loopEndLabelsStack c2" for i
    using t2 by (simp_all add: clear_functions_def top_table_def)
  let ?c' = "pop_fn (patch_frame index fid el (clear_functions c2))"
  have pf: "finallyBlocks ?c' = finallyBlocks c2" "loopEndLabelsStack ?c' = loopEndLabelsStack c2"
    using cl(3,4) by (simp_all add: pop_fn_def patch_frame_def)
  have "all_ok ?c'" using all_ok_cleared[of c2] l2(1) by (simp add: all_ok_def at_function_def)
  moreover have "nothing_left ?c'" using l2(1) st cl(1) by (auto simp: nothing_left_def at_function_def cl(2))
  ultimately have "at_function ?c'" using l2(1) pf by (simp add: at_function_def)
  moreover have "ctables ?c' i = ctables c0 i" if "i \<in> set (functionsStack c0)" for i
  proof -
    have "i \<noteq> fid" using that new by blast
    with l2(2)[OF that] g(3) cl(1) show ?thesis by simp
  qed
  ultimately have "leaves c0 ?c'" using st cl(2) by (simp add: leaves_def)
  with c2(1) show ?thesis by blast
qed

lemma static_prologue_returns: "all_ok c \<Longrightarrow> \<exists>c'. static_prologue im c = Inr c'"
proof -
  assume ok: "all_ok c"
  define x where "x = fold (\<lambda>(a, b). gen IMPORT_CLS (Str a) (Str b) null_op) im c"
  have "all_ok y \<Longrightarrow> all_ok (fold (\<lambda>(a, b). gen IMPORT_CLS (Str a) (Str b) null_op) im y)" for y
    by (induction im arbitrary: y) auto
  then have "all_ok x" using ok by (simp add: x_def)
  then obtain s c1 where t1: "comp_temp x = Inr (s, c1)" "all_ok c1"
    using comp_temp_returns comp_temp_kept(1) kept_ok by blast
  let ?c2 = "gen GET_FIELD_IMMEDIATE (Num 1) (Str ''__static__'') (Num s) c1"
  have "all_ok ?c2" using t1(2) by simp
  then obtain n c3 where t2: "comp_temp ?c2 = Inr (n, c3)" "all_ok c3"
    using comp_temp_returns comp_temp_kept(1) kept_ok by blast
  then obtain r c4 where "comp_temp c3 = Inr (r, c4)" using comp_temp_returns by blast
  with t1 t2 show ?thesis by (simp add: static_prologue_def Let_def x_def)
qed

lemma function_settles:
  "ok_func f \<Longrightarrow> own_ids f \<Longrightarrow> nested_ids f \<inter> set (functionsStack c) = {} \<Longrightarrow> at_function c \<Longrightarrow> func_settles im f c"
proof (induction "size f" arbitrary: f c rule: less_induct)
  case less
  obtain fid name args body is_static is_async is_private where
    f: "f = Func fid name args body is_static is_async is_private" by (cases f)
  let ?c1 = "gen_label name c"
  let ?c2 = "push_fn fid (gen FFRAME null_op null_op null_op ?c1)"
  let ?c3 = "gen MOV_FNC (Num (comp_reg name ?c2)) (Str name) (Num (if is_async then 1 else 0)) ?c2"
  let ?D = "set (decls body)"
  have ok2: "all_ok ?c2" using less.prems(4) by (simp add: at_function_def)
  have k3: "kept ?D ?c2 ?c3" using kept_refl[OF ok2] comp_reg_le[OF ok2] by (intro kept_gen) auto
  obtain c4 where c4: "(if name = ''__static__constructor__'' then static_prologue im ?c3
         else if is_static then Inr (?c3\<lparr>compiledStaticFunctions := compiledStaticFunctions ?c3 @ [name]\<rparr>)
         else Inr ?c3) = Inr c4" "kept ?D ?c3 c4"
    using static_prologue_returns[OF kept_ok[OF k3], of im] kept_static_prologue[of im ?c3 _ ?D]
      kept_refl[OF kept_ok[OF k3], of ?D] kept_ok[OF k3]
    by (cases "name = ''__static__constructor__''"; cases is_static) auto
  have k4: "kept ?D ?c2 c4" by (rule kept_trans[OF k3 c4(2)])
  have fin4: "finallyBlocks c4 = []" using kept_stacks[OF k4] less.prems(4)
    by (simp add: at_function_def push_fn_def gen_label_gen)
  then have "ready False True c4" using kept_ok[OF k4] by (simp add: ready_def fins_ok_def)
  then obtain c5 where c5: "settles (\<lambda>m. compileBody m body c4) c5"
    using statements_settle(3)[of False True body c4] less.prems(1) by (auto simp: f body_settles_def)
  then obtain m where "compileBody m body c4 = Inr c5" using settles_at by fast
  from kept_all(4)[OF this kept_ok[OF k4], of ?D] fin4 have "kept ?D c4 c5" by (simp add: fin_in_def)
  with k4 have k5: "kept ?D ?c2 c5" by (rule kept_trans)
  have new: "fid \<notin> set (functionsStack c)" using less.prems(3) by (auto simp: f)
  have IH: "func_settles im g x" if "g \<in> ?D" "at_function x" "functionsStack x = fid # functionsStack c" for g x
  proof (rule less.hyps)
    note d = decls_facts(3)[OF that(1), of False True]
    show "size g < size f" "ok_func g" "own_ids g" using d less.prems(1,2) by (auto simp: f)
    show "nested_ids g \<inter> set (functionsStack x) = {}" using d less.prems(2,3) that(3) by (auto simp: f)
  qed (rule that(2))
  obtain c6 where c6: "settles (\<lambda>m. compileRemainingFunctions im m 0 (gen_label (''end'' @ name) (gen RETURN null_op null_op null_op c5))) c6"
    "leaves c (pop_fn (patch_frame (length (prog ?c1)) fid (take 99 (''end'' @ name)) c6))"
    using framed_settles[OF k5 less.prems(4) new IH] by blast
  have "settles (\<lambda>m. compileFunction im m f c) (pop_fn (patch_frame (length (prog ?c1)) fid (take 99 (''end'' @ name)) c6))"
    unfolding f compileFunction.simps Let_def
    by (rule settles_bind_const[OF c4(1)], rule settles_bind[OF c5], rule settles_bind[OF c6(1)], rule settles_const)
  with c6(2) show ?case by (auto simp: func_settles_def)
qed

section \<open>Classes return\<close>

definition ok_class :: "class_decl \<Rightarrow> bool" where
  "ok_class cls \<longleftrightarrow> ok_body False True (cls_body cls) \<and> own_ids_body (cls_body cls) \<and>
     cls_id cls \<notin> nested_ids_body (cls_body cls)"

lemma comp_init_at: "at_function (comp_init cls)"
proof -
  have g: "grows (push_function (cls_id cls) addr_init) (calculateClass cls addr_init)"
    unfolding calculateClass_def Let_def
    by (blast intro: grows_trans grows_addToCurrentTable grows_fold_addToCurrentTable grows_calculate(3))
  have "functionsToCompile (addr_tables (push_function (cls_id cls) addr_init) i) = []" for i
    by (simp add: push_function_def addr_init_def fkind_new_def)
  with g have "functionsToCompile (addr_tables (calculateClass cls addr_init) i) = []" for i
    by (simp add: grows_def)
  then show ?thesis using comp_init_ok by (simp add: at_function_def nothing_left_def comp_init_def)
qed

lemma class_settles:
  assumes "ok_class cls"
  shows "\<exists>c. settles (\<lambda>m. compileClass m cls (comp_init cls)) c"
proof -
  let ?c0 = "comp_init cls" and ?im = "importsMap cls" and ?D = "set (decls (cls_body cls))"
  let ?c1 = "gen_label (cls_name cls) ?c0"
  let ?c2 = "push_fn (cls_id cls) (gen FFRAME null_op null_op null_op ?c1)"
  let ?pop = "\<lambda>ident x. gen POP (Num (comp_reg ident x)) null_op null_op x"
  have e: "push_fn (cls_id cls) (gen CREATE_THIS null_op null_op null_op (gen FFRAME null_op null_op null_op ?c1)) =
      gen CREATE_THIS null_op null_op null_op ?c2" by (rule push_gen)
  let ?c4 = "fold ?pop (cls_args cls) (gen CREATE_THIS null_op null_op null_op ?c2)"
  have k3: "kept ?D ?c2 (gen CREATE_THIS null_op null_op null_op ?c2)"
    using kept_refl comp_init_ok by (intro kept_gen) auto
  have "kept ?D ?c2 x \<Longrightarrow> kept ?D ?c2 (fold ?pop as x)" for as x
  proof (induction as arbitrary: x)
    case (Cons a as)
    have "kept ?D ?c2 (?pop a x)" using comp_reg_le[OF kept_ok[OF Cons.prems]] by (intro kept_gen[OF Cons.prems]) simp
    from Cons.IH[OF this] show ?case by simp
  qed simp
  with k3 have k4: "kept ?D ?c2 ?c4" by blast
  have fin4: "finallyBlocks ?c4 = []" using kept_stacks[OF k4] by (simp add: comp_init_def)
  then have "ready False True ?c4" using kept_ok[OF k4] by (simp add: ready_def fins_ok_def)
  then obtain c5 where c5: "settles (\<lambda>m. compileBody m (cls_body cls) ?c4) c5"
    using statements_settle(3)[of False True "cls_body cls" ?c4] assms by (auto simp: ok_class_def body_settles_def)
  then obtain m where "compileBody m (cls_body cls) ?c4 = Inr c5" using settles_at by fast
  from kept_all(4)[OF this kept_ok[OF k4], of ?D] fin4 have "kept ?D ?c4 c5" by (simp add: fin_in_def)
  with k4 have k5: "kept ?D ?c2 c5" by (rule kept_trans)
  have st0: "functionsStack ?c0 = []" by (simp add: comp_init_def)
  have IH: "func_settles ?im g x" if "g \<in> ?D" "at_function x" "functionsStack x = cls_id cls # functionsStack ?c0" for g x
    using decls_facts(3)[OF that(1), of False True] that(2,3) assms st0
    by (intro function_settles) (auto simp: ok_class_def)
  obtain c6 where c6: "settles (\<lambda>m. compileRemainingFunctions ?im m 0
      (gen_label (''end'' @ cls_name cls) (gen RETURN null_op null_op null_op c5))) c6"
    using framed_settles[OF k5 comp_init_at _ IH] unfolding st0 by fastforce
  have "settles (\<lambda>m. compileClass m cls ?c0)
      (pop_fn (patch_frame (length (prog ?c1)) (cls_id cls) (take 99 (''end'' @ cls_name cls)) c6))"
    unfolding compileClass_def Let_def e
    by (rule settles_bind[OF c5], rule settles_bind[OF c6], rule settles_const)
  then show ?thesis by blast
qed

lemma compile_settles:
  assumes "ok_class cls"
  shows "\<exists>out. settles (\<lambda>m. compile m cls) out"
proof -
  obtain c where c: "settles (\<lambda>m. compileClass m cls (comp_init cls)) c" using class_settles[OF assms] by blast
  then obtain m where m: "compileClass m cls (comp_init cls) = Inr c" using settles_at by fast
  note code = compileClass_code[OF m]
  from optimize_safe[OF frames_ok_opt_wf[OF code(1)] code(2)] obtain p where p: "optimize (prog c) = Some p" by blast
  have "settles (\<lambda>m. compile m cls) (p, ctables c)"
    unfolding compile_def by (rule settles_bind[OF c]) (simp add: p settles_const)
  then show ?thesis by blast
qed

section \<open>Properties\<close>

text \<open>
  C1: register safety of compiled classes. Whatever class the compiler accepts, in its optimised
  output every register of every instruction lies within the number of locals announced by the
  FFRAME instruction that opens the code of its function, every compare writes a real register, the
  operands the assembler dereferences are strings, every label has a null operand, and the last instruction is a label.
\<close>

theorem compiled_registers_in_frame:
  assumes "compile fuel cls = Inr (p, t)"
  shows "frames_ok 0 p \<and> opt_wf p \<and> ends_in_label p \<and> opt_pass p = Some p"
proof -
  obtain c where c: "compileClass fuel cls (comp_init cls) = Inr c" "optimize (prog c) = Some p"
    using assms by (auto simp: compile_def ebind_Inr_iff split: option.splits)
  note code = compileClass_code[OF c(1)]
  have wf: "opt_wf (prog c)" by (rule frames_ok_opt_wf[OF code(1)])
  from optimize_safe[OF wf code(2)] c(2) have "opt_wf p \<and> ends_in_label p" by auto
  with optimize_frames[OF c(2) code(1)] optimize_stable[OF c(2)] show ?thesis by blast
qed

text \<open>A class with a loop, a try statement with finally and a nested function.\<close>

definition sample_class :: class_decl where
  "sample_class = \<lparr>cls_id = 0, cls_name = ''A'', cls_args = [''p''], cls_body = [
     plain_stmt (Var_node ''i'' (Terminal TYPE_NUMBER ''0'') False False False),
     plain_stmt (Function_node (Func 1 ''f'' [''x''] [
       plain_stmt (Try_node
         [Statement True False False (Expr_node (Binary ''+'' (Terminal TYPE_IDENTIFIER ''x'') (Terminal TYPE_NUMBER ''1'')))]
         [] (Some [plain_stmt (Expr_node (Method_call (Terminal TYPE_IDENTIFIER ''g'') []))]) ''e'')] False False False)),
     plain_stmt (Loop_node None (Some (Postfix ''++'' (Terminal TYPE_IDENTIFIER ''i'')))
       (Some (Binary ''<'' (Terminal TYPE_IDENTIFIER ''i'') (Terminal TYPE_NUMBER ''10'')))
       [Statement False True False (Expr_node Empty_expr)])], importsMap = []\<rparr>"

lemma sample_class_ok: "ok_class sample_class"
  by (simp add: ok_class_def sample_class_def toOpcode_def)

theorem compiled_registers_in_frame_witness:
  "\<exists>m p t. compile m sample_class = Inr (p, t) \<and> frames_ok 0 p"
proof -
  obtain m p t where c: "compile m sample_class = Inr (p, t)"
    using compile_settles[OF sample_class_ok] settles_at by fastforce
  from compiled_registers_in_frame[OF c] c show ?thesis by blast
qed

text \<open>
  C2: the compiler is total on well-formed classes. If every expression has code, every
  \<open>break\<close> is inside a loop, no finally block returns, and functions are objects of their own,
  then some amount of recursion suffices, and the result does not depend on how much more is
  available.
\<close>

theorem compiler_returns:
  assumes "ok_class cls"
  shows "\<exists>n p t. \<forall>m \<ge> n. compile m cls = Inr (p, t)"
  using compile_settles[OF assms] by (auto simp: settles_def)

theorem compiler_returns_witness: "\<exists>n p t. \<forall>m \<ge> n. compile m sample_class = Inr (p, t)"
  by (rule compiler_returns[OF sample_class_ok])

section \<open>Returns in finally blocks\<close>

text \<open>Without returns the budget plays no role.\<close>

lemma no_return_fuel:
  "ok_stmt l r s \<Longrightarrow> \<not> r \<Longrightarrow> compileStmt m s = compileStmt k s"
  "ok_node l r ret n \<Longrightarrow> \<not> r \<Longrightarrow> compileNode m ret n = compileNode k ret n"
  "ok_body l r b \<Longrightarrow> \<not> r \<Longrightarrow> compileStmts m b = compileStmts k b \<and> compileBody m b = compileBody k b"
  "ok_func f \<Longrightarrow> True"
  by (induction l r s and l r ret n and l r b and f rule: ok_stmt_ok_node_ok_body_ok_func.induct)
    (auto simp: compileBody.simps intro!: ext)

lemma no_return_compiles:
  assumes "ok_body l False b" "ready l False c"
  obtains c' where "\<And>m. compileStmts m b c = Inr c'" "ready l False c'" "finallyBlocks c' = finallyBlocks c"
proof -
  obtain c' where "settles (\<lambda>m. compileStmts m b c) c'"
    using statements_settle(3)[OF assms] by (auto simp: stmts_settle_def)
  then obtain n where n: "compileStmts n b c = Inr c'" using settles_at by fast
  have "kept UNIV c c'" using kept_all(3)[OF n] assms(2) by (auto simp: ready_def)
  moreover have "compileStmts m b c = Inr c'" for m using no_return_fuel(3)[OF assms(1), of m n] n by simp
  ultimately show ?thesis using that ready_kept[OF assms(2)] kept_stacks by blast
qed

lemma no_return_body_compiles:
  assumes "ok_body l False b" "ready l False c"
  obtains c' where "\<And>m. compileBody m b c = Inr c'" "ready l False c'" "finallyBlocks c' = finallyBlocks c"
proof -
  have k: "kept UNIV c (hoist b c)" using assms(2) by (intro kept_hoist) (simp add: ready_def)
  obtain c' where "\<And>m. compileStmts m b (hoist b c) = Inr c'" "ready l False c'" "finallyBlocks c' = finallyBlocks (hoist b c)"
    using no_return_compiles[OF assms(1) ready_kept[OF assms(2) k]] by blast
  then show ?thesis using that kept_stacks[OF k] by (simp add: compileBody.simps)
qed

lemma compileStmts_append: "compileStmts n (xs @ ys) c = ebind (compileStmts n xs c) (compileStmts n ys)"
proof (induction xs arbitrary: c)
  case (Cons s xs)
  then show ?case by (cases "compileStmt n s c") simp_all
qed simp

text \<open>A finally block that returns, below others that do not.\<close>

lemma returning_finally:
  assumes "fb = pre @ Statement True False cont (Expr_node e) # post" "ok_body l False pre" "supported e"
    and "\<forall>b \<in> set outer. ok_body l False b" "ready l False c" "finallyBlocks c = outer @ [fb]"
  shows "i \<le> length outer \<Longrightarrow> compileFinally n i c = Inl Out_Of_Fuel" "compileBody n fb c = Inl Out_Of_Fuel"
proof -
  have body: "compileBody n fb x = Inl Out_Of_Fuel"
    if again: "\<And>y. ready l False y \<Longrightarrow> finallyBlocks y = outer @ [fb] \<Longrightarrow> compileFinally n 0 y = Inl Out_Of_Fuel"
      and x: "ready l False x" "finallyBlocks x = outer @ [fb]" for n x
  proof -
    have k: "kept UNIV x (hoist fb x)" using x(1) by (intro kept_hoist) (simp add: ready_def)
    obtain x1 where x1: "compileStmts n pre (hoist fb x) = Inr x1" "ready l False x1" "finallyBlocks x1 = outer @ [fb]"
      using no_return_compiles[OF assms(2) ready_kept[OF x(1) k]] kept_stacks[OF k] x(2) by metis
    obtain t x2 where x2: "comp_expr e 0 x1 = Inr (t, x2)"
      using comp_expr_returns[OF assms(3), of x1 0] x1(2) by (auto simp: ready_def)
    have "kept UNIV x1 x2" using comp_expr_kept(1)[OF x2] x1(2) by (simp add: ready_def)
    then have "compileFinally n 0 x2 = Inl Out_Of_Fuel"
      using again ready_kept[OF x1(2)] kept_stacks x1(3) by metis
    then have "compileStmt n (Statement True False cont (Expr_node e)) x1 = Inl Out_Of_Fuel"
      using x2 by (simp add: compileBreak_def)
    moreover have "compileStmts n fb y = ebind (compileStmts n pre y)
        (compileStmts n (Statement True False cont (Expr_node e) # post))" for y
      unfolding assms(1) by (rule compileStmts_append)
    ultimately show ?thesis unfolding compileBody.simps using x1(1) by simp
  qed
  have fin: "i \<le> length outer \<Longrightarrow> ready l False x \<Longrightarrow> finallyBlocks x = outer @ [fb] \<Longrightarrow>
      compileFinally n i x = Inl Out_Of_Fuel" for n i x
  proof (induction n arbitrary: i x)
    case 0
    then show ?case by simp
  next
    case (Suc n)
    show ?case
    proof (cases "i = length outer")
      case True
      then have "compileBody n (finallyBlocks x ! i) x = Inl Out_Of_Fuel"
        using body[OF Suc.IH[OF le0] Suc.prems(2,3)] Suc.prems(3) by simp
      then show ?thesis using True Suc.prems(3) by simp
    next
      case False
      then have i: "i < length outer" "ok_body l False (outer ! i)" using Suc.prems(1) assms(4) by auto
      obtain y where y: "compileBody n (outer ! i) x = Inr y" "ready l False y" "finallyBlocks y = outer @ [fb]"
        by (rule no_return_body_compiles[OF i(2) Suc.prems(2)]) (simp add: Suc.prems(3))
      then show ?thesis using Suc.IH[of "i + 1" y] i(1) Suc.prems(3) by (simp add: nth_append)
    qed
  qed
  from fin[OF _ assms(5,6)] show "i \<le> length outer \<Longrightarrow> compileFinally n i c = Inl Out_Of_Fuel" .
  from body[OF fin[OF le0] assms(5,6)] show "compileBody n fb c = Inl Out_Of_Fuel" .
qed

text \<open>
  C33: a finally block that returns makes the compiler recurse without end: compiling its return
  compiles the block again. Whatever expression is returned, whatever stands after it, however many
  finally blocks without returns are around it: for every try statement with such a block the recursion has not
  ended yet, however large the budget is. Nothing else goes wrong, the statements before the return and the try and
  catch bodies compile.
\<close>

theorem return_in_finally_diverges:
  assumes "fb = pre @ Statement True False cont (Expr_node e) # post" "ok_body l False pre" "supported e"
    and "ok_body l False tb" "ok_body l False cb" "\<forall>b \<in> set (finallyBlocks c). ok_body l False b"
    and "all_ok c" "l \<longrightarrow> loopEndLabelsStack c \<noteq> []"
  shows "\<forall>fuel. compileNode fuel ret (Try_node tb cb (Some fb) x) c = Inl Out_Of_Fuel"
proof
  fix fuel
  let ?L = "two_labels ''.catch_'' ''.finally_''" and ?fb = "Some fb"
  obtain lcatch lfinally c2 where p: "?L (push_finally ?fb c) = (lcatch, lfinally, c2)"
    by (cases "?L (push_finally ?fb c)") auto
  have "ready l False (push_finally ?fb c)" using assms(7,8) by (simp add: ready_def push_finally_def)
  then have r2: "ready l False (gen SET_CATCH (Str lcatch) (Str lfinally) null_op c2)"
    using ready_two_labels[OF p] by simp
  have f2: "finallyBlocks c2 = finallyBlocks c @ [fb]" using two_labels_stack[OF p] by (simp add: push_finally_def)
  obtain c3 where c3: "\<And>m. compileBody m tb (gen SET_CATCH (Str lcatch) (Str lfinally) null_op c2) = Inr c3"
    "ready l False c3" "finallyBlocks c3 = finallyBlocks c @ [fb]"
    using no_return_body_compiles[OF assms(4) r2] f2 by auto
  let ?c4 = "gen_label lcatch (gen JMP (Str lfinally) null_op null_op c3)"
  let ?c5 = "gen POP (Num (comp_reg x ?c4)) null_op null_op ?c4"
  have f4: "finallyBlocks ?c5 = finallyBlocks c @ [fb]" using c3(3) by (simp add: gen_label_gen)
  obtain c5 where c5: "\<And>m. compileBody m cb ?c5 = Inr c5" "ready l False c5" "finallyBlocks c5 = finallyBlocks c @ [fb]"
    using no_return_body_compiles[OF assms(5), of ?c5] c3(2) f4 by auto
  have "compileBody fuel fb (gen_label lfinally c5) = Inl Out_Of_Fuel"
    by (rule returning_finally(2)[OF assms(1-3,6)]) (use c5(2,3) in \<open>simp_all add: gen_label_gen\<close>)
  then show "compileNode fuel ret (Try_node tb cb (Some fb) x) c = Inl Out_Of_Fuel"
    unfolding compileNode.simps p prod.case c3(1) ebind.simps Let_def c5(1) option.case by simp
qed

theorem return_in_finally_diverges_witness:
  "\<forall>fuel. compileNode fuel False (Try_node [] [] (Some [Statement True False False (Expr_node (Terminal TYPE_NUMBER ''1''))]) ''e'')
    (comp_init sample_class) = Inl Out_Of_Fuel"
  by (rule return_in_finally_diverges[of _ "[]" False "Terminal TYPE_NUMBER ''1''" "[]" False])
    (simp_all add: comp_init_ok, simp add: comp_init_def)

end
