(* ===== verification/F64.thy ===== *)
theory F64
  imports Instr
begin

text \<open>
  The C type \<open>double\<close> (FLOAT of src/src/common/types.h) at the level of its 64 bits: IEEE 754 binary64
  with rounding to nearest, ties to even. Every finite double is an integer multiple of the least
  one, 2^-1074, so the value of a finite double is an integer in that unit and the operations are
  exact integer arithmetic followed by one rounding. The sign and payload of a NaN that an
  operation produces are not fixed by C; here it is the quiet NaN with a clear payload.
\<close>

section \<open>Values and rounding\<close>

fun bits :: "nat \<Rightarrow> nat" where
  "bits n = (if n = 0 then 0 else Suc (bits (n div 2)))"

declare bits.simps [simp del]

definition INF_mag :: nat where
  "INF_mag = 2047 * 2 ^ 52"

text \<open>The number 1 in the unit.\<close>

definition one_units :: nat where
  "one_units = 2 ^ 1074"

definition magnitude :: "uint_t \<Rightarrow> nat" where
  "magnitude w = unat w mod 2 ^ 63"

definition is_negative :: "uint_t \<Rightarrow> bool" where
  "is_negative w \<longleftrightarrow> 2 ^ 63 \<le> unat w"

definition is_nan :: "uint_t \<Rightarrow> bool" where
  "is_nan w \<longleftrightarrow> INF_mag < magnitude w"

definition is_inf :: "uint_t \<Rightarrow> bool" where
  "is_inf w \<longleftrightarrow> magnitude w = INF_mag"

definition is_zero :: "uint_t \<Rightarrow> bool" where
  "is_zero w \<longleftrightarrow> magnitude w = 0"

definition mag_val :: "nat \<Rightarrow> nat" where
  "mag_val m =
     (let e = m div 2 ^ 52; f = m mod 2 ^ 52 in if e = 0 then f else (2 ^ 52 + f) * 2 ^ (e - 1))"

definition f64_val :: "uint_t \<Rightarrow> int" where
  "f64_val w = (if is_negative w then - int (mag_val (magnitude w)) else int (mag_val (magnitude w)))"

definition round_even :: "nat \<Rightarrow> nat \<Rightarrow> nat" where
  "round_even n d =
     (let q = n div d; r = n mod d
      in if 2 * r < d \<or> 2 * r = d \<and> even q then q else q + 1)"

text \<open>The magnitude nearest to \<open>n / d\<close> units; a carry out of the mantissa moves into the exponent.\<close>

definition mag_round :: "nat \<Rightarrow> nat \<Rightarrow> nat" where
  "mag_round n d = (let s = bits (n div d) - 53 in min (s * 2 ^ 52 + round_even n (d * 2 ^ s)) INF_mag)"

definition f64_make :: "bool \<Rightarrow> nat \<Rightarrow> uint_t" where
  "f64_make neg m = word_of_nat ((if neg then 2 ^ 63 else 0) + m)"

definition f64_nan :: uint_t where
  "f64_nan = f64_make False (2047 * 2 ^ 52 + 2 ^ 51)"

definition f64_round :: "int \<Rightarrow> uint_t" where
  "f64_round k = f64_make (k < 0) (mag_round (nat \<bar>k\<bar>) 1)"

section \<open>Operations\<close>

definition f64_neg :: "uint_t \<Rightarrow> uint_t" where
  "f64_neg x = f64_make (\<not> is_negative x) (magnitude x)"

definition f64_add :: "uint_t \<Rightarrow> uint_t \<Rightarrow> uint_t" where
  "f64_add x y =
     (if is_nan x \<or> is_nan y then f64_nan
      else if is_inf x then (if is_inf y \<and> is_negative x \<noteq> is_negative y then f64_nan else x)
      else if is_inf y then y
      else if f64_val x + f64_val y = 0 then f64_make (is_negative x \<and> is_negative y) 0
      else f64_round (f64_val x + f64_val y))"

definition f64_sub :: "uint_t \<Rightarrow> uint_t \<Rightarrow> uint_t" where
  "f64_sub x y = (if is_nan y then f64_nan else f64_add x (f64_neg y))"

definition f64_mul :: "uint_t \<Rightarrow> uint_t \<Rightarrow> uint_t" where
  "f64_mul x y =
     (let neg = is_negative x \<noteq> is_negative y in
      if is_nan x \<or> is_nan y \<or> is_inf x \<and> is_zero y \<or> is_zero x \<and> is_inf y then f64_nan
      else if is_inf x \<or> is_inf y then f64_make neg INF_mag
      else f64_make neg (mag_round (mag_val (magnitude x) * mag_val (magnitude y)) one_units))"

definition f64_div :: "uint_t \<Rightarrow> uint_t \<Rightarrow> uint_t" where
  "f64_div x y =
     (let neg = is_negative x \<noteq> is_negative y in
      if is_nan x \<or> is_nan y \<or> is_inf x \<and> is_inf y \<or> is_zero x \<and> is_zero y then f64_nan
      else if is_inf x \<or> is_zero y then f64_make neg INF_mag
      else if is_inf y then f64_make neg 0
      else f64_make neg (mag_round (mag_val (magnitude x) * one_units) (mag_val (magnitude y))))"

text \<open>\<open>fmod\<close>: the sign of the dividend, and exact.\<close>

definition f64_mod :: "uint_t \<Rightarrow> uint_t \<Rightarrow> uint_t" where
  "f64_mod x y =
     (if is_nan x \<or> is_nan y \<or> is_inf x \<or> is_zero y then f64_nan
      else if is_inf y then x
      else f64_make (is_negative x) (mag_round (mag_val (magnitude x) mod mag_val (magnitude y)) 1))"

text \<open>Comparisons are false on NaN; infinities compare by their place value above every finite double.\<close>

definition f64_lt :: "uint_t \<Rightarrow> uint_t \<Rightarrow> bool" where
  "f64_lt x y \<longleftrightarrow> \<not> is_nan x \<and> \<not> is_nan y \<and> f64_val x < f64_val y"

definition f64_le :: "uint_t \<Rightarrow> uint_t \<Rightarrow> bool" where
  "f64_le x y \<longleftrightarrow> \<not> is_nan x \<and> \<not> is_nan y \<and> f64_val x \<le> f64_val y"

definition f64_eq :: "uint_t \<Rightarrow> uint_t \<Rightarrow> bool" where
  "f64_eq x y \<longleftrightarrow> \<not> is_nan x \<and> \<not> is_nan y \<and> f64_val x = f64_val y"

definition f64_of_int :: "int \<Rightarrow> uint_t" where
  "f64_of_int i = f64_round (i * int one_units)"

definition f64_of_bool :: "bool \<Rightarrow> uint_t" where
  "f64_of_bool b = f64_of_int (if b then 1 else 0)"

text \<open>\<open>(int_t) x\<close>: truncation; undefined outside the range of \<open>int64_t\<close>.\<close>

definition f64_trunc :: "uint_t \<Rightarrow> int option" where
  "f64_trunc x =
     (let t = int (mag_val (magnitude x) div one_units); i = (if is_negative x then - t else t)
      in if is_nan x \<or> is_inf x \<or> i < - (2 ^ 63) \<or> 2 ^ 63 \<le> i then None else Some i)"

section \<open>Reading and printing\<close>

definition is_digit :: "char \<Rightarrow> bool" where
  "is_digit c \<longleftrightarrow> 48 \<le> (of_char c :: nat) \<and> (of_char c :: nat) \<le> 57"

definition is_space :: "char \<Rightarrow> bool" where
  "is_space c \<longleftrightarrow> (of_char c :: nat) = 32 \<or> 9 \<le> (of_char c :: nat) \<and> (of_char c :: nat) \<le> 13"

definition take_sign :: "string \<Rightarrow> bool \<times> string" where
  "take_sign s = (if take 1 s = ''-'' then (True, drop 1 s)
     else if take 1 s = ''+'' then (False, drop 1 s) else (False, s))"

text \<open>
  \<open>atof\<close> in base ten: blanks, a sign, digits, a fraction, an exponent; whatever follows is ignored.
  Infinities, NaNs and hexadecimal numbers, which \<open>atof\<close> reads as well, are \<open>None\<close>.
\<close>

definition exponent_of :: "string \<Rightarrow> int" where
  "exponent_of s =
     (if take 1 s = ''e'' \<or> take 1 s = ''E''
      then (case take_sign (drop 1 s) of (neg, t) \<Rightarrow>
              let e = int (dec_value (takeWhile is_digit t)) in if neg then - e else e)
      else 0)"

definition lower :: "char \<Rightarrow> char" where
  "lower c = (if 65 \<le> (of_char c :: nat) \<and> (of_char c :: nat) \<le> 90 then char_of ((of_char c :: nat) + 32) else c)"

definition special_float :: "string \<Rightarrow> bool" where
  "special_float s \<longleftrightarrow> map lower (take 3 s) \<in> {''inf'', ''nan''} \<or> map lower (take 2 s) = ''0x''"

definition atof :: "string \<Rightarrow> uint_t option" where
  "atof s0 =
     (case take_sign (dropWhile is_space s0) of (neg, s) \<Rightarrow>
      let whole = takeWhile is_digit s;
          rest = dropWhile is_digit s;
          frac = (if take 1 rest = ''.'' then takeWhile is_digit (drop 1 rest) else []);
          tail = (if take 1 rest = ''.'' then dropWhile is_digit (drop 1 rest) else rest);
          e = exponent_of tail - int (length frac)
      in if special_float s then None
         else if whole = [] \<and> frac = [] then Some 0
         else Some (f64_make neg (mag_round (dec_value (whole @ frac) * 10 ^ nat e * one_units) (10 ^ nat (- e)))))"

text \<open>\<open>%d\<close> of an \<open>int_t\<close> prints its low 32 bits as an \<open>int\<close>; \<open>%f\<close> prints six decimals.\<close>

definition print_int :: "int \<Rightarrow> string" where
  "print_int i = (if i < 0 then ''-'' @ dec_string (nat (- i)) else dec_string (nat i))"

definition print_d :: "int \<Rightarrow> string" where
  "print_d i = print_int (signed_take_bit 31 i)"

definition print_f :: "uint_t \<Rightarrow> string" where
  "print_f x =
     (let sign = (if is_negative x then ''-'' else []) in
      if is_nan x then sign @ ''nan''
      else if is_inf x then sign @ ''inf''
      else let n = round_even (mag_val (magnitude x) * 10 ^ 6) one_units; d = dec_string (n mod 10 ^ 6)
           in sign @ dec_string (n div 10 ^ 6) @ ''.'' @ replicate (6 - length d) CHR ''0'' @ d)"

section \<open>Rounding what needs no rounding\<close>

lemma bits_bounds: "0 < n \<Longrightarrow> 2 ^ (bits n - 1) \<le> n \<and> n < 2 ^ bits n \<and> 0 < bits n"
proof (induction n rule: bits.induct)
  case (1 n)
  show ?case
  proof (cases "n div 2 = 0")
    case True
    with 1(2) have "n = 1" by auto
    then show ?thesis by (simp add: bits.simps)
  next
    case False
    with 1 have ih: "2 ^ (bits (n div 2) - 1) \<le> n div 2" "n div 2 < 2 ^ bits (n div 2)" "0 < bits (n div 2)"
      by auto
    have b: "bits n = Suc (bits (n div 2))" using 1(2) by (simp add: bits.simps)
    obtain k where k: "bits (n div 2) = Suc k" using ih(3) gr0_implies_Suc by blast
    have "2 * 2 ^ k \<le> n" using ih(1) k by auto
    moreover have "n < 2 * 2 ^ bits (n div 2)" using ih(2) by auto
    ultimately show ?thesis using b k by simp
  qed
qed

lemma round_even_1 [simp]: "round_even n (Suc 0) = n"
  by (simp add: round_even_def)

lemma round_even_exact: "0 < d \<Longrightarrow> round_even (m * d) d = m"
  by (simp add: round_even_def)

lemma mag_val_small:
  assumes "m < 2 ^ 53"
  shows "mag_val m = m"
proof -
  have "m div 2 ^ 52 < 2" using assms by (simp add: less_mult_imp_div_less)
  then have "m div 2 ^ 52 = 0 \<or> m div 2 ^ 52 = 1" by linarith
  then show ?thesis
  proof
    assume 1: "m div 2 ^ 52 = 1"
    have "m = 2 ^ 52 * (m div 2 ^ 52) + m mod 2 ^ 52" by (rule mult_div_mod_eq [symmetric])
    then have "m = 2 ^ 52 + m mod 2 ^ 52" unfolding 1 by simp
    then show ?thesis by (simp add: mag_val_def Let_def 1)
  qed (simp add: mag_val_def)
qed

lemma mag_val_norm:
  assumes "2 ^ 52 \<le> m" "m < 2 ^ 53"
  shows "mag_val (s * 2 ^ 52 + m) = m * 2 ^ s"
proof -
  define f where "f = m - 2 ^ 52"
  have f: "m = 2 ^ 52 + f" "f < 2 ^ 52" using assms by (simp_all add: f_def)
  have e: "s * 2 ^ 52 + m = f + (s + 1) * 2 ^ 52" using f(1) by simp
  have "(s * 2 ^ 52 + m) div 2 ^ 52 = s + 1" unfolding e using f(2) by (subst div_mult_self1) auto
  moreover have "(s * 2 ^ 52 + m) mod 2 ^ 52 = f" unfolding e using f(2) by (subst mod_mult_self1) auto
  ultimately show ?thesis using f(1) by (simp add: mag_val_def Let_def)
qed

text \<open>A number with at most 53 significant bits, below the greatest exponent, is its own rounding.\<close>

definition fits53 :: "nat \<Rightarrow> bool" where
  "fits53 k \<longleftrightarrow> (\<exists>a j. k = a * 2 ^ j \<and> a < 2 ^ 53) \<and> k < 2 ^ 2098"

lemma mag_round_exact:
  assumes "fits53 k"
  shows "mag_val (mag_round k 1) = k \<and> mag_round k 1 < INF_mag"
proof -
  obtain a j where k: "k = a * 2 ^ j" "a < 2 ^ 53" "k < 2 ^ 2098" using assms by (auto simp: fits53_def)
  define s where "s = bits k - 53"
  have r: "mag_round k 1 = min (s * 2 ^ 52 + round_even k (2 ^ s)) INF_mag"
    by (simp add: mag_round_def s_def Let_def)
  show ?thesis
  proof (cases "s = 0")
    case True
    have small: "k < 2 ^ 53"
    proof (cases "k = 0")
      case False
      then have "k < 2 ^ bits k" using bits_bounds by simp
      also have "\<dots> \<le> 2 ^ 53" using True by (intro power_increasing) (auto simp: s_def)
      finally show ?thesis .
    qed simp
    then have "mag_round k 1 = k" using True r by (simp add: INF_mag_def)
    then show ?thesis using small by (simp add: mag_val_small INF_mag_def)
  next
    case False
    have "bits 0 = 0" by (subst bits.simps) simp
    with False have b: "bits k = s + 53" and pos: "0 < k" by (auto simp: s_def intro!: gr0I)
    have sub: "s + 53 - 1 = s + 52" by simp
    have lo: "2 ^ (s + 52) \<le> k" and hi: "k < 2 ^ (s + 53)"
      using bits_bounds[OF pos] unfolding b sub by blast+
    have "s \<le> j"
    proof (rule ccontr)
      assume "\<not> s \<le> j"
      then have "j + 53 \<le> s + 52" by simp
      then have "(2::nat) ^ (j + 53) \<le> 2 ^ (s + 52)" by (rule power_increasing) simp
      moreover have "k < 2 ^ (j + 53)" using k(1,2) by (simp add: power_add)
      ultimately show False using lo by (meson le_trans not_le)
    qed
    define m where "m = a * 2 ^ (j - s)"
    have km: "k = m * 2 ^ s" using k(1) \<open>s \<le> j\<close> by (simp add: m_def power_add [symmetric])
    have m: "2 ^ 52 \<le> m" "m < 2 ^ 53" using lo hi km by (simp_all add: power_add mult.commute)
    have "s < 2046"
    proof (rule ccontr)
      assume "\<not> s < 2046"
      then have "(2::nat) ^ 2098 \<le> 2 ^ (s + 52)" by (rule_tac power_increasing) auto
      from this lo have "2 ^ 2098 \<le> k" by (rule order_trans)
      with k(3) show False by (rule less_le_not_le [THEN iffD1, THEN conjunct2, THEN notE])
    qed
    then have "s * 2 ^ 52 + m < INF_mag" using m(2) by (simp add: INF_mag_def)
    moreover have "round_even k (2 ^ s) = m" using km by (simp add: round_even_exact)
    ultimately show ?thesis using r mag_val_norm[OF m, of s] km by simp
  qed
qed

lemma fits53_nat:
  assumes "n \<le> 2 ^ 53"
  shows "fits53 (n * one_units)"
proof -
  have "n * one_units \<le> 2 ^ 53 * 2 ^ 1074" unfolding one_units_def using assms by (rule mult_right_mono) simp
  also have "\<dots> = (2::nat) ^ 1127" by (simp only: power_add [symmetric]) simp
  also have "\<dots> < 2 ^ 2098" by (rule power_strict_increasing) auto
  finally have b: "n * one_units < 2 ^ 2098" .
  show ?thesis
  proof (cases "n = 2 ^ 53")
    case True
    have "n * one_units = 1 * 2 ^ (53 + 1074)" by (simp only: True power_add one_units_def)
    moreover have "(1::nat) < 2 ^ 53" by simp
    ultimately show ?thesis using b unfolding fits53_def by blast
  next
    case False
    then have "n < 2 ^ 53" using assms by simp
    then show ?thesis using b unfolding fits53_def one_units_def by blast
  qed
qed

lemma div_mult_mult2_nat: "0 < (c::nat) \<Longrightarrow> n * c div (d * c) = n div d"
  by (rule div_mult_mult2) simp

lemma round_even_cancel:
  assumes "0 < c" "0 < d"
  shows "round_even (n * c) (d * c) = round_even n d"
proof -
  have "n * c div (d * c) = n div d" using assms(1) by (rule div_mult_mult2_nat)
  moreover have "n * c mod (d * c) = n mod d * c" by (rule mod_mult_mult2)
  moreover have "2 * (n mod d * c) < d * c \<longleftrightarrow> 2 * (n mod d) < d"
    "2 * (n mod d * c) = d * c \<longleftrightarrow> 2 * (n mod d) = d"
    using assms(1) by (simp_all only: mult.assoc [symmetric] mult_less_cancel2 mult_cancel2) auto
  ultimately show ?thesis by (simp add: round_even_def Let_def)
qed

lemma mag_round_cancel:
  assumes "0 < c"
  shows "mag_round (n * c) c = mag_round n 1"
  using assms round_even_cancel[OF assms, of "2 ^ (bits n - 53)" n]
  by (simp add: mag_round_def Let_def mult.commute)

section \<open>Encoding and decoding\<close>

lemma unat_make: "m < 2 ^ 63 \<Longrightarrow> unat (f64_make neg m) = (if neg then 2 ^ 63 else 0) + m"
  unfolding f64_make_def unsigned_of_nat by (simp add: take_bit_nat_eq_self)

lemma magnitude_make [simp]: "m < 2 ^ 63 \<Longrightarrow> magnitude (f64_make neg m) = m"
  by (auto simp: magnitude_def unat_make)

lemma is_negative_make [simp]: "m < 2 ^ 63 \<Longrightarrow> is_negative (f64_make neg m) = neg"
  by (auto simp: is_negative_def unat_make)

lemma INF_mag_less: "INF_mag < 2 ^ 63"
  by (simp add: INF_mag_def)

lemma mag_round_le: "mag_round n d \<le> INF_mag"
  by (simp add: mag_round_def Let_def)

lemma mag_round_0 [simp]: "0 < d \<Longrightarrow> mag_round 0 d = 0"
  by (simp add: mag_round_def round_even_def Let_def bits.simps)

lemma mag_val_0 [simp]: "mag_val 0 = 0"
  by (simp add: mag_val_small)

text \<open>A double that stands for the number \<open>k\<close> in the unit 2^-1074.\<close>

definition denotes :: "uint_t \<Rightarrow> int \<Rightarrow> bool" where
  "denotes w k \<longleftrightarrow> \<not> is_nan w \<and> \<not> is_inf w \<and> f64_val w = k"

lemma denotes_make:
  assumes "fits53 k"
  shows "denotes (f64_make neg (mag_round k 1)) (if neg then - int k else int k)"
proof -
  have "mag_round k 1 < INF_mag" "mag_val (mag_round k 1) = k" using mag_round_exact[OF assms] by auto
  moreover from this(1) have "mag_round k 1 < 2 ^ 63" using INF_mag_less by simp
  ultimately show ?thesis by (auto simp: denotes_def is_nan_def is_inf_def f64_val_def)
qed

lemma denotes_round: "fits53 (nat \<bar>k\<bar>) \<Longrightarrow> denotes (f64_round k) k"
  using denotes_make[of "nat \<bar>k\<bar>" "k < 0"] by (cases "k < 0") (simp_all add: f64_round_def)

definition small_int :: "int \<Rightarrow> bool" where
  "small_int i \<longleftrightarrow> \<bar>i\<bar> \<le> 2 ^ 53"

lemma fits53_int: "small_int i \<Longrightarrow> fits53 (nat \<bar>i * int one_units\<bar>)"
  using fits53_nat[of "nat \<bar>i\<bar>"] by (simp add: small_int_def abs_mult nat_mult_distrib nat_power_eq)

lemma denotes_of_int: "small_int i \<Longrightarrow> denotes (f64_of_int i) (i * int one_units)"
  unfolding f64_of_int_def by (rule denotes_round) (rule fits53_int)

lemma denotes_0: "f64_of_int 0 = 0"
  by (simp add: f64_of_int_def f64_round_def f64_make_def)

section \<open>Arithmetic on numbers that denote integers\<close>

lemma unit_pos [simp]: "0 < one_units" "one_units \<noteq> 0"
  by (simp_all add: one_units_def)

lemma is_negative_of_int: "is_negative (f64_of_int i) \<longleftrightarrow> i < 0"
proof -
  have "mag_round n 1 < 2 ^ 63" for n using mag_round_le[of n 1] INF_mag_less by simp
  then show ?thesis unfolding f64_of_int_def f64_round_def by (simp add: mult_less_0_iff)
qed

lemma mag_of_int: "small_int i \<Longrightarrow> mag_val (magnitude (f64_of_int i)) = nat \<bar>i\<bar> * one_units"
proof -
  assume i: "small_int i"
  have "nat \<bar>i * int one_units\<bar> = nat \<bar>i\<bar> * one_units"
    by (simp add: abs_mult nat_mult_distrib nat_power_eq)
  then have "mag_val (mag_round (nat \<bar>i\<bar> * one_units) 1) = nat \<bar>i\<bar> * one_units"
    using mag_round_exact[OF fits53_int[OF i]] by simp
  moreover have "mag_round (nat \<bar>i\<bar> * one_units) 1 < 2 ^ 63"
    using mag_round_le[of "nat \<bar>i\<bar> * one_units" 1] INF_mag_less by simp
  moreover have "magnitude (f64_of_int i) = mag_round (nat \<bar>i\<bar> * one_units) 1"
    using \<open>nat \<bar>i * int one_units\<bar> = _\<close> calculation(2) by (simp add: f64_of_int_def f64_round_def)
  ultimately show ?thesis by simp
qed

lemma zero_of_int: "small_int i \<Longrightarrow> is_zero (f64_of_int i) \<longleftrightarrow> i = 0"
  using mag_of_int[of i] by (auto simp: is_zero_def denotes_0 magnitude_def)

lemma f64_add_int:
  assumes "small_int i" "small_int j"
  shows "f64_add (f64_of_int i) (f64_of_int j) = f64_of_int (i + j)"
proof -
  have d: "denotes (f64_of_int i) (i * int one_units)" "denotes (f64_of_int j) (j * int one_units)"
    using assms denotes_of_int by auto
  have s: "i * int one_units + j * int one_units = (i + j) * int one_units" by (rule distrib_right [symmetric])
  show ?thesis
  proof (cases "i + j = 0")
    case True
    then have "\<not> (i < 0 \<and> j < 0)" by linarith
    with d s True show ?thesis
      by (simp add: f64_add_def denotes_def is_negative_of_int denotes_0 f64_make_def)
  next
    case False
    then have "(i + j) * int one_units \<noteq> 0" by simp
    with d s show ?thesis unfolding f64_add_def denotes_def f64_of_int_def by simp
  qed
qed

lemma f64_neg_of_int:
  assumes "i \<noteq> 0"
  shows "f64_neg (f64_of_int i) = f64_of_int (- i)"
proof -
  have m: "mag_round (nat \<bar>i * int one_units\<bar>) 1 < 2 ^ 63"
    using mag_round_le[of "nat \<bar>i * int one_units\<bar>" 1] INF_mag_less by simp
  have sgn: "(- i * int one_units < 0) = (\<not> i * int one_units < 0)"
    using assms by (auto simp: mult_less_0_iff zero_less_mult_iff not_less)
  have "nat \<bar>- i * int one_units\<bar> = nat \<bar>i * int one_units\<bar>" by simp
  then show ?thesis unfolding f64_neg_def f64_of_int_def f64_round_def using m sgn by simp
qed

lemma neg_zero: "\<not> is_nan (f64_neg 0)" "\<not> is_inf (f64_neg 0)" "f64_val (f64_neg 0) = 0" "\<not> is_nan 0"
    "\<not> is_inf 0" "f64_val 0 = 0" "\<not> is_negative 0" "f64_make False 0 = 0"
  by (simp_all add: is_nan_def is_inf_def f64_neg_def f64_val_def magnitude_def INF_mag_def is_negative_def f64_make_def)

lemma f64_sub_int:
  assumes "small_int i" "small_int j"
  shows "f64_sub (f64_of_int i) (f64_of_int j) = f64_of_int (i - j)"
proof (cases "j = 0")
  case False
  have "small_int (- j)" using assms(2) by (simp add: small_int_def)
  moreover have "\<not> is_nan (f64_of_int j)" using denotes_of_int[OF assms(2)] by (simp add: denotes_def)
  ultimately show ?thesis
    using f64_add_int[OF assms(1)] f64_neg_of_int[OF False] by (simp add: f64_sub_def)
next
  case j: True
  have di: "denotes (f64_of_int i) (i * int one_units)" using assms denotes_of_int by auto
  show ?thesis
  proof (cases "i = 0")
    case True
    then show ?thesis using j by (simp add: f64_sub_def f64_add_def denotes_0 neg_zero)
  next
    case False
    then have "i * int one_units \<noteq> 0" by simp
    moreover have "f64_round (i * int one_units) = f64_of_int i" by (simp add: f64_of_int_def)
    ultimately show ?thesis using di j by (simp add: f64_sub_def f64_add_def denotes_def denotes_0 neg_zero)
  qed
qed

lemma f64_mul_int:
  assumes "small_int i" "small_int j" "small_int (i * j)" "i \<noteq> 0" "j \<noteq> 0"
  shows "f64_mul (f64_of_int i) (f64_of_int j) = f64_of_int (i * j)"
proof -
  have d: "denotes (f64_of_int i) (i * int one_units)" "denotes (f64_of_int j) (j * int one_units)"
    using assms denotes_of_int by auto
  have "mag_val (magnitude (f64_of_int i)) * mag_val (magnitude (f64_of_int j))
      = nat \<bar>i * j\<bar> * one_units * one_units"
    using assms by (simp add: mag_of_int abs_mult nat_mult_distrib)
  moreover have "mag_round (nat \<bar>i * j\<bar> * one_units * one_units) one_units = mag_round (nat \<bar>i * j\<bar> * one_units) 1"
    by (rule mag_round_cancel) simp
  moreover have "nat \<bar>i * j * int one_units\<bar> = nat \<bar>i * j\<bar> * one_units"
    by (simp add: abs_mult nat_mult_distrib)
  moreover have "(i < 0) \<noteq> (j < 0) \<longleftrightarrow> i * j * int one_units < 0"
    using assms(4,5) by (auto simp: mult_less_0_iff zero_less_mult_iff not_less)
  ultimately show ?thesis
    using d by (simp add: f64_mul_def denotes_def is_negative_of_int Let_def f64_of_int_def[of "i * j"] f64_round_def)
qed

text \<open>The comparisons of numbers that denote integers.\<close>

lemma f64_compare_int:
  assumes "small_int i" "small_int j"
  shows "f64_lt (f64_of_int i) (f64_of_int j) \<longleftrightarrow> i < j"
    "f64_le (f64_of_int i) (f64_of_int j) \<longleftrightarrow> i \<le> j"
    "f64_eq (f64_of_int i) (f64_of_int j) \<longleftrightarrow> i = j"
  using denotes_of_int[OF assms(1)] denotes_of_int[OF assms(2)]
  by (auto simp: denotes_def f64_lt_def f64_le_def f64_eq_def)

lemma f64_trunc_int:
  assumes "small_int i"
  shows "f64_trunc (f64_of_int i) = Some i"
proof -
  have "- (2 ^ 63) \<le> i" "i < 2 ^ 63" using assms by (auto simp: small_int_def)
  moreover have "mag_val (magnitude (f64_of_int i)) div one_units = nat \<bar>i\<bar>"
    using mag_of_int[OF assms] by simp
  ultimately show ?thesis
    using denotes_of_int[OF assms] by (auto simp: f64_trunc_def denotes_def is_negative_of_int Let_def)
qed

lemma f64_bool: "f64_of_bool b = 0 \<longleftrightarrow> \<not> b"
proof -
  have "f64_of_int 1 \<noteq> 0"
    using f64_compare_int(3)[of 1 0] f64_compare_int(3)[of 0 0] by (auto simp: small_int_def denotes_0)
  then show ?thesis by (simp add: f64_of_bool_def denotes_0)
qed

end
