(* ===== verification/Assembler.thy ===== *)
theory Assembler
  imports F64 AddressCalculator "HOL-Library.List_Lexorder" "HOL-Library.Char_ord"
begin

text \<open>
  src/src/program/Assembler.cpp: a class file is a header (the address where the code starts and the
  address of the static constructor), a section of constants (strings and symbol tables) and the
  code, 32 bytes an instruction. Words are little endian. Positions are natural numbers and become
  64-bit words when they are written. The addresses of the strings the compiler allocated are not
  known: \<open>addr\<close> gives the word of an operand that is still a pointer when it is written, which only
  the second operand of SET_CATCH is. \<open>junk\<close> is the memory after the one-character literal of which
  the assembler copies eight bytes.
\<close>

section \<open>Bytes\<close>

fun le_bytes :: "nat \<Rightarrow> nat \<Rightarrow> byte list" where
  "le_bytes 0 n = []"
| "le_bytes (Suc k) n = word_of_nat (n mod 256) # le_bytes k (n div 256)"

fun le_value :: "byte list \<Rightarrow> nat" where
  "le_value [] = 0"
| "le_value (b # bs) = unat b + 256 * le_value bs"

definition word_bytes :: "uint_t \<Rightarrow> byte list" where
  "word_bytes w = le_bytes 8 (unat w)"

definition read_word :: "byte list \<Rightarrow> nat \<Rightarrow> fault + uint_t" where
  "read_word b p =
     (if p + 8 \<le> length b then Inr (word_of_nat (le_value (take 8 (drop p b)))) else Inl Out_Of_Bounds)"

definition char_byte :: "char \<Rightarrow> byte" where
  "char_byte c = word_of_nat (of_char c)"

definition byte_char :: "byte \<Rightarrow> char" where
  "byte_char b = char_of (unat b)"

definition cstr :: "string \<Rightarrow> byte list" where
  "cstr s = map char_byte s @ [0]"

text \<open>Reading a string up to its NUL; without one the code runs off the block.\<close>

definition read_cstr :: "byte list \<Rightarrow> nat \<Rightarrow> fault + string" where
  "read_cstr b p =
     (let s = takeWhile (\<lambda>x. x \<noteq> 0) (drop p b)
      in if p + length s < length b then Inr (map byte_char s) else Inl Out_Of_Bounds)"

definition c_string :: "string \<Rightarrow> bool" where
  "c_string s \<longleftrightarrow> CHR 0x00 \<notin> set s"

section \<open>Constants\<close>

text \<open>\<open>addData\<close>: the position of the data and the bytes with the data at the end.\<close>

definition addData :: "byte list \<Rightarrow> byte list \<Rightarrow> nat \<times> byte list" where
  "addData d b = (length b, b @ d)"

text \<open>The set ordered by register: of two names with one register the later is not inserted.\<close>

fun set_insert :: "string \<times> nat \<Rightarrow> (string \<times> nat) list \<Rightarrow> (string \<times> nat) list" where
  "set_insert x [] = [x]"
| "set_insert x (y # ys) =
     (if snd x < snd y then x # y # ys
      else if snd y < snd x then y # set_insert x ys
      else y # ys)"

definition setOfWords :: "(string \<times> nat) list \<Rightarrow> (string \<times> nat) list" where
  "setOfWords t = fold set_insert (sort_key fst t) []"

definition symbol_entry :: "'f fkind \<Rightarrow> string \<times> nat \<Rightarrow> byte list" where
  "symbol_entry fk x = cstr (fst x) @ [if map_of (privatesTable fk) (fst x) = None then 0 else 1]"

definition symbol_bytes :: "'f fkind \<Rightarrow> byte list" where
  "symbol_bytes fk = word_bytes (word_of_nat (length (symbolTable fk))) @
     concat (map (symbol_entry fk) (setOfWords (symbolTable fk)))"

fun str_of :: "operand \<Rightarrow> fault + string" where
  "str_of (Str s) = Inr s"
| "str_of _ = Inl Undefined_Value"

fun fun_of :: "operand \<Rightarrow> fault + nat" where
  "fun_of (Fun_ptr f) = Inr f"
| "fun_of _ = Inl Undefined_Value"

text \<open>One turn of the loop over the constants: the instruction with its operands replaced.\<close>

definition place_constants ::
  "(nat \<Rightarrow> 'f fkind) \<Rightarrow> z_instruction \<Rightarrow> byte list \<Rightarrow> fault + (z_instruction \<times> byte list)" where
  "place_constants tabs i b =
     (if opc i = IMPORT_CLS then
        ebind (str_of (r0 i)) (\<lambda>import.
        ebind (str_of (r1 i)) (\<lambda>alias.
        case addData (cstr alias) b of (p1, b1) \<Rightarrow>
        case addData (cstr import) b1 of (p0, b2) \<Rightarrow>
        Inr (i\<lparr>r1 := Num p1, r0 := Num p0\<rparr>, b2)))
      else if opc i = MOV_STR \<or> opc i = GET_FIELD_IMMEDIATE then
        ebind (str_of (r1 i)) (\<lambda>str.
        case addData (cstr str) b of (p1, b1) \<Rightarrow> Inr (i\<lparr>r1 := Num p1\<rparr>, b1))
      else if opc i = FFRAME then
        ebind (fun_of (r1 i)) (\<lambda>f.
        case addData (symbol_bytes (tabs f)) b of (p1, b1) \<Rightarrow> Inr (i\<lparr>r1 := Num p1\<rparr>, b1))
      else Inr (i, b))"

fun constants_pass ::
  "(nat \<Rightarrow> 'f fkind) \<Rightarrow> program \<Rightarrow> byte list \<Rightarrow> fault + (program \<times> byte list)" where
  "constants_pass tabs [] b = Inr ([], b)"
| "constants_pass tabs (i # is) b =
     ebind (place_constants tabs i b) (\<lambda>(i', b1).
     ebind (constants_pass tabs is b1) (\<lambda>(is', b2). Inr (i' # is', b2)))"

section \<open>Labels\<close>

type_synonym label_map = "string \<Rightarrow> nat option"

definition poke_word :: "nat \<Rightarrow> uint_t \<Rightarrow> byte list \<Rightarrow> byte list" where
  "poke_word p w b = take p b @ word_bytes w @ drop (p + 8) b"

text \<open>\<open>pos\<close> is the address of the next instruction; the static constructor's goes into the header.\<close>

fun labels_pass :: "program \<Rightarrow> nat \<Rightarrow> label_map \<Rightarrow> byte list \<Rightarrow> fault + (label_map \<times> byte list)" where
  "labels_pass [] pos lm b = Inr (lm, b)"
| "labels_pass (i # is) pos lm b =
     (if opc i = LABEL then
        ebind (str_of (r0 i)) (\<lambda>l.
        labels_pass is pos (lm(l \<mapsto> pos))
          (if l = ''__static__constructor__'' then poke_word 8 (word_of_nat pos) b else b))
      else if opc i \<noteq> COMMENT then labels_pass is (pos + 32) lm b
      else labels_pass is pos lm b)"

text \<open>\<open>std::map\<close>'s \<open>operator[]\<close>: 0 for an unknown label.\<close>

definition label_at :: "label_map \<Rightarrow> operand \<Rightarrow> fault + operand" where
  "label_at lm x = ebind (str_of x) (\<lambda>l. Inr (Num (case lm l of None \<Rightarrow> 0 | Some p \<Rightarrow> p)))"

section \<open>Code\<close>

definition is_real :: "z_instruction \<Rightarrow> bool" where
  "is_real i \<longleftrightarrow> opc i \<noteq> COMMENT \<and> opc i \<noteq> LABEL"

definition takes_number :: "opcode \<Rightarrow> bool" where
  "takes_number c \<longleftrightarrow> c = MOV_NUMBER \<or> JMP_LESS_I \<le> c \<and> c \<le> JMP_N_EQUAL_I"

definition link_instr :: "label_map \<Rightarrow> z_instruction \<Rightarrow> fault + z_instruction" where
  "link_instr lm i =
     (if JMP_LESS \<le> opc i \<and> opc i \<le> JMP_N_EQUAL_I then
        ebind (label_at lm (r2 i)) (\<lambda>x. Inr (i\<lparr>r2 := x\<rparr>))
      else if opc i = JMP_NOT_TRUE \<or> opc i = JMP_TRUE then
        ebind (label_at lm (r1 i)) (\<lambda>x. Inr (i\<lparr>r1 := x\<rparr>))
      else if opc i = JMP then
        ebind (label_at lm (r0 i)) (\<lambda>x. Inr (i\<lparr>r0 := x\<rparr>))
      else if opc i = MOV_FNC then
        ebind (label_at lm (r1 i)) (\<lambda>x. Inr (i\<lparr>r1 := x\<rparr>))
      else if opc i = SET_CATCH then
        ebind (label_at lm (r0 i)) (\<lambda>x. Inr (i\<lparr>r0 := x\<rparr>))
      else if opc i = FFRAME then
        ebind (label_at lm (r2 i)) (\<lambda>x. Inr (i\<lparr>r2 := x\<rparr>))
      else Inr i)"

definition number_word :: "string \<Rightarrow> fault + uint_t" where
  "number_word s =
     (if s = ''true'' then Inr (f64_of_int 1)
      else if s = ''false'' then Inr 0
      else case atof s of None \<Rightarrow> Inl Undefined_Value | Some w \<Rightarrow> Inr w)"

fun operand_word :: "(operand \<Rightarrow> uint_t) \<Rightarrow> operand \<Rightarrow> uint_t" where
  "operand_word addr (Num n) = word_of_nat n"
| "operand_word addr x = addr x"

definition middle_word :: "(operand \<Rightarrow> uint_t) \<Rightarrow> z_instruction \<Rightarrow> fault + uint_t" where
  "middle_word addr i =
     (if takes_number (opc i) then ebind (str_of (r1 i)) number_word else Inr (operand_word addr (r1 i)))"

definition encode_instr :: "(operand \<Rightarrow> uint_t) \<Rightarrow> z_instruction \<Rightarrow> fault + byte list" where
  "encode_instr addr i =
     ebind (middle_word addr i) (\<lambda>m.
     Inr (word_bytes (word_of_nat (opcode_num (opc i))) @ word_bytes (operand_word addr (r0 i)) @
          word_bytes m @ word_bytes (operand_word addr (r2 i))))"

fun code_pass :: "(operand \<Rightarrow> uint_t) \<Rightarrow> label_map \<Rightarrow> program \<Rightarrow> byte list \<Rightarrow> fault + byte list" where
  "code_pass addr lm [] b = Inr b"
| "code_pass addr lm (i # is) b =
     (if is_real i then
        ebind (link_instr lm i) (\<lambda>i'.
        ebind (encode_instr addr i') (\<lambda>e. code_pass addr lm is (b @ e)))
      else code_pass addr lm is b)"

definition assemble ::
  "(operand \<Rightarrow> uint_t) \<Rightarrow> byte list \<Rightarrow> (nat \<Rightarrow> 'f fkind) \<Rightarrow> program \<Rightarrow> fault + byte list" where
  "assemble addr junk tabs p =
     ebind (constants_pass tabs p (word_bytes 0 @ take 8 (cstr '' '' @ junk))) (\<lambda>(p', b).
     let sizeof_constants = length b in
     ebind (labels_pass p' sizeof_constants (\<lambda>_. None) b) (\<lambda>(lm, b1).
     ebind (code_pass addr lm p' b1) (\<lambda>b2.
     Inr (poke_word 0 (word_of_nat sizeof_constants) b2))))"

section \<open>Reading back\<close>

lemma le_bytes_length [simp]: "length (le_bytes k n) = k"
  by (induction k arbitrary: n) auto

lemma word_bytes_length [simp]: "length (word_bytes w) = 8"
  by (simp add: word_bytes_def)

lemma word_bytes_nonempty [simp]: "word_bytes w \<noteq> []"
  using word_bytes_length[of w] by (cases "word_bytes w") simp_all

lemma le_value_bytes: "le_value (le_bytes k n) = n mod 256 ^ k"
proof (induction k arbitrary: n)
  case (Suc k)
  have "unat (word_of_nat (n mod 256) :: byte) = n mod 256" by (simp add: unsigned_of_nat take_bit_eq_mod)
  then show ?case using Suc[of "n div 256"] by (simp add: mod_mult2_eq)
qed simp

lemma le_value_word: "word_of_nat (le_value (word_bytes w)) = w"
proof -
  have "unat w < 256 ^ 8" by (rule order.strict_trans2[OF unsigned_less]) simp
  then show ?thesis by (simp add: word_bytes_def le_value_bytes)
qed

lemma read_word_here: "length xs = p \<Longrightarrow> read_word (xs @ word_bytes w @ ys) p = Inr w"
  by (auto simp: read_word_def le_value_word)

lemma read_word_slice:
  assumes "take 8 (drop p b) = word_bytes w"
  shows "read_word b p = Inr w"
proof -
  have "length (take 8 (drop p b)) = 8" by (simp add: assms)
  then have "p + 8 \<le> length b" by auto
  then show ?thesis by (simp add: read_word_def assms le_value_word)
qed

lemma char_byte_inverse: "byte_char (char_byte c) = c"
  by (simp add: byte_char_def char_byte_def unsigned_of_nat take_bit_nat_eq_self)

lemma char_byte_0: "char_byte c = 0 \<longleftrightarrow> c = CHR 0x00"
proof
  assume "char_byte c = 0"
  moreover have "char_of (0 :: nat) = CHR 0x00" by code_simp
  ultimately show "c = CHR 0x00" using char_byte_inverse[of c] by (simp add: byte_char_def)
qed (simp add: char_byte_def)

lemma read_cstr_here:
  assumes "length xs = p" "c_string s"
  shows "read_cstr (xs @ cstr s @ ys) p = Inr s"
proof -
  have "\<forall>x \<in> set (map char_byte s). x \<noteq> 0" using assms(2) by (auto simp: c_string_def char_byte_0)
  then have t: "takeWhile (\<lambda>x. x \<noteq> 0) (drop p (xs @ cstr s @ ys)) = map char_byte s"
    using assms(1) by (simp add: cstr_def takeWhile_append2 takeWhile_tail)
  show ?thesis unfolding read_cstr_def t using assms(1)
    by (simp add: cstr_def o_def char_byte_inverse)
qed

section \<open>What the passes do\<close>

text \<open>The constants: every turn appends, and leaves the opcode alone.\<close>

lemma place_constants_grow:
  "place_constants tabs i b = Inr (i', b') \<Longrightarrow> opc i' = opc i \<and> r2 i' = r2 i \<and>
     (r0 i' = r0 i \<or> opc i = IMPORT_CLS) \<and> (\<exists>d. b' = b @ d)"
  by (auto simp: place_constants_def addData_def ebind_Inr_iff split: if_splits)

lemma place_constants_other:
  "opc i \<notin> {IMPORT_CLS, MOV_STR, GET_FIELD_IMMEDIATE, FFRAME} \<Longrightarrow>
   place_constants tabs i b = Inr (i', b') \<longleftrightarrow> i' = i \<and> b' = b"
  by (auto simp: place_constants_def)

lemma constants_pass_placed:
  assumes "constants_pass tabs p b = Inr (p', b')"
  shows "length p' = length p \<and> (\<exists>d. b' = b @ d) \<and>
    (\<forall>i < length p. \<exists>x y z. place_constants tabs (p ! i) (b @ x) = Inr (p' ! i, b @ x @ y) \<and> b' = b @ x @ y @ z)"
  using assms
proof (induction tabs p b arbitrary: p' b' rule: constants_pass.induct)
  case (2 tabs i rest b)
  obtain i1 b1 p1 where 1: "place_constants tabs i b = Inr (i1, b1)"
    "constants_pass tabs rest b1 = Inr (p1, b')" "p' = i1 # p1"
    using "2.prems" by (auto simp: ebind_Inr_iff)
  obtain d where d: "b1 = b @ d" using place_constants_grow[OF 1(1)] by auto
  note IH = "2.IH"[OF 1(1) refl 1(2)]
  have "\<exists>x y z. place_constants tabs ((i # rest) ! k) (b @ x) = Inr (p' ! k, b @ x @ y) \<and> b' = b @ x @ y @ z"
    if k: "k < length (i # rest)" for k
  proof (cases k)
    case 0
    moreover obtain e where "b' = b1 @ e" using IH by auto
    ultimately have "place_constants tabs ((i # rest) ! k) (b @ []) = Inr (p' ! k, b @ [] @ d) \<and> b' = b @ [] @ d @ e"
      using 1 d by simp
    then show ?thesis by blast
  next
    case (Suc k')
    then have "k' < length rest" using k by simp
    then obtain x y z where "place_constants tabs (rest ! k') (b1 @ x) = Inr (p1 ! k', b1 @ x @ y)"
      "b' = b1 @ x @ y @ z" using IH by blast
    then have "place_constants tabs ((i # rest) ! k) (b @ (d @ x)) = Inr (p' ! k, b @ (d @ x) @ y)
        \<and> b' = b @ (d @ x) @ y @ z"
      using 1(3) d Suc by simp
    then show ?thesis by blast
  qed
  then show ?case using IH 1(3) d by auto
qed simp

text \<open>The number of instructions assembled before index \<open>i\<close>.\<close>

definition reals :: "program \<Rightarrow> nat \<Rightarrow> nat" where
  "reals p i = length (filter is_real (take i p))"

lemma reals_0 [simp]: "reals p 0 = 0"
  by (simp add: reals_def)

lemma reals_Cons [simp]: "reals (x # p) (Suc i) = (if is_real x then 1 else 0) + reals p i"
  by (simp add: reals_def)

definition last_label :: "program \<Rightarrow> string \<Rightarrow> nat \<Rightarrow> bool" where
  "last_label p l j \<longleftrightarrow> j < length p \<and> opc (p ! j) = LABEL \<and> r0 (p ! j) = Str l \<and>
     (\<forall>k. j < k \<and> k < length p \<and> opc (p ! k) = LABEL \<longrightarrow> r0 (p ! k) \<noteq> Str l)"

lemma str_of_Inr: "str_of x = Inr s \<longleftrightarrow> x = Str s"
  by (cases x) auto

lemma poke_word_length [simp]: "p + 8 \<le> length b \<Longrightarrow> length (poke_word p w b) = length b"
  by (simp add: poke_word_def)

lemma poke_word_beyond: "p + 8 \<le> q \<Longrightarrow> p \<le> length b \<Longrightarrow> drop q (poke_word p w b) = drop q b"
  by (simp add: poke_word_def drop_append)

lemma poke_word_before: "q \<le> p \<Longrightarrow> p \<le> length b \<Longrightarrow> take q (poke_word p w b) = take q b"
  by (simp add: poke_word_def take_append min_def)

text \<open>One step of the loop over the labels.\<close>

definition note_static :: "string \<Rightarrow> nat \<Rightarrow> byte list \<Rightarrow> byte list" where
  "note_static l pos b = (if l = ''__static__constructor__'' then poke_word 8 (word_of_nat pos) b else b)"

lemma labels_pass_Cons:
  "labels_pass (i # p) pos lm b = Inr r \<longleftrightarrow>
     (if opc i = LABEL then \<exists>l. r0 i = Str l \<and> labels_pass p pos (lm(l \<mapsto> pos)) (note_static l pos b) = Inr r
      else labels_pass p (if is_real i then pos + 32 else pos) lm b = Inr r)"
  by (auto simp: ebind_Inr_iff str_of_Inr is_real_def note_static_def)

lemmas labels_step = labels_pass_Cons labels_pass.simps(1)

lemma note_static_facts:
  "16 \<le> length b \<Longrightarrow> length (note_static l pos b) = length b \<and> drop 16 (note_static l pos b) = drop 16 b \<and>
     take 8 (note_static l pos b) = take 8 b"
  by (simp add: note_static_def poke_word_beyond poke_word_before)

lemma labels_pass_bytes:
  "labels_pass p pos lm b = Inr (lm', b') \<Longrightarrow> 16 \<le> length b \<Longrightarrow>
     length b' = length b \<and> drop 16 b' = drop 16 b"
proof (induction p arbitrary: pos lm b)
  case (Cons i p)
  show ?case
  proof (cases "opc i = LABEL")
    case True
    then obtain l where "labels_pass p pos (lm(l \<mapsto> pos)) (note_static l pos b) = Inr (lm', b')"
      using Cons.prems(1) by (auto simp: labels_step simp del: labels_pass.simps)
    from Cons.IH[OF this] show ?thesis using Cons.prems(2) note_static_facts[of b l pos] by simp
  next
    case False
    then show ?thesis using Cons by (auto simp: labels_step simp del: labels_pass.simps)
  qed
qed simp

lemma labels_pass_none:
  "labels_pass p pos lm b = Inr (lm', b') \<Longrightarrow>
   \<forall>j < length p. opc (p ! j) = LABEL \<longrightarrow> r0 (p ! j) \<noteq> Str l \<Longrightarrow> lm' l = lm l"
proof (induction p arbitrary: pos lm b)
  case (Cons i p)
  have rest: "\<forall>j < length p. opc (p ! j) = LABEL \<longrightarrow> r0 (p ! j) \<noteq> Str l"
    using Cons.prems(2) by auto
  show ?case
  proof (cases "opc i = LABEL")
    case True
    then obtain n where n: "r0 i = Str n" "labels_pass p pos (lm(n \<mapsto> pos)) (note_static n pos b) = Inr (lm', b')"
      using Cons.prems(1) by (auto simp: labels_step simp del: labels_pass.simps)
    moreover have "n \<noteq> l" using Cons.prems(2) True n(1) by auto
    ultimately show ?thesis using Cons.IH[OF n(2) rest] by simp
  next
    case False
    then show ?thesis using Cons.IH[OF _ rest] Cons.prems(1) by (auto simp: labels_step simp del: labels_pass.simps)
  qed
qed simp

lemma last_label_Cons: "last_label (i # p) l (Suc j) \<longleftrightarrow> last_label p l j"
  by (auto simp: last_label_def less_Suc_eq_0_disj gr0_conv_Suc)

lemma last_label_0:
  "last_label (i # p) l 0 \<longleftrightarrow> opc i = LABEL \<and> r0 i = Str l \<and>
     (\<forall>j < length p. opc (p ! j) = LABEL \<longrightarrow> r0 (p ! j) \<noteq> Str l)"
  by (auto simp: last_label_def gr0_conv_Suc)

lemma labels_pass_last:
  "labels_pass p pos lm b = Inr (lm', b') \<Longrightarrow> last_label p l j \<Longrightarrow> lm' l = Some (pos + 32 * reals p j)"
proof (induction p arbitrary: pos lm b j)
  case Nil
  then show ?case by (simp add: last_label_def)
next
  case (Cons i p)
  show ?case
  proof (cases j)
    case 0
    then have *: "opc i = LABEL" "r0 i = Str l" "\<forall>j < length p. opc (p ! j) = LABEL \<longrightarrow> r0 (p ! j) \<noteq> Str l"
      using Cons.prems(2) by (auto simp: last_label_0)
    then have "labels_pass p pos (lm(l \<mapsto> pos)) (note_static l pos b) = Inr (lm', b')"
      using Cons.prems(1) by (simp add: labels_step del: labels_pass.simps)
    from labels_pass_none[OF this *(3)] show ?thesis using 0 by simp
  next
    case (Suc k)
    then have k: "last_label p l k" using Cons.prems(2) by (simp add: last_label_Cons)
    show ?thesis
      using Cons.prems(1) Suc k Cons.IH[OF _ k]
      by (auto simp: labels_step is_real_def simp del: labels_pass.simps split: if_splits)
  qed
qed

text \<open>The code: 32 bytes for every instruction that is neither a label nor a comment.\<close>

lemma encode_instr_length: "encode_instr addr i = Inr e \<Longrightarrow> length e = 32"
  by (auto simp: encode_instr_def ebind_Inr_iff)

lemma code_pass_grow:
  "code_pass addr lm p b = Inr b' \<Longrightarrow> \<exists>c. b' = b @ c \<and> length c = 32 * reals p (length p)"
proof (induction addr lm p b arbitrary: b' rule: code_pass.induct)
  case (2 addr lm i rest b)
  show ?case
  proof (cases "is_real i")
    case True
    then obtain i' e where e: "link_instr lm i = Inr i'" "encode_instr addr i' = Inr e"
      "code_pass addr lm rest (b @ e) = Inr b'"
      using "2.prems" by (auto simp: ebind_Inr_iff)
    obtain c where "b' = (b @ e) @ c" "length c = 32 * reals rest (length rest)"
      using "2.IH"(1)[OF True e(1,2,3)] by auto
    then show ?thesis using True encode_instr_length[OF e(2)] by auto
  next
    case False
    then show ?thesis using "2.IH"(2)[OF False] "2.prems" by simp
  qed
qed simp

lemma code_pass_at:
  "code_pass addr lm p b = Inr b' \<Longrightarrow> i < length p \<Longrightarrow> is_real (p ! i) \<Longrightarrow>
   \<exists>x y i' e. b' = b @ x @ e @ y \<and> length x = 32 * reals p i \<and>
     link_instr lm (p ! i) = Inr i' \<and> encode_instr addr i' = Inr e"
proof (induction addr lm p b arbitrary: b' i rule: code_pass.induct)
  case (2 addr lm a rest b)
  show ?case
  proof (cases "is_real a")
    case True
    then obtain a' e where e: "link_instr lm a = Inr a'" "encode_instr addr a' = Inr e"
      "code_pass addr lm rest (b @ e) = Inr b'"
      using "2.prems"(1) by (auto simp: ebind_Inr_iff)
    show ?thesis
    proof (cases i)
      case 0
      then show ?thesis using e code_pass_grow[OF e(3)] by fastforce
    next
      case (Suc k)
      then have k: "k < length rest" "is_real (rest ! k)" using "2.prems"(2,3) by auto
      obtain x y i' e' where "b' = (b @ e) @ x @ e' @ y" "length x = 32 * reals rest k"
        "link_instr lm (rest ! k) = Inr i'" "encode_instr addr i' = Inr e'"
        using "2.IH"(1)[OF True e(1,2,3) k] by blast
      then have "b' = b @ (e @ x) @ e' @ y \<and> length (e @ x) = 32 * reals (a # rest) i \<and>
          link_instr lm ((a # rest) ! i) = Inr i' \<and> encode_instr addr i' = Inr e'"
        using True Suc encode_instr_length[OF e(2)] by simp
      then show ?thesis by blast
    qed
  next
    case False
    then obtain k where k: "i = Suc k" using "2.prems"(3) by (cases i) auto
    then show ?thesis using "2.IH"(2)[OF False, of b' k] "2.prems" False by simp
  qed
qed simp

section \<open>The whole file\<close>

lemma constants_pass_same:
  assumes "constants_pass tabs p b = Inr (p', b')" "i < length p"
  shows "opc (p' ! i) = opc (p ! i)"
    and "opc (p ! i) \<notin> {IMPORT_CLS, MOV_STR, GET_FIELD_IMMEDIATE, FFRAME} \<Longrightarrow> p' ! i = p ! i"
    and "r0 (p' ! i) = r0 (p ! i) \<or> opc (p ! i) = IMPORT_CLS" "r2 (p' ! i) = r2 (p ! i)"
proof -
  obtain x y where at: "place_constants tabs (p ! i) (b @ x) = Inr (p' ! i, y)"
    using constants_pass_placed[OF assms(1)] assms(2) by blast
  show "opc (p' ! i) = opc (p ! i)" using place_constants_grow[OF at] by simp
  show "p' ! i = p ! i" if "opc (p ! i) \<notin> {IMPORT_CLS, MOV_STR, GET_FIELD_IMMEDIATE, FFRAME}"
    using at by (simp add: place_constants_other[OF that])
  show "r0 (p' ! i) = r0 (p ! i) \<or> opc (p ! i) = IMPORT_CLS" "r2 (p' ! i) = r2 (p ! i)"
    using place_constants_grow[OF at] by auto
qed

lemma reals_same:
  assumes "length p' = length p" "\<forall>i < length p. opc (p' ! i) = opc (p ! i)"
  shows "reals p' i = reals p i"
proof -
  have "map opc p' = map opc p" using assms by (simp add: list_eq_iff_nth_eq)
  then have "map opc (take i p') = map opc (take i p)" by (simp only: take_map [symmetric])
  moreover have "length (filter is_real xs) = length (filter (\<lambda>c. c \<noteq> COMMENT \<and> c \<noteq> LABEL) (map opc xs))" for xs
    by (induction xs) (auto simp: is_real_def)
  ultimately show ?thesis by (simp only: reals_def)
qed

lemma last_label_same:
  assumes "constants_pass tabs p b = Inr (p', b')" "last_label p l j"
  shows "last_label p' l j"
proof -
  have len: "length p' = length p" using constants_pass_placed[OF assms(1)] by simp
  have same: "opc (p ! k) = LABEL \<Longrightarrow> p' ! k = p ! k" if "k < length p" for k
    using constants_pass_same(2)[OF assms(1) that] by simp
  show ?thesis
    using assms(2) same constants_pass_same(1)[OF assms(1)] by (auto simp: last_label_def len)
qed

text \<open>The assembled file, as constants and code: \<open>c\<close> is the constants with the header.\<close>

lemma assemble_parts:
  assumes "assemble addr junk tabs p = Inr b" "6 \<le> length junk"
  obtains p' c lm where
    "constants_pass tabs p (word_bytes 0 @ take 8 (cstr '' '' @ junk)) = Inr (p', c)"
    "16 \<le> length c"
    "take 8 b = word_bytes (word_of_nat (length c))"
    "length b = length c + 32 * reals p (length p)"
    "\<forall>q n. 16 \<le> q \<longrightarrow> q + n \<le> length c \<longrightarrow> take n (drop q b) = take n (drop q c)"
    "\<forall>l j. last_label p l j \<longrightarrow> lm l = Some (length c + 32 * reals p j)"
    "\<forall>i < length p. is_real (p ! i) \<longrightarrow> (\<exists>i' e. link_instr lm (p' ! i) = Inr i' \<and>
       encode_instr addr i' = Inr e \<and> take 32 (drop (length c + 32 * reals p i) b) = e)"
proof -
  let ?init = "word_bytes 0 @ take 8 (cstr '' '' @ junk)"
  obtain p' c lm c1 b2 where p': "constants_pass tabs p ?init = Inr (p', c)"
    and lab: "labels_pass p' (length c) (\<lambda>_. None) c = Inr (lm, c1)"
    and code: "code_pass addr lm p' c1 = Inr b2"
    and b: "b = poke_word 0 (word_of_nat (length c)) b2"
    using assms(1) by (auto simp: assemble_def Let_def ebind_Inr_iff)
  have "length ?init = 16" using assms(2) by (simp add: cstr_def)
  then have c16: "16 \<le> length c" using constants_pass_placed[OF p'] by auto
  have len: "length p' = length p" using constants_pass_placed[OF p'] by simp
  have reals: "reals p' i = reals p i" for i
    using constants_pass_same(1)[OF p'] len by (intro reals_same) auto
  have c1: "length c1 = length c" "drop 16 c1 = drop 16 c" using labels_pass_bytes[OF lab c16] by auto
  obtain d where d: "b2 = c1 @ d" "length d = 32 * reals p (length p)"
    using code_pass_grow[OF code] len reals by auto
  have b16: "drop q b = drop q b2" if "8 \<le> q" for q
    unfolding b using that by (simp add: poke_word_beyond)
  have lenb: "length b = length b2" unfolding b using d c1 c16 by simp
  show ?thesis
  proof (rule that[OF p' c16])
    show "take 8 b = word_bytes (word_of_nat (length c))" by (simp add: b poke_word_def)
    show "length b = length c + 32 * reals p (length p)" using lenb d c1 by simp
    show "\<forall>q n. 16 \<le> q \<longrightarrow> q + n \<le> length c \<longrightarrow> take n (drop q b) = take n (drop q c)"
    proof (intro allI impI)
      fix q n assume that: "16 \<le> q" "q + n \<le> length c"
      have "drop q c1 = drop (q - 16) (drop 16 c1)" "drop q c = drop (q - 16) (drop 16 c)"
        using that(1) by simp_all
      then have "drop q c1 = drop q c" using c1(2) by simp
      then show "take n (drop q b) = take n (drop q c)" using b16[of q] that d(1) c1(1) by simp
    qed
    show "\<forall>l j. last_label p l j \<longrightarrow> lm l = Some (length c + 32 * reals p j)"
      using labels_pass_last[OF lab last_label_same[OF p']] by (simp add: reals)
    show "\<forall>i < length p. is_real (p ! i) \<longrightarrow> (\<exists>i' e. link_instr lm (p' ! i) = Inr i' \<and> encode_instr addr i' = Inr e \<and>
        take 32 (drop (length c + 32 * reals p i) b) = e)"
    proof (intro allI impI)
      fix i assume that: "i < length p" "is_real (p ! i)"
      have real': "is_real (p' ! i)" using that constants_pass_same(1)[OF p'] by (simp add: is_real_def)
      have i': "i < length p'" using that(1) len by simp
      obtain x y i' e where e: "b2 = c1 @ x @ e @ y" "length x = 32 * reals p i"
        "link_instr lm (p' ! i) = Inr i'" "encode_instr addr i' = Inr e"
        using code_pass_at[OF code i' real'] unfolding reals by blast
      have "drop (length c + 32 * reals p i) b2 = e @ y" using e(1,2) c1(1) by simp
      then have "take 32 (drop (length c + 32 * reals p i) b) = e"
        using b16[of "length c + 32 * reals p i"] c16 encode_instr_length[OF e(4)] by simp
      then show "\<exists>i' e. link_instr lm (p' ! i) = Inr i' \<and> encode_instr addr i' = Inr e \<and>
        take 32 (drop (length c + 32 * reals p i) b) = e" using e(3,4) by blast
    qed
  qed
qed

text \<open>The four words of an encoded instruction.\<close>

lemma encoded_words:
  assumes "encode_instr addr i = Inr e" "take 32 (drop a b) = e"
  shows "read_word b a = Inr (word_of_nat (opcode_num (opc i)))"
    "read_word b (a + 8) = Inr (operand_word addr (r0 i))"
    "middle_word addr i = read_word b (a + 16)"
    "read_word b (a + 24) = Inr (operand_word addr (r2 i))"
proof -
  obtain m where m: "middle_word addr i = Inr m" and e: "e = word_bytes (word_of_nat (opcode_num (opc i))) @
      word_bytes (operand_word addr (r0 i)) @ word_bytes m @ word_bytes (operand_word addr (r2 i))"
    using assms(1) by (auto simp: encode_instr_def ebind_Inr_iff)
  have slice: "take 8 (drop (a + k) b) = take 8 (drop k e)" if "k + 8 \<le> 32" for k
  proof -
    have "drop k e = take (32 - k) (drop (a + k) b)"
      unfolding assms(2)[symmetric] by (simp add: drop_take add.commute)
    then show ?thesis using that by (simp add: min_def)
  qed
  show "read_word b a = Inr (word_of_nat (opcode_num (opc i)))"
    using slice[of 0] by (intro read_word_slice) (simp add: e)
  show "read_word b (a + 8) = Inr (operand_word addr (r0 i))"
    using slice[of 8] by (intro read_word_slice) (simp add: e)
  show "middle_word addr i = read_word b (a + 16)"
    unfolding m using slice[of 16] by (intro read_word_slice[symmetric]) (simp add: e)
  show "read_word b (a + 24) = Inr (operand_word addr (r2 i))"
    using slice[of 24] by (intro read_word_slice) (simp add: e)
qed

section \<open>Operands the assembler resolves\<close>

text \<open>The label an instruction names, with the offset of the word it is written to.\<close>

definition label_operand :: "z_instruction \<Rightarrow> (nat \<times> operand) option" where
  "label_operand i =
     (if JMP_LESS \<le> opc i \<and> opc i \<le> JMP_N_EQUAL_I \<or> opc i = FFRAME then Some (24, r2 i)
      else if opc i \<in> {JMP_NOT_TRUE, JMP_TRUE, MOV_FNC} then Some (16, r1 i)
      else if opc i \<in> {JMP, SET_CATCH} then Some (8, r0 i)
      else None)"

lemma label_operand_None:
  "\<not> (JMP_LESS \<le> opc i \<and> opc i \<le> JMP_N_EQUAL_I) \<Longrightarrow> opc i \<notin> {JMP_NOT_TRUE, JMP_TRUE, MOV_FNC} \<Longrightarrow>
   opc i \<notin> {JMP, SET_CATCH} \<Longrightarrow> opc i \<noteq> FFRAME \<Longrightarrow> label_operand i = None"
  by (simp add: label_operand_def)

lemma link_instr_label:
  assumes "link_instr lm i = Inr i'" "label_operand i = Some (k, Str l)" "lm l = Some a"
  shows "opc i' = opc i \<and>
    (k = 8 \<and> r0 i' = Num a \<and> r1 i' = r1 i \<and> r2 i' = r2 i \<or>
     k = 16 \<and> r0 i' = r0 i \<and> r1 i' = Num a \<and> r2 i' = r2 i \<and> \<not> takes_number (opc i) \<or>
     k = 24 \<and> r0 i' = r0 i \<and> r1 i' = r1 i \<and> r2 i' = Num a)"
  using assms
  by (auto simp: link_instr_def label_operand_def label_at_def ebind_Inr_iff takes_number_def less_eq_opcode_def
      split: if_splits)

lemma link_instr_opc: "link_instr lm i = Inr i' \<Longrightarrow> opc i' = opc i"
  by (auto simp: link_instr_def ebind_Inr_iff split: if_splits)

lemma link_instr_plain: "label_operand i = None \<Longrightarrow> link_instr lm i = Inr i"
  by (auto simp: link_instr_def label_operand_def split: if_splits)

lemma label_operand_placed:
  assumes "constants_pass tabs p b = Inr (p', b')" "i < length p"
  shows "label_operand (p' ! i) = label_operand (p ! i)"
proof (cases "opc (p ! i) \<in> {IMPORT_CLS, MOV_STR, GET_FIELD_IMMEDIATE, FFRAME}")
  case False
  then show ?thesis using constants_pass_same(2)[OF assms] by simp
next
  case True
  then show ?thesis
    using constants_pass_same(1,4)[OF assms] by (auto simp: label_operand_def less_eq_opcode_def)
qed

lemma assembled_at:
  assumes "assemble addr junk tabs p = Inr b" "6 \<le> length junk"
  shows "\<exists>start \<ge> 16. read_word b 0 = Inr (word_of_nat start) \<and> length b = start + 32 * reals p (length p) \<and>
    (\<forall>i < length p. is_real (p ! i) \<longrightarrow>
       read_word b (start + 32 * reals p i) = Inr (word_of_nat (opcode_num (opc (p ! i)))) \<and>
       (\<forall>k l j. label_operand (p ! i) = Some (k, Str l) \<longrightarrow> last_label p l j \<longrightarrow>
          read_word b (start + 32 * reals p i + k) = Inr (word_of_nat (start + 32 * reals p j))))"
proof -
  obtain p' c lm where p': "constants_pass tabs p (word_bytes 0 @ take 8 (cstr '' '' @ junk)) = Inr (p', c)"
    and c: "16 \<le> length c" "take 8 b = word_bytes (word_of_nat (length c))"
      "length b = length c + 32 * reals p (length p)"
    and const: "\<forall>q n. 16 \<le> q \<longrightarrow> q + n \<le> length c \<longrightarrow> take n (drop q b) = take n (drop q c)"
    and lm: "\<forall>l j. last_label p l j \<longrightarrow> lm l = Some (length c + 32 * reals p j)"
    and code: "\<forall>i < length p. is_real (p ! i) \<longrightarrow> (\<exists>i' e. link_instr lm (p' ! i) = Inr i' \<and>
       encode_instr addr i' = Inr e \<and> take 32 (drop (length c + 32 * reals p i) b) = e)"
    by (rule assemble_parts[OF assms(1,2)])
  have "read_word b 0 = Inr (word_of_nat (length c))" using c(2) by (intro read_word_slice) simp
  moreover have "read_word b (length c + 32 * reals p i) = Inr (word_of_nat (opcode_num (opc (p ! i)))) \<and>
       (\<forall>k l j. label_operand (p ! i) = Some (k, Str l) \<longrightarrow> last_label p l j \<longrightarrow>
          read_word b (length c + 32 * reals p i + k) = Inr (word_of_nat (length c + 32 * reals p j)))"
    if i: "i < length p" "is_real (p ! i)" for i
  proof -
    obtain i' e where e: "link_instr lm (p' ! i) = Inr i'" "encode_instr addr i' = Inr e"
      "take 32 (drop (length c + 32 * reals p i) b) = e"
      using code i by blast
    note words = encoded_words[OF e(2,3)]
    have "read_word b (length c + 32 * reals p i + k) = Inr (word_of_nat (length c + 32 * reals p j))"
      if l: "label_operand (p ! i) = Some (k, Str l)" "last_label p l j" for k l j
    proof -
      have "label_operand (p' ! i) = Some (k, Str l)" using l(1) label_operand_placed[OF p' i(1)] by simp
      from link_instr_label[OF e(1) this lm[rule_format, OF l(2)]] show ?thesis
        using words(2-4) link_instr_opc[OF e(1)] by (auto simp: middle_word_def)
    qed
    then show ?thesis using words(1) link_instr_opc[OF e(1)] constants_pass_same(1)[OF p' i(1)] by simp
  qed
  ultimately show ?thesis using c by blast
qed

text \<open>The constant an instruction carries, and where it ends up.\<close>

definition constant_of :: "(nat \<Rightarrow> 'f fkind) \<Rightarrow> z_instruction \<Rightarrow> byte list option" where
  "constant_of tabs i =
     (case r1 i of
        Str s \<Rightarrow> if opc i \<in> {MOV_STR, GET_FIELD_IMMEDIATE} then Some (cstr s) else None
      | Fun_ptr f \<Rightarrow> if opc i = FFRAME then Some (symbol_bytes (tabs f)) else None
      | Num _ \<Rightarrow> None)"

lemma constant_placed:
  assumes "place_constants tabs i b = Inr (i', b')" "constant_of tabs i = Some y"
  shows "b' = b @ y \<and> r1 i' = Num (length b)" "is_real i" "\<not> takes_number (opc i)" "label_operand i = None \<or> opc i = FFRAME"
  using assms
  by (auto simp: place_constants_def addData_def constant_of_def is_real_def takes_number_def less_eq_opcode_def
      label_operand_def split: if_splits operand.splits)

lemma link_instr_middle:
  "link_instr lm i = Inr i' \<Longrightarrow> label_operand i = None \<or> opc i = FFRAME \<Longrightarrow> r1 i' = r1 i"
  by (auto simp: link_instr_def label_operand_def label_at_def ebind_Inr_iff less_eq_opcode_def split: if_splits)

lemma assembled_constant:
  assumes "assemble addr junk tabs p = Inr b" "6 \<le> length junk"
    and "i < length p" "constant_of tabs (p ! i) = Some y"
  shows "\<exists>start a xs ys. read_word b 0 = Inr (word_of_nat start) \<and> a < start \<and> start \<le> length b \<and>
    read_word b (start + 32 * reals p i + 16) = Inr (word_of_nat a) \<and> b = xs @ y @ ys \<and> length xs = a"
proof -
  let ?init = "word_bytes 0 @ take 8 (cstr '' '' @ junk)"
  obtain p' c lm where p': "constants_pass tabs p ?init = Inr (p', c)"
    and c: "16 \<le> length c" "take 8 b = word_bytes (word_of_nat (length c))"
      "length b = length c + 32 * reals p (length p)"
    and const: "\<forall>q n. 16 \<le> q \<longrightarrow> q + n \<le> length c \<longrightarrow> take n (drop q b) = take n (drop q c)"
    and lm: "\<forall>l j. last_label p l j \<longrightarrow> lm l = Some (length c + 32 * reals p j)"
    and code: "\<forall>i < length p. is_real (p ! i) \<longrightarrow> (\<exists>i' e. link_instr lm (p' ! i) = Inr i' \<and>
       encode_instr addr i' = Inr e \<and> take 32 (drop (length c + 32 * reals p i) b) = e)"
    by (rule assemble_parts[OF assms(1,2)])
  obtain x y' z where at: "place_constants tabs (p ! i) (?init @ x) = Inr (p' ! i, ?init @ x @ y')"
      "c = ?init @ x @ y' @ z"
    using constants_pass_placed[OF p'] assms(3) by blast
  define a where "a = length (?init @ x)"
  note placed = constant_placed[OF at(1) assms(4)]
  have y: "y' = y" "r1 (p' ! i) = Num a" using placed(1) by (simp_all add: a_def)
  obtain i' e where e: "link_instr lm (p' ! i) = Inr i'" "encode_instr addr i' = Inr e"
      "take 32 (drop (length c + 32 * reals p i) b) = e"
    using code assms(3) placed(2) by blast
  have same: "opc (p' ! i) = opc (p ! i)" "label_operand (p' ! i) = label_operand (p ! i)"
    using constants_pass_same(1)[OF p' assms(3)] label_operand_placed[OF p' assms(3)] by auto
  have "r1 i' = Num a" using link_instr_middle[OF e(1)] placed(4) same y(2) by simp
  then have w: "read_word b (length c + 32 * reals p i + 16) = Inr (word_of_nat a)"
    using encoded_words(3)[OF e(2,3)] placed(3) same(1) link_instr_opc[OF e(1)] by (simp add: middle_word_def)
  have len: "length ?init = 16" using assms(2) by (simp add: cstr_def)
  have fit: "a + length y \<le> length c" "16 \<le> a" using at(2) y(1) len by (simp_all add: a_def)
  have "take (length y) (drop a b) = take (length y) (drop a c)" using fit by (intro const[rule_format]) auto
  also have "\<dots> = y" using at(2) y(1) by (simp add: a_def)
  finally have "take (length y) (drop a b) @ drop (length y) (drop a b) = y @ drop (length y) (drop a b)" by simp
  then have "drop a b = y @ drop (length y) (drop a b)" by (simp only: append_take_drop_id)
  then have "b = take a b @ y @ drop (length y) (drop a b)" by (metis append_take_drop_id)
  moreover have "length (take a b) = a" using fit c(3) by simp
  moreover have "read_word b 0 = Inr (word_of_nat (length c))" using c(2) by (intro read_word_slice) simp
  moreover have "y \<noteq> []"
    using assms(4) word_bytes_nonempty
    by (auto simp: constant_of_def cstr_def symbol_bytes_def split: operand.splits if_splits)
  then have "a < length c" using fit by (cases y) auto
  ultimately show ?thesis using w c(3) by (metis le_add1)
qed

lemma set_insert_set:
  "sorted_wrt (\<lambda>a b. snd a < snd b) xs \<Longrightarrow>
     sorted_wrt (\<lambda>a b. snd a < snd b) (set_insert x xs) \<and> set (set_insert x xs) \<subseteq> insert x (set xs) \<and>
     (snd x \<notin> snd ` set xs \<longrightarrow> set (set_insert x xs) = insert x (set xs))"
proof (induction x xs rule: set_insert.induct)
  case (2 x y ys)
  then show ?case by (auto intro: less_trans)
qed auto

lemma sorted_snd_unique:
  assumes "sorted_wrt (\<lambda>a b. snd a < snd b) xs" "sorted_wrt (\<lambda>a b. snd a < snd b) ys" "set xs = set ys"
  shows "xs = (ys :: ('a \<times> nat) list)"
  using assms
proof (induction xs arbitrary: ys)
  case (Cons x xs)
  then obtain y zs where ys: "ys = y # zs" by (cases ys) auto
  have "x = y"
  proof (rule ccontr)
    assume "x \<noteq> y"
    then have "x \<in> set zs" "y \<in> set xs" using Cons.prems(3) ys by auto
    then show False using Cons.prems(1,2) ys by fastforce
  qed
  moreover have "x \<notin> set xs" "y \<notin> set zs" using Cons.prems(1,2) ys by auto
  ultimately have "set xs = set zs" using Cons.prems(3) ys by auto
  then show ?case using Cons ys \<open>x = y\<close> by simp
qed simp

text \<open>On a symbol table that numbers its names the ordered set is the table itself.\<close>

lemma setOfWords_symtab:
  assumes "symtab_ok t"
  shows "setOfWords t = t"
proof -
  have st: "sorted_wrt (\<lambda>a b. snd a < snd b) t"
    using assms by (simp add: symtab_ok_def sorted_wrt_map [symmetric] del: upt_Suc)
  have "distinct (map snd t)" using assms unfolding symtab_ok_def by (metis distinct_upt)
  then have inj: "inj_on snd (set t)" by (simp only: distinct_map)
  have "sorted_wrt (\<lambda>a b. snd a < snd b) (fold set_insert xs ys) \<and> set (fold set_insert xs ys) = set xs \<union> set ys"
    if "distinct xs" "set xs \<union> set ys \<subseteq> set t" "set xs \<inter> set ys = {}" "sorted_wrt (\<lambda>a b. snd a < snd b) ys" for xs ys
    using that
  proof (induction xs arbitrary: ys)
    case (Cons x xs)
    have "snd x \<notin> snd ` set ys"
    proof
      assume "snd x \<in> snd ` set ys"
      then obtain y where y: "y \<in> set ys" "snd x = snd y" by blast
      have "x = y" by (rule inj_onD[OF inj y(2)]) (use Cons.prems(2) y(1) in auto)
      then show False using Cons.prems(3) y(1) by auto
    qed
    then have "sorted_wrt (\<lambda>a b. snd a < snd b) (set_insert x ys)" "set (set_insert x ys) = insert x (set ys)"
      using set_insert_set[OF Cons.prems(4), of x] by auto
    moreover from this have "set xs \<inter> set (set_insert x ys) = {}" "set xs \<union> set (set_insert x ys) \<subseteq> set t"
      using Cons.prems by auto
    ultimately show ?case using Cons.IH[of "set_insert x ys"] Cons.prems(1) by simp
  qed simp
  from this[of "sort_key fst t" "[]"] have "sorted_wrt (\<lambda>a b. snd a < snd b) (setOfWords t)" "set (setOfWords t) = set t"
    using assms by (auto simp: setOfWords_def symtab_ok_def distinct_map)
  then show ?thesis using sorted_snd_unique[OF _ st] by simp
qed

section \<open>Programs that can be assembled\<close>

definition is_str :: "operand \<Rightarrow> bool" where
  "is_str x \<longleftrightarrow> (\<exists>s. x = Str s)"

definition is_fun :: "operand \<Rightarrow> bool" where
  "is_fun x \<longleftrightarrow> (\<exists>f. x = Fun_ptr f)"

lemma is_str_simps [simp]: "is_str (Str s)" "\<not> is_str (Num n)" "\<not> is_str (Fun_ptr f)"
  by (simp_all add: is_str_def)

lemma is_fun_simps [simp]: "is_fun (Fun_ptr f)" "\<not> is_fun (Num n)" "\<not> is_fun (Str s)"
  by (simp_all add: is_fun_def)

definition is_number :: "operand \<Rightarrow> bool" where
  "is_number x \<longleftrightarrow> (case x of Str s \<Rightarrow> s \<in> {''true'', ''false''} \<or> atof s \<noteq> None | _ \<Rightarrow> False)"

text \<open>The operands the assembler dereferences are strings, a function, and texts of numbers.\<close>

definition link_ok :: "z_instruction \<Rightarrow> bool" where
  "link_ok i \<longleftrightarrow>
     (opc i \<in> {LABEL, JMP, SET_CATCH} \<longrightarrow> is_str (r0 i)) \<and>
     (opc i \<in> {JMP_TRUE, JMP_NOT_TRUE, MOV_FNC} \<longrightarrow> is_str (r1 i)) \<and>
     (JMP_LESS \<le> opc i \<and> opc i \<le> JMP_N_EQUAL_I \<or> opc i = FFRAME \<longrightarrow> is_str (r2 i)) \<and>
     (takes_number (opc i) \<longrightarrow> is_number (r1 i))"

definition asm_ok :: "z_instruction \<Rightarrow> bool" where
  "asm_ok i \<longleftrightarrow> link_ok i \<and>
     (opc i \<in> {IMPORT_CLS, MOV_STR, GET_FIELD_IMMEDIATE} \<longrightarrow> is_str (r1 i)) \<and>
     (opc i = IMPORT_CLS \<longrightarrow> is_str (r0 i)) \<and> (opc i = FFRAME \<longrightarrow> is_fun (r1 i))"

lemma link_ok_update:
  "opc i \<in> {IMPORT_CLS, MOV_STR, GET_FIELD_IMMEDIATE} \<Longrightarrow> link_ok (i\<lparr>r1 := x, r0 := y\<rparr>)"
  "opc i \<in> {IMPORT_CLS, MOV_STR, GET_FIELD_IMMEDIATE, FFRAME} \<Longrightarrow> link_ok i \<Longrightarrow> link_ok (i\<lparr>r1 := x\<rparr>)"
  by (elim insertE emptyE; simp add: link_ok_def takes_number_def less_eq_opcode_def)+

lemma place_constants_total:
  assumes "asm_ok i"
  shows "\<exists>i' b'. place_constants tabs i b = Inr (i', b') \<and> link_ok i'"
proof -
  note ok = assms[unfolded asm_ok_def]
  consider "opc i = IMPORT_CLS" | "opc i = MOV_STR \<or> opc i = GET_FIELD_IMMEDIATE" | "opc i = FFRAME"
    | "opc i \<notin> {IMPORT_CLS, MOV_STR, GET_FIELD_IMMEDIATE, FFRAME}" by blast
  then show ?thesis
  proof cases
    case 1
    then obtain s t where "r0 i = Str s" "r1 i = Str t" using ok by (auto simp: is_str_def)
    then show ?thesis using 1 by (simp add: place_constants_def addData_def link_ok_update)
  next
    case 2
    then obtain s where "r1 i = Str s" using ok by (auto simp: is_str_def)
    then show ?thesis using 2 ok by (auto simp: place_constants_def addData_def link_ok_update)
  next
    case 3
    then obtain f where "r1 i = Fun_ptr f" using ok by (auto simp: is_fun_def)
    then show ?thesis using 3 ok by (simp add: place_constants_def addData_def link_ok_update)
  next
    case 4
    then show ?thesis using ok by (simp add: place_constants_other)
  qed
qed

lemma constants_pass_total:
  "list_all asm_ok p \<Longrightarrow> \<exists>p' b'. constants_pass tabs p b = Inr (p', b') \<and> list_all link_ok p'"
proof (induction p arbitrary: b)
  case (Cons i p)
  obtain i' b1 where 1: "place_constants tabs i b = Inr (i', b1)" "link_ok i'"
    using place_constants_total[of i tabs b] Cons.prems by auto
  obtain p' b' where "constants_pass tabs p b1 = Inr (p', b')" "list_all link_ok p'"
    using Cons.IH[of b1] Cons.prems by auto
  with 1 show ?case by simp
qed simp

lemma labels_pass_total: "list_all link_ok p \<Longrightarrow> \<exists>lm' b'. labels_pass p pos lm b = Inr (lm', b')"
proof (induction p arbitrary: pos lm b)
  case (Cons i p)
  show ?case
  proof (cases "opc i = LABEL")
    case True
    then obtain l where "r0 i = Str l" using Cons.prems by (auto simp: link_ok_def is_str_def)
    then show ?thesis using Cons True by simp
  next
    case False
    then show ?thesis using Cons by simp
  qed
qed simp

lemma number_word_total: "is_number (Str s) \<Longrightarrow> \<exists>w. number_word s = Inr w"
  by (auto simp: is_number_def number_word_def)

lemma link_instr_total:
  assumes "link_ok i"
  shows "\<exists>i' e. link_instr lm i = Inr i' \<and> encode_instr addr i' = Inr e"
proof -
  have "\<exists>i'. link_instr lm i = Inr i' \<and> opc i' = opc i \<and> (takes_number (opc i) \<longrightarrow> r1 i' = r1 i)"
  proof -
    have n: "\<not> takes_number JMP_TRUE" "\<not> takes_number JMP_NOT_TRUE" "\<not> takes_number MOV_FNC"
      by (simp_all add: takes_number_def less_eq_opcode_def)
    have l: "\<exists>n. label_at lm x = Inr (Num n)" if "is_str x" for x
      using that by (auto simp: is_str_def label_at_def)
    show ?thesis
    proof (cases "JMP_LESS \<le> opc i \<and> opc i \<le> JMP_N_EQUAL_I")
      case True
      then obtain n where "label_at lm (r2 i) = Inr (Num n)" using l assms unfolding link_ok_def by blast
      with True show ?thesis by (simp add: link_instr_def)
    next
      case range: False
      show ?thesis
      proof (cases "opc i \<in> {JMP_NOT_TRUE, JMP_TRUE, MOV_FNC}")
        case True
        then have "is_str (r1 i)" using assms by (auto simp: link_ok_def)
        from l[OF this] obtain n where n1: "label_at lm (r1 i) = Inr (Num n)" by blast
        have "\<not> takes_number (opc i)" using True n by auto
        moreover have "link_instr lm i = Inr (i\<lparr>r1 := Num n\<rparr>)" using True range n1 by (auto simp: link_instr_def)
        ultimately show ?thesis by simp
      next
        case jt: False
        show ?thesis
        proof (cases "opc i \<in> {JMP, SET_CATCH}")
          case True
          then have "is_str (r0 i)" using assms by (auto simp: link_ok_def)
          from l[OF this] obtain n where n1: "label_at lm (r0 i) = Inr (Num n)" by blast
          then have "link_instr lm i = Inr (i\<lparr>r0 := Num n\<rparr>)" using True range by (auto simp: link_instr_def)
          then show ?thesis by simp
        next
          case j: False
          show ?thesis
          proof (cases "opc i = FFRAME")
            case True
            then have "is_str (r2 i)" using assms by (simp add: link_ok_def)
            from l[OF this] obtain n where n1: "label_at lm (r2 i) = Inr (Num n)" by blast
            then have "link_instr lm i = Inr (i\<lparr>r2 := Num n\<rparr>)" using True range by (simp add: link_instr_def)
            then show ?thesis by simp
          next
            case False
            then show ?thesis using label_operand_None[OF range jt j False] by (simp add: link_instr_plain)
          qed
        qed
      qed
    qed
  qed
  then obtain i' where i': "link_instr lm i = Inr i'" "opc i' = opc i" "takes_number (opc i) \<longrightarrow> r1 i' = r1 i"
    by blast
  have "\<exists>m. middle_word addr i' = Inr m"
  proof (cases "takes_number (opc i)")
    case True
    then have n: "is_number (r1 i)" using assms by (simp add: link_ok_def)
    then obtain s where s: "r1 i = Str s" by (cases "r1 i") (auto simp: is_number_def)
    then show ?thesis using number_word_total[of s] n i' True by (simp add: middle_word_def)
  qed (simp add: middle_word_def i')
  then show ?thesis using i'(1) by (auto simp: encode_instr_def)
qed

lemma code_pass_total: "list_all link_ok p \<Longrightarrow> \<exists>b'. code_pass addr lm p b = Inr b'"
proof (induction p arbitrary: b)
  case (Cons i p)
  obtain i' e where "link_instr lm i = Inr i'" "encode_instr addr i' = Inr e"
    using link_instr_total[of i lm addr] Cons.prems by auto
  then show ?case using Cons by simp
qed simp

lemma assemble_total: "list_all asm_ok p \<Longrightarrow> \<exists>b. assemble addr junk tabs p = Inr b"
proof -
  assume ok: "list_all asm_ok p"
  obtain p' c where p': "constants_pass tabs p (word_bytes 0 @ take 8 (cstr '' '' @ junk)) = Inr (p', c)"
      "list_all link_ok p'"
    using constants_pass_total[OF ok] by blast
  obtain lm c1 where lm: "labels_pass p' (length c) (\<lambda>_. None) c = Inr (lm, c1)"
    using labels_pass_total[OF p'(2)] by blast
  obtain b2 where "code_pass addr lm p' c1 = Inr b2" using code_pass_total[OF p'(2)] by blast
  with p'(1) lm show ?thesis by (simp add: assemble_def Let_def)
qed

section \<open>Properties\<close>

text \<open>
  C8: a class file holds its program. The first word is where the code starts; the code has 32 bytes
  for every instruction that is neither a label nor a comment, in order, each with its opcode number
  first; and wherever an instruction names a label, the word of that operand is the address of
  the instruction that follows the label's last definition.
\<close>

theorem assembled_code:
  assumes "assemble addr junk tabs p = Inr b" "6 \<le> length junk"
  shows "\<exists>start \<ge> 16. read_word b 0 = Inr (word_of_nat start) \<and> length b = start + 32 * reals p (length p) \<and>
    (\<forall>i < length p. is_real (p ! i) \<longrightarrow>
       read_word b (start + 32 * reals p i) = Inr (word_of_nat (opcode_num (opc (p ! i)))) \<and>
       (\<forall>k l j. label_operand (p ! i) = Some (k, Str l) \<longrightarrow> last_label p l j \<longrightarrow>
          read_word b (start + 32 * reals p i + k) = Inr (word_of_nat (start + 32 * reals p j))))"
  by (rule assembled_at[OF assms])

definition sample_code :: program where
  "sample_code = [instruction_new JMP (Str ''a'') null_op null_op,
     instruction_new MOV (Num 1) (Num 2) null_op, instruction_new LABEL (Str ''a'') null_op null_op,
     instruction_new MOV_STR (Num 1) (Str ''x'') null_op]"

lemma sample_code_ok: "list_all asm_ok sample_code"
  by (simp add: sample_code_def asm_ok_def link_ok_def takes_number_def less_eq_opcode_def)

theorem assembled_code_witness:
  "\<forall>addr tabs. \<exists>b start. assemble addr (replicate 6 0) tabs sample_code = Inr b \<and> length b = start + 96 \<and>
     read_word b (start + 8) = Inr (word_of_nat (start + 64))"
proof (intro allI)
  fix addr tabs
  obtain b where b: "assemble addr (replicate 6 0) tabs sample_code = Inr b"
    using assemble_total[OF sample_code_ok] by blast
  have l: "label_operand (sample_code ! 0) = Some (8, Str ''a'')" "is_real (sample_code ! 0)"
    by (simp_all add: sample_code_def label_operand_def is_real_def less_eq_opcode_def)
  have a: "last_label sample_code ''a'' 2"
    by (auto simp: last_label_def sample_code_def nth_Cons' numeral_2_eq_2)
  have r: "reals sample_code (length sample_code) = 3" "reals sample_code 2 = 2" "0 < length sample_code"
    by (simp_all add: sample_code_def is_real_def reals_def)
  have six: "6 \<le> length (replicate 6 (0 :: byte))" by simp
  obtain start where s: "length b = start + 32 * reals sample_code (length sample_code)"
    "\<forall>i < length sample_code. is_real (sample_code ! i) \<longrightarrow>
       read_word b (start + 32 * reals sample_code i) = Inr (word_of_nat (opcode_num (opc (sample_code ! i)))) \<and>
       (\<forall>k l j. label_operand (sample_code ! i) = Some (k, Str l) \<longrightarrow> last_label sample_code l j \<longrightarrow>
          read_word b (start + 32 * reals sample_code i + k) = Inr (word_of_nat (start + 32 * reals sample_code j)))"
    using assembled_code[OF b six] by (elim exE conjE) (rule that)
  have "read_word b (start + 32 * reals sample_code 0 + 8) = Inr (word_of_nat (start + 32 * reals sample_code 2))"
    using s(2) r(3) l a by blast
  then have "assemble addr (replicate 6 0) tabs sample_code = Inr b \<and> length b = start + 96 \<and>
     read_word b (start + 8) = Inr (word_of_nat (start + 64))" using b s(1) r by simp
  then show "\<exists>b start. assemble addr (replicate 6 0) tabs sample_code = Inr b \<and> length b = start + 96 \<and> read_word b (start + 8) = Inr (word_of_nat (start + 64))" by blast
qed

text \<open>
  C10: the texts of a program are in its class file: the word of the text operand of MOV_STR and
  GET_FIELD_IMMEDIATE is an address before the code at which the text can be read back up to its NUL.
\<close>

theorem assembled_strings:
  assumes "assemble addr junk tabs p = Inr b" "6 \<le> length junk" "i < length p"
    and "opc (p ! i) \<in> {MOV_STR, GET_FIELD_IMMEDIATE}" "r1 (p ! i) = Str s" "c_string s"
  shows "\<exists>start a. read_word b 0 = Inr (word_of_nat start) \<and> a < start \<and>
    read_word b (start + 32 * reals p i + 16) = Inr (word_of_nat a) \<and> read_cstr b a = Inr s"
proof -
  have "constant_of tabs (p ! i) = Some (cstr s)" using assms(4,5) by (auto simp: constant_of_def)
  from assembled_constant[OF assms(1-3) this] show ?thesis using read_cstr_here[OF _ assms(6)] by metis
qed

theorem assembled_strings_witness:
  "\<forall>addr tabs. \<exists>b a. assemble addr (replicate 6 0) tabs sample_code = Inr b \<and> read_cstr b a = Inr ''x''"
proof (intro allI)
  fix addr tabs
  obtain b where b: "assemble addr (replicate 6 0) tabs sample_code = Inr b"
    using assemble_total[OF sample_code_ok] by blast
  have "\<exists>a. read_cstr b a = Inr ''x''"
    using assembled_strings[OF b, of 3 "''x''"] by (auto simp: sample_code_def c_string_def)
  with b show "\<exists>b a. assemble addr (replicate 6 0) tabs sample_code = Inr b \<and> read_cstr b a = Inr ''x''" by blast
qed

text \<open>
  The assembler accepts every program whose operands have the kinds the instructions expect,
  with number texts that \<open>atof\<close> reads as decimal numbers.
\<close>

lemma assembler_total:
  assumes "list_all asm_ok p"
  shows "\<exists>b. assemble addr junk tabs p = Inr b"
  by (rule assemble_total[OF assms])

lemma assembler_total_witness: "\<forall>addr junk tabs. \<exists>b. assemble addr junk tabs sample_code = Inr b"
  by (intro allI assembler_total[OF sample_code_ok])

end
