(* ===== verification/SymbolTable.thy ===== *)
theory SymbolTable
  imports Assembler ZMap
begin

text \<open>
  src/src/interpreter/object.c, \<open>build_symbol_table\<close>: the interpreter reads the symbol table of a
  function back from the constants of its class file. With the assembler's side this is a round trip
  from the compiler's table of registers to the map the interpreter looks names up in.
\<close>

section \<open>Reading a symbol table\<close>

definition read_byte :: "byte list \<Rightarrow> nat \<Rightarrow> fault + byte" where
  "read_byte b p = (if p < length b then Inr (b ! p) else Inl Out_Of_Bounds)"

fun read_symbols :: "byte list \<Rightarrow> nat \<Rightarrow> nat \<Rightarrow> nat \<Rightarrow> uint_t zmap \<Rightarrow> fault + uint_t zmap" where
  "read_symbols data pos i 0 m = Inr m"
| "read_symbols data pos i (Suc n) m =
     ebind (read_cstr data pos) (\<lambda>item.
     ebind (read_byte data (pos + (length item + 2) - 1)) (\<lambda>is_private.
     read_symbols data (pos + (length item + 2)) (i + 1) n
       (map_insert_flags m item (word_of_nat (i + 1))
         (if is_private \<noteq> 0 then MAP_FLAG_ENUMERABLE OR MAP_FLAG_PRIVATE else MAP_FLAG_ENUMERABLE))))"

definition build_symbol_table :: "byte list \<Rightarrow> nat \<Rightarrow> fault + uint_t zmap" where
  "build_symbol_table data pos =
     ebind (read_word data pos) (\<lambda>n. read_symbols data (pos + 8) 0 (unat n) map_new)"

section \<open>Round trip\<close>

definition symbol_flag :: "'f fkind \<Rightarrow> string \<Rightarrow> uint_t" where
  "symbol_flag fk x = (if map_of (privatesTable fk) x = None then MAP_FLAG_ENUMERABLE
     else MAP_FLAG_ENUMERABLE OR MAP_FLAG_PRIVATE)"

definition symbol_kvs :: "'f fkind \<Rightarrow> (string \<times> nat) list \<Rightarrow> (string \<times> uint_t \<times> uint_t) list" where
  "symbol_kvs fk t = map (\<lambda>(x, r). (x, word_of_nat r, symbol_flag fk x)) t"

lemma read_symbols_entries:
  assumes "\<forall>x \<in> set t. c_string (fst x)" "map snd t = [i + 1..<i + 1 + length t]" "length xs = pos"
  shows "read_symbols (xs @ concat (map (symbol_entry fk) t) @ ys) pos i (length t) m =
    Inr (fold (\<lambda>(k, v, f) m. map_insert_flags m k v f) (symbol_kvs fk t) m)"
  using assms
proof (induction t arbitrary: i xs pos m)
  case (Cons e t)
  obtain x r where e: "e = (x, r)" by (cases e)
  have r: "r = i + 1" and t: "map snd t = [(i + 1) + 1..<(i + 1) + 1 + length t]"
    using Cons.prems(2) by (auto simp: e upt_rec[of "Suc i"] split: if_splits)
  let ?p = "if map_of (privatesTable fk) x = None then 0 else 1 :: byte"
  let ?rest = "concat (map (symbol_entry fk) t) @ ys"
  define D where "D = xs @ concat (map (symbol_entry fk) (e # t)) @ ys"
  have data: "D = xs @ cstr x @ [?p] @ ?rest" "D = (xs @ cstr x @ [?p]) @ ?rest"
    by (simp_all add: symbol_entry_def e D_def)
  have s: "read_cstr D pos = Inr x"
    unfolding data(1) using Cons.prems(1,3) by (intro read_cstr_here) (auto simp: e)
  have "D ! (pos + (length x + 2) - 1) = ?p"
    unfolding data(1) using Cons.prems(3) by (simp add: nth_append cstr_def)
  then have b: "read_byte D (pos + (length x + 2) - 1) = Inr ?p"
    using Cons.prems(3) by (simp add: read_byte_def cstr_def data(1))
  have len: "length (xs @ cstr x @ [?p]) = pos + (length x + 2)" using Cons.prems(3) by (simp add: cstr_def)
  have flag: "(if ?p \<noteq> 0 then MAP_FLAG_ENUMERABLE OR MAP_FLAG_PRIVATE else MAP_FLAG_ENUMERABLE) = symbol_flag fk x"
    by (simp add: symbol_flag_def)
  have "read_symbols D pos i (length (e # t)) m =
    read_symbols D (pos + (length x + 2)) (i + 1) (length t)
      (map_insert_flags m x (word_of_nat (i + 1)) (symbol_flag fk x))"
    by (simp only: list.size read_symbols.simps add_0_right add_Suc_right s b ebind.simps flag)
  also have "\<dots> = Inr (fold (\<lambda>(k, v, f) m. map_insert_flags m k v f) (symbol_kvs fk t)
      (map_insert_flags m x (word_of_nat (i + 1)) (symbol_flag fk x)))"
    unfolding data(2) using Cons.prems(1) by (intro Cons.IH[OF _ t len]) auto
  finally show ?case by (simp add: symbol_kvs_def e r D_def)
qed (simp add: symbol_kvs_def)

lemma build_symbol_table_here:
  assumes "symtab_ok (symbolTable fk)" "\<forall>x \<in> set (symbolTable fk). c_string (fst x)"
    "length (symbolTable fk) < 2 ^ 64" "length xs = pos"
  shows "build_symbol_table (xs @ symbol_bytes fk @ ys) pos = Inr (load_map (symbol_kvs fk (symbolTable fk)))"
proof -
  let ?n = "word_of_nat (length (symbolTable fk)) :: uint_t"
  have sb: "symbol_bytes fk = word_bytes ?n @ concat (map (symbol_entry fk) (symbolTable fk))"
    by (simp add: symbol_bytes_def setOfWords_symtab[OF assms(1)])
  have "read_word (xs @ symbol_bytes fk @ ys) pos = Inr ?n"
    unfolding sb append_assoc using assms(4) by (rule read_word_here)
  moreover have "unat ?n = length (symbolTable fk)"
    using assms(3) by (simp add: unsigned_of_nat take_bit_nat_eq_self)
  moreover have "read_symbols ((xs @ word_bytes ?n) @ concat (map (symbol_entry fk) (symbolTable fk)) @ ys) (pos + 8) 0
      (length (symbolTable fk)) map_new =
    Inr (fold (\<lambda>(k, v, f) m. map_insert_flags m k v f) (symbol_kvs fk (symbolTable fk)) map_new)"
    using assms by (intro read_symbols_entries) (auto simp: symtab_ok_def)
  ultimately show ?thesis by (simp add: build_symbol_table_def sb load_map_def)
qed

lemma symbol_flag_ok: "flag_ok (symbol_flag fk x)"
  by (simp add: symbol_flag_def flag_ok_def MAP_FLAG_ENUMERABLE_def MAP_FLAG_PRIVATE_def)

lemma symbol_lookup:
  assumes "symtab_ok t"
  shows "map_get_flags (load_map (symbol_kvs fk t)) x =
    map_option (\<lambda>r. (word_of_nat r, symbol_flag fk x)) (map_of t x)"
proof -
  have d: "distinct (map fst (symbol_kvs fk t))"
    using assms by (simp add: symtab_ok_def symbol_kvs_def case_prod_beta' comp_def)
  have "map_get_flags (load_map (symbol_kvs fk t)) x = map_of (rev (symbol_kvs fk t)) x"
    by (rule load_map_facts(2)) (auto simp: symbol_kvs_def symbol_flag_ok)
  also have "\<dots> = map_of (symbol_kvs fk t) x" using d by (simp add: map_of_rev_distinct)
  also have "\<dots> = map_option (\<lambda>r. (word_of_nat r, symbol_flag fk x)) (map_of t x)"
    by (induction t) (auto simp: symbol_kvs_def)
  finally show ?thesis .
qed

section \<open>Properties\<close>

text \<open>
  C9: symbol tables survive the class file. For a FFRAME instruction of an assembled program, the
  interpreter reads at the address its second operand holds exactly the function's table: every name
  with its register, private names with the private flag, and no other name.
\<close>

theorem symbols_round_trip:
  assumes "assemble addr junk tabs p = Inr b" "6 \<le> length junk" "i < length p"
    and "opc (p ! i) = FFRAME" "r1 (p ! i) = Fun_ptr f"
    and "symtab_ok (symbolTable (tabs f))" "length (symbolTable (tabs f)) < 2 ^ 64"
    and "\<forall>x \<in> set (symbolTable (tabs f)). c_string (fst x)"
  shows "\<exists>start a m. read_word b 0 = Inr (word_of_nat start) \<and>
    read_word b (start + 32 * reals p i + 16) = Inr (word_of_nat a) \<and> build_symbol_table b a = Inr m \<and>
    (\<forall>x. map_get_flags m x =
       map_option (\<lambda>r. (word_of_nat r, symbol_flag (tabs f) x)) (map_of (symbolTable (tabs f)) x))"
proof -
  have "constant_of tabs (p ! i) = Some (symbol_bytes (tabs f))" using assms(4,5) by (simp add: constant_of_def)
  from assembled_constant[OF assms(1-3) this] obtain start a xs ys where
    a: "read_word b 0 = Inr (word_of_nat start)" "read_word b (start + 32 * reals p i + 16) = Inr (word_of_nat a)"
      "b = xs @ symbol_bytes (tabs f) @ ys" "length xs = a" by blast
  have "build_symbol_table b a = Inr (load_map (symbol_kvs (tabs f) (symbolTable (tabs f))))"
    unfolding a(3) by (rule build_symbol_table_here[OF assms(6,8,7) a(4)])
  with a(1,2) symbol_lookup[OF assms(6)] show ?thesis by blast
qed

definition sample_table :: "func fkind" where
  "sample_table = \<lparr>symbolTable = [(''this'', 1), (''b'', 2), (''a'', 3)], privatesTable = [(''a'', 3)],
     registerTable = [], functionsToCompile = []\<rparr>"

definition sample_frame :: program where
  "sample_frame = [instruction_new FFRAME (Num 3) (Fun_ptr 0) (Str ''endf'')]"

theorem symbols_round_trip_witness:
  "\<forall>addr. \<exists>b a m. assemble addr (replicate 6 0) (\<lambda>_. sample_table) sample_frame = Inr b \<and>
     build_symbol_table b a = Inr m \<and> map_get_flags m ''a'' = Some (3, 3)"
proof (intro allI)
  fix addr
  have ok: "list_all asm_ok sample_frame"
    by (simp add: sample_frame_def asm_ok_def link_ok_def takes_number_def less_eq_opcode_def)
  obtain b where b: "assemble addr (replicate 6 0) (\<lambda>_. sample_table) sample_frame = Inr b"
    using assemble_total[OF ok] by blast
  have "\<exists>start a m. read_word b 0 = Inr (word_of_nat start) \<and>
      read_word b (start + 32 * reals sample_frame 0 + 16) = Inr (word_of_nat a) \<and> build_symbol_table b a = Inr m \<and>
      (\<forall>x. map_get_flags m x =
        map_option (\<lambda>r. (word_of_nat r, symbol_flag sample_table x)) (map_of (symbolTable sample_table) x))"
    by (rule symbols_round_trip[OF b]) (auto simp: sample_frame_def sample_table_def symtab_ok_def c_string_def upt_rec)
  then obtain a m where "build_symbol_table b a = Inr m"
    "map_get_flags m ''a'' = map_option (\<lambda>r. (word_of_nat r, symbol_flag sample_table ''a'')) (map_of (symbolTable sample_table) ''a'')"
    by blast
  with b show "\<exists>b a m. assemble addr (replicate 6 0) (\<lambda>_. sample_table) sample_frame = Inr b \<and> build_symbol_table b a = Inr m \<and> map_get_flags m ''a'' = Some (3, 3)"
    by (auto simp: sample_table_def symbol_flag_def MAP_FLAG_ENUMERABLE_def MAP_FLAG_PRIVATE_def)
qed

end
