(* ===== verification/Machine.thy ===== *)
theory Machine
  imports SymbolTable
begin

text \<open>
  The state of the virtual machine: src/src/interpreter/object.h and the type declarations of
  src/src/interpreter/interpreter_dd.c, with the constructors of object.c. Pointers to objects are
  64-bit addresses into a heap; allocation hands out increasing multiples of 64, 0 is \<open>NULL\<close>, and an
  object is freed only by the collector (theory Collector). The constructors allocate with
  \<open>z_alloc_or_gc\<close>, which calls the collector once \<open>used_heap\<close> is above \<open>heap_limit\<close>. How many bytes everything
  in the process has requested is not modelled: \<open>gc_at\<close>, chosen by the environment, is the number
  of objects there are when that happens for the first time, and the model of a run stops there with the
  fault \<open>Collector_Starts\<close>. \<open>freed_states\<close> are the states the collector gave back. Interpreter states, stacks and tables of synchronized
  variables are referred to by their index. The maps are the hash maps of ZMap, except that the known
  types are a map from names, with the list of the names in the order of loading.
\<close>

section \<open>Registers and objects\<close>

text \<open>The type tags; the number of each is the value of its \<open>#define\<close>.\<close>

datatype rtype = RT_NUMBER | RT_STR | RT_FUNCTION_REF | RT_OBJ | RT_NATIVE_FUNC | RT_INSTANCE | RT_CLASS_REF

record z_reg =
  rtype :: rtype
  val :: uint_t

definition zero_reg :: z_reg where
  "zero_reg = \<lparr>rtype = RT_NUMBER, val = 0\<rparr>"

record ctx =
  parent_context :: uint_t
  return_context :: uint_t
  locals :: "z_reg list option"
  symbol_table :: "uint_t zmap option"
  catches_list :: "uint_t list option"
  symbols_address :: uint_t
  requested_return_register_index :: uint_t
  return_address :: "nat option"

text \<open>\<open>Raw_object\<close> is memory not yet initialised.\<close>

datatype z_object =
    Context ctx
  | Str_object string
  | Function_object uint_t uint_t uint_t nat
  | Class_object string
  | Instance_object "string option" nat
  | Json_object "z_reg zmap" uint_t
  | Raw_object

record hobj =
  obj_version :: "32 word"
  ob :: z_object

section \<open>Interpreter states and the machine\<close>

record istate =
  current_context :: uint_t
  root_context :: uint_t
  byte_stream :: "byte list"
  class_name :: string
  exception_details :: "string option"
  synchronized_variables :: nat
  return_code :: bool
  instruction_pointer :: uint_t
  return_value :: "z_reg option"
  stack_ptr :: int
  stack_start :: nat
  is_running :: bool
  removed_as_a_root :: bool

record type_info =
  bytecode_stream :: "byte list"
  static_variables :: "z_reg zmap"
  imports_table :: "string zmap"

text \<open>What \<open>run_async\<close> is started with.\<close>

record async_args =
  as_state :: nat
  as_stack_start :: nat
  as_stack_ptr :: int
  as_function :: uint_t

text \<open>An entry of the collector's list; \<open>substring\<close> enters the address of a register.\<close>

datatype gc_entry = Entry uint_t | Register_entry uint_t nat

record machine =
  heap :: "uint_t \<Rightarrow> hobj option"
  object_count :: nat
  gc_at :: nat
  states :: "istate list"
  syncs :: "z_reg zmap list"
  stacks :: "(nat \<Rightarrow> z_reg option) list"
  known_types :: "string \<Rightarrow> type_info option"
  known_types_list :: "string list"
  string_properties :: "z_reg zmap"
  gc_objects_list :: "gc_entry list"
  interpreter_states_list :: "nat list"
  gc_version :: "32 word"
  freed_states :: "nat list"
  threads :: "async_args list"
  printed :: "string list"
  stdin :: string

definition stack_file_size :: nat where
  "stack_file_size = 1000"

section \<open>Access\<close>

definition get_object :: "uint_t \<Rightarrow> machine \<Rightarrow> fault + z_object" where
  "get_object a m = (case heap m a of None \<Rightarrow> Inl Null_Deref | Some h \<Rightarrow> Inr (ob h))"

definition put_object :: "uint_t \<Rightarrow> z_object \<Rightarrow> machine \<Rightarrow> machine" where
  "put_object a x m = m\<lparr>heap := (heap m)(a := map_option (\<lambda>h. h\<lparr>ob := x\<rparr>) (heap m a))\<rparr>"

definition get_ctx :: "uint_t \<Rightarrow> machine \<Rightarrow> fault + ctx" where
  "get_ctx a m = ebind (get_object a m) (\<lambda>x. case x of Context c \<Rightarrow> Inr c | _ \<Rightarrow> Inl Undefined_Value)"

definition put_ctx :: "uint_t \<Rightarrow> ctx \<Rightarrow> machine \<Rightarrow> machine" where
  "put_ctx a c = put_object a (Context c)"

definition get_state :: "nat \<Rightarrow> machine \<Rightarrow> fault + istate" where
  "get_state s m = (if s < length (states m) then Inr (states m ! s) else Inl Null_Deref)"

definition upd_state :: "nat \<Rightarrow> (istate \<Rightarrow> istate) \<Rightarrow> machine \<Rightarrow> machine" where
  "upd_state s f m = m\<lparr>states := (states m)[s := f (states m ! s)]\<rparr>"

text \<open>A local of a context: \<open>locals_ptr + i\<close>.\<close>

definition get_reg :: "uint_t \<Rightarrow> nat \<Rightarrow> machine \<Rightarrow> fault + z_reg" where
  "get_reg c i m = ebind (get_ctx c m) (\<lambda>x.
     case locals x of
       None \<Rightarrow> Inl Null_Deref
     | Some ls \<Rightarrow> if i < length ls then Inr (ls ! i) else Inl Out_Of_Bounds)"

definition set_reg :: "uint_t \<Rightarrow> nat \<Rightarrow> z_reg \<Rightarrow> machine \<Rightarrow> fault + machine" where
  "set_reg c i v m = ebind (get_ctx c m) (\<lambda>x.
     case locals x of
       None \<Rightarrow> Inl Null_Deref
     | Some ls \<Rightarrow> if i < length ls then Inr (put_ctx c (x\<lparr>locals := Some (ls[i := v])\<rparr>) m)
         else Inl Out_Of_Bounds)"

text \<open>The value stack of a state: \<open>*++stack_ptr = v\<close> and \<open>*stack_ptr--\<close>.\<close>

definition push_value :: "nat \<Rightarrow> z_reg \<Rightarrow> machine \<Rightarrow> fault + machine" where
  "push_value s v m = ebind (get_state s m) (\<lambda>st.
     let p = stack_ptr st + 1 in
     if 0 \<le> p \<and> p < int stack_file_size
     then Inr ((upd_state s (\<lambda>x. x\<lparr>stack_ptr := p\<rparr>) m)
       \<lparr>stacks := (stacks m)[stack_start st := (stacks m ! stack_start st)(nat p \<mapsto> v)]\<rparr>)
     else Inl Out_Of_Bounds)"

definition pop_value :: "nat \<Rightarrow> machine \<Rightarrow> fault + (z_reg \<times> machine)" where
  "pop_value s m = ebind (get_state s m) (\<lambda>st.
     let p = stack_ptr st in
     if 0 \<le> p \<and> p < int stack_file_size
     then (case (stacks m ! stack_start st) (nat p) of
             None \<Rightarrow> Inl Undefined_Value
           | Some v \<Rightarrow> Inr (v, upd_state s (\<lambda>x. x\<lparr>stack_ptr := p - 1\<rparr>) m))
     else Inl Out_Of_Bounds)"

section \<open>Constructors\<close>

text \<open>
  The address after those handed out so far. The address space has room for \<open>max_objects\<close>; \<open>heap_limit\<close>
  is passed long before.
\<close>

definition address :: "nat \<Rightarrow> uint_t" where
  "address n = word_of_nat (64 * (n + 1))"

abbreviation next_addr :: "machine \<Rightarrow> uint_t" where
  "next_addr m \<equiv> address (object_count m)"

definition max_objects :: nat where
  "max_objects = 2 ^ 57"

text \<open>\<open>z_alloc_or_gc\<close> finds \<open>used_heap\<close> within \<open>heap_limit\<close>.\<close>

definition within_limit :: "machine \<Rightarrow> bool" where
  "within_limit m \<longleftrightarrow> object_count m < gc_at m"

definition new_object :: "z_object \<Rightarrow> machine \<Rightarrow> fault + (uint_t \<times> machine)" where
  "new_object x m =
     (if within_limit m
      then Inr (next_addr m, m\<lparr>heap := (heap m)(next_addr m \<mapsto> \<lparr>obj_version = 0, ob = x\<rparr>), object_count := object_count m + 1\<rparr>)
      else Inl Collector_Starts)"

definition ADD_OBJECT_TO_GC_LIST :: "uint_t \<Rightarrow> machine \<Rightarrow> machine" where
  "ADD_OBJECT_TO_GC_LIST a m = m\<lparr>gc_objects_list := gc_objects_list m @ [Entry a]\<rparr>"

definition ADD_ROOT_TO_GC_LIST :: "nat \<Rightarrow> machine \<Rightarrow> machine" where
  "ADD_ROOT_TO_GC_LIST s m = m\<lparr>interpreter_states_list := interpreter_states_list m @ [s]\<rparr>"

definition empty_ctx :: ctx where
  "empty_ctx = \<lparr>parent_context = 0, return_context = 0, locals = None, symbol_table = None,
     catches_list = None, symbols_address = 0, requested_return_register_index = 0, return_address = None\<rparr>"

definition context_new :: "machine \<Rightarrow> fault + (uint_t \<times> machine)" where
  "context_new = new_object (Context empty_ctx)"

definition function_ref_new :: "uint_t \<Rightarrow> uint_t \<Rightarrow> nat \<Rightarrow> uint_t \<Rightarrow> machine \<Rightarrow> fault + (uint_t \<times> machine)" where
  "function_ref_new start_addr parent st is_async = new_object (Function_object start_addr is_async parent st)"

definition class_ref_new :: "string \<Rightarrow> machine \<Rightarrow> fault + (uint_t \<times> machine)" where
  "class_ref_new name = new_object (Class_object name)"

definition string_new :: "string \<Rightarrow> machine \<Rightarrow> fault + (uint_t \<times> machine)" where
  "string_new s = new_object (Str_object s)"

definition CREATE_STACK :: "machine \<Rightarrow> nat \<times> machine" where
  "CREATE_STACK m = (length (stacks m), m\<lparr>stacks := stacks m @ [\<lambda>_. None]\<rparr>)"

text \<open>\<open>stk\<close> is the stack and the pointer into it that are given, if any.\<close>

definition interpreter_state_new ::
  "uint_t \<Rightarrow> byte list \<Rightarrow> string \<Rightarrow> (nat \<times> int) option \<Rightarrow> machine \<Rightarrow> fault + (nat \<times> machine)" where
  "interpreter_state_new cc bytes name stk m0 =
     (let (start, ptr, m1) = (case stk of
            Some (a, p) \<Rightarrow> (a, p, m0)
          | None \<Rightarrow> (case CREATE_STACK m0 of (a, m) \<Rightarrow> (a, 0, m)))
      in ebind (if cc = 0 then context_new m1 else Inr (cc, m1)) (\<lambda>(c, m2).
         Inr (length (states m2),
           m2\<lparr>states := states m2 @ [\<lparr>current_context = c, root_context = c, byte_stream = bytes,
                class_name = name, exception_details = None, synchronized_variables = length (syncs m2),
                return_code = False, instruction_pointer = 0, return_value = None, stack_ptr = ptr,
                stack_start = start, is_running = False, removed_as_a_root = False\<rparr>],
              syncs := syncs m2 @ [map_new]\<rparr>)))"

definition z_interpreter_set_arguments_count :: "nat \<Rightarrow> uint_t \<Rightarrow> machine \<Rightarrow> fault + machine" where
  "z_interpreter_set_arguments_count s n = push_value s \<lparr>rtype = RT_NUMBER, val = n\<rparr>"

definition clone_state :: "nat \<Rightarrow> machine \<Rightarrow> fault + (nat \<times> machine)" where
  "clone_state s m = ebind (get_state s m) (\<lambda>st.
     interpreter_state_new (current_context st) (byte_stream st) (class_name st)
       (Some (stack_start st, stack_ptr st)) m)"

section \<open>Texts\<close>

fun hex_digits :: "nat \<Rightarrow> string" where
  "hex_digits n =
     (let d = n mod 16; c = char_of (if d < 10 then 48 + d else 87 + d)
      in if n < 16 then [c] else hex_digits (n div 16) @ [c])"

declare hex_digits.simps [simp del]

text \<open>\<open>obj@%p\<close> in a buffer of 20 bytes.\<close>

definition obj_to_string :: "uint_t \<Rightarrow> string" where
  "obj_to_string a = take 19 (''obj@0x'' @ hex_digits (unat a))"

text \<open>\<open>operations.to_string\<close> of the object at an address; contexts have none. The buffer is allocated with \<open>z_alloc_or_gc\<close>.\<close>

definition to_string :: "uint_t \<Rightarrow> machine \<Rightarrow> fault + string" where
  "to_string a m = ebind (get_object a m) (\<lambda>x. case x of
       Str_object s \<Rightarrow> Inr s
     | Context _ \<Rightarrow> Inl Null_Deref
     | Raw_object \<Rightarrow> Inl Undefined_Value
     | _ \<Rightarrow> if within_limit m then Inr (obj_to_string a) else Inl Collector_Starts)"

text \<open>In a buffer of 11 bytes. The conversion to \<open>int_t\<close> is undefined for large numbers.\<close>

definition num_to_str :: "uint_t \<Rightarrow> fault + string" where
  "num_to_str w = (case f64_trunc w of
       None \<Rightarrow> Inl Undefined_Value
     | Some i \<Rightarrow> Inr (take 10 (if f64_eq (f64_of_int i) w then print_d i else print_f w)))"

text \<open>The text of a register, as property name or message.\<close>

definition reg_to_str :: "z_reg \<Rightarrow> machine \<Rightarrow> fault + string" where
  "reg_to_str r m = (if rtype r = RT_NUMBER then num_to_str (val r) else to_string (val r) m)"

end
