(* ===== verification/Runtime.thy ===== *)
theory Runtime
  imports Machine
begin

text \<open>
  What the instructions call: throwing (interpreter_dd.c), looking names up through contexts and on
  instances (interpreter_dd.c), loading classes (object.c) and the native functions
  (native_functions.c). \<open>runner\<close> is \<open>z_interpreter_run\<close>, which loading a class calls back;
  \<open>load\<close> stands for \<open>load_class_code\<close>, which Driver defines on the files, the class path and the
  compiler: the bytes of a class.
\<close>

type_synonym runner = "nat \<Rightarrow> machine \<Rightarrow> fault + machine"
type_synonym loader = "string \<Rightarrow> fault + byte list"

section \<open>Throwing\<close>

text \<open>
  The search for a catch point goes from the current context to the contexts that called it. The
  contexts of a machine are finitely many; \<open>n\<close> bounds the walk.
\<close>

fun throw_from :: "nat \<Rightarrow> nat \<Rightarrow> string \<Rightarrow> uint_t \<Rightarrow> machine \<Rightarrow> fault + machine" where
  "throw_from n s message a m =
     (if a = 0 then
        ebind (get_state s m) (\<lambda>st.
        Inr (upd_state s (\<lambda>x. x\<lparr>return_code := True,
          exception_details := Some (message @ '' \<newline>class:'' @ class_name st)\<rparr>) m))
      else if n = 0 then Inl Out_Of_Fuel
      else ebind (get_ctx a m) (\<lambda>c.
        case catches_list c of
          Some (p # ps) \<Rightarrow>
            (ebind (string_new message (upd_state s (\<lambda>x. x\<lparr>instruction_pointer := last (p # ps)\<rparr>) m)) (\<lambda>(e, m1).
             push_value s \<lparr>rtype = RT_STR, val = e\<rparr> m1))
        | _ \<Rightarrow> throw_from (n - 1) s message (return_context c)
                 (upd_state s (\<lambda>x. x\<lparr>current_context := return_context c\<rparr>) m)))"

declare throw_from.simps [simp del]

definition interpreter_throw_exception_from_str :: "nat \<Rightarrow> string \<Rightarrow> machine \<Rightarrow> fault + machine" where
  "interpreter_throw_exception_from_str s message m = ebind (get_state s m) (\<lambda>st.
     throw_from (object_count m) s message (current_context st) m)"

definition interpreter_throw_exception_from_reg :: "nat \<Rightarrow> z_reg \<Rightarrow> machine \<Rightarrow> fault + machine" where
  "interpreter_throw_exception_from_reg s r m =
     ebind (reg_to_str r m) (\<lambda>message. interpreter_throw_exception_from_str s message m)"

section \<open>Names\<close>

text \<open>The symbol table of a context, built when it is first needed.\<close>

definition context_symbols :: "byte list \<Rightarrow> uint_t \<Rightarrow> machine \<Rightarrow> fault + (uint_t zmap \<times> machine)" where
  "context_symbols bytes a m = ebind (get_ctx a m) (\<lambda>c.
     case symbol_table c of
       Some t \<Rightarrow> Inr (t, m)
     | None \<Rightarrow> ebind (build_symbol_table bytes (unat (symbols_address c))) (\<lambda>t.
         Inr (t, put_ctx a (c\<lparr>symbol_table := Some t\<rparr>) m)))"

text \<open>
  The first context, from \<open>a\<close> outwards, that knows the name, with the index of the local and its flags.
\<close>

fun find_scope ::
  "nat \<Rightarrow> byte list \<Rightarrow> string \<Rightarrow> uint_t \<Rightarrow> machine \<Rightarrow> fault + ((uint_t \<times> nat \<times> uint_t) option \<times> machine)" where
  "find_scope n bytes name a m =
     (if a = 0 then Inr (None, m)
      else if n = 0 then Inl Out_Of_Fuel
      else ebind (context_symbols bytes a m) (\<lambda>(t, m1).
        case map_get_flags t name of
          Some (i, flags) \<Rightarrow> Inr (Some (a, unat i, flags), m1)
        | None \<Rightarrow> ebind (get_ctx a m1) (\<lambda>c. find_scope (n - 1) bytes name (parent_context c) m1)))"

declare find_scope.simps [simp del]

definition search_this :: "byte list \<Rightarrow> string \<Rightarrow> uint_t \<Rightarrow> machine \<Rightarrow>
    fault + ((uint_t \<times> nat \<times> uint_t) option \<times> machine)" where
  "search_this bytes name a m = find_scope (object_count m) bytes name a m"

text \<open>A field of an instance; \<open>None\<close> is the NULL the code returns.\<close>

definition interpreter_get_field_virtual ::
  "nat \<Rightarrow> nat \<Rightarrow> string \<Rightarrow> machine \<Rightarrow> fault + (z_reg option \<times> machine)" where
  "interpreter_get_field_virtual objects our name m =
     ebind (get_state objects m) (\<lambda>os. ebind (get_state our m) (\<lambda>us.
     ebind (search_this (byte_stream os) name (root_context os) m) (\<lambda>(found, m1).
     case found of
       None \<Rightarrow> Inr (None, m1)
     | Some (a, i, flags) \<Rightarrow>
         if flags AND MAP_FLAG_PRIVATE \<noteq> 0 \<and> class_name us \<noteq> class_name os then Inr (None, m1)
         else ebind (get_reg a i m1) (\<lambda>v. Inr (Some v, m1)))))"

text \<open>A violation of privacy is thrown in the object's state; the value is written all the same.\<close>

definition interpreter_set_field_virtual ::
  "nat \<Rightarrow> nat \<Rightarrow> string \<Rightarrow> z_reg \<Rightarrow> machine \<Rightarrow> fault + (bool \<times> machine)" where
  "interpreter_set_field_virtual objects our name v m0 =
     (let m = upd_state objects (\<lambda>x. x\<lparr>return_code := False\<rparr>) m0 in
     ebind (get_state objects m) (\<lambda>os. ebind (get_state our m) (\<lambda>us.
     ebind (context_symbols (byte_stream os) (root_context os) m) (\<lambda>(t, m1).
     case map_get_flags t name of
       None \<Rightarrow> ebind (interpreter_throw_exception_from_str objects ''no such property found on object'' m1)
                 (\<lambda>m2. Inr (True, m2))
     | Some (i, flags) \<Rightarrow>
         ebind (if flags AND MAP_FLAG_PRIVATE \<noteq> 0 \<and> class_name us \<noteq> class_name os
                then interpreter_throw_exception_from_str objects ''cannot set private property of object'' m1
                else Inr m1) (\<lambda>m2.
         ebind (set_reg (root_context os) (unat i) v m2) (\<lambda>m3. Inr (False, m3)))))))"

section \<open>Classes\<close>

definition resolve_imported_class_name :: "string \<Rightarrow> string zmap option \<Rightarrow> string" where
  "resolve_imported_class_name name imports =
     (case imports of None \<Rightarrow> name | Some im \<Rightarrow> (case map_get im name of None \<Rightarrow> name | Some p \<Rightarrow> p))"

text \<open>A class path without any class.\<close>

definition no_classes :: loader where
  "no_classes name = Inl (Exit_Error (''cannot find class or variable '' @ name))"

definition upd_type :: "string \<Rightarrow> (type_info \<Rightarrow> type_info) \<Rightarrow> machine \<Rightarrow> machine" where
  "upd_type name f m = m\<lparr>known_types := (known_types m)(name := map_option f (known_types m name))\<rparr>"

definition object_manager_register_object_type :: "string \<Rightarrow> byte list \<Rightarrow> machine \<Rightarrow> machine" where
  "object_manager_register_object_type name bytes m =
     m\<lparr>known_types := (known_types m)(name \<mapsto>
         \<lparr>bytecode_stream = bytes, static_variables = map_new, imports_table = map_new\<rparr>),
       known_types_list := known_types_list m @ [name]\<rparr>"

definition interpreter_run_static_constructor :: "runner \<Rightarrow> byte list \<Rightarrow> string \<Rightarrow> machine \<Rightarrow> fault + machine" where
  "interpreter_run_static_constructor runner bytes name m =
     ebind (read_word bytes 8) (\<lambda>static_block_ptr.
     ebind (context_new m) (\<lambda>(c, m1).
     ebind (interpreter_state_new c bytes name None m1) (\<lambda>(s, m2).
     ebind (z_interpreter_set_arguments_count s 0 m2) (\<lambda>m3.
     ebind (runner s (upd_state s (\<lambda>x. x\<lparr>instruction_pointer := static_block_ptr\<rparr>) m3)) (\<lambda>m4.
     Inr (ADD_ROOT_TO_GC_LIST s m4))))))"

definition object_manager_get_or_load_type_info ::
  "loader \<Rightarrow> runner \<Rightarrow> string \<Rightarrow> string zmap option \<Rightarrow> machine \<Rightarrow> fault + (type_info \<times> machine)" where
  "object_manager_get_or_load_type_info load runner name imports m =
     (case known_types m name of
        Some t \<Rightarrow> Inr (t, m)
      | None \<Rightarrow>
          let resolved = resolve_imported_class_name name imports in
          ebind (load resolved) (\<lambda>bytes.
          ebind (interpreter_run_static_constructor runner bytes name
                  (object_manager_register_object_type name bytes m)) (\<lambda>m1.
          let m2 = upd_type name (\<lambda>t. t\<lparr>imports_table := map_insert (imports_table t) name resolved\<rparr>) m1
          in case known_types m2 name of None \<Rightarrow> Inl Null_Deref | Some t \<Rightarrow> Inr (t, m2))))"

definition get_imports_table :: "loader \<Rightarrow> runner \<Rightarrow> nat \<Rightarrow> machine \<Rightarrow> fault + (string zmap \<times> machine)" where
  "get_imports_table load runner s m = ebind (get_state s m) (\<lambda>st.
     ebind (object_manager_get_or_load_type_info load runner (class_name st) None m) (\<lambda>(t, m1).
     Inr (imports_table t, m1)))"

end
