(* ===== verification/Natives.thy ===== *)
theory Natives
  imports Alloc Runtime
begin

text \<open>
  src/src/interpreter/native_functions.c and the constructors of objects in object.c. A native
  function is called with the stack of the running state, a register for the result (the local \<open>i\<close>
  of context \<open>c\<close>) and the object the last field access searched; it answers an error message or
  nothing. Native functions never see how many arguments were pushed: each pops what it wants.
\<close>

section \<open>The functions and their addresses\<close>

datatype native =
    native_print | native_object_new | native_number | native_to_int | native_gc | native_assert
  | native_exit | native_readln | native_strlen | native_str_startswith | native_str_equals
  | native_str_substring | native_object_key_size | native_object_key_list

definition all_natives :: "native list" where
  "all_natives = [native_print, native_object_new, native_number, native_to_int, native_gc, native_assert,
     native_exit, native_readln, native_strlen, native_str_startswith, native_str_equals,
     native_str_substring, native_object_key_size, native_object_key_list]"

text \<open>Code addresses are small numbers here; all that matters is that they differ and are not NULL.\<close>

primrec native_addr :: "native \<Rightarrow> uint_t" where
  "native_addr native_print = 1"
| "native_addr native_object_new = 2"
| "native_addr native_number = 3"
| "native_addr native_to_int = 4"
| "native_addr native_gc = 5"
| "native_addr native_assert = 6"
| "native_addr native_exit = 7"
| "native_addr native_readln = 8"
| "native_addr native_strlen = 9"
| "native_addr native_str_startswith = 10"
| "native_addr native_str_equals = 11"
| "native_addr native_str_substring = 12"
| "native_addr native_object_key_size = 13"
| "native_addr native_object_key_list = 14"

definition native_at :: "uint_t \<Rightarrow> native option" where
  "native_at a = find (\<lambda>n. native_addr n = a) all_natives"

lemma native_at_addr [simp]: "native_at (native_addr n) = Some n"
  by (cases n) (simp_all add: native_at_def all_natives_def)

definition native_functions :: "string \<Rightarrow> native option" where
  "native_functions = map_of [(''print'', native_print), (''Object'', native_object_new),
     (''number'', native_number), (''int'', native_to_int), (''gc'', native_gc),
     (''assert'', native_assert), (''exit'', native_exit), (''read'', native_readln)]"

definition native_reg :: "native \<Rightarrow> z_reg" where
  "native_reg n = \<lparr>rtype = RT_NATIVE_FUNC, val = native_addr n\<rparr>"

text \<open>The one table of properties all strings share.\<close>

definition initial_string_properties :: "z_reg zmap" where
  "initial_string_properties =
     map_insert_non_enumerable (map_insert_non_enumerable (map_insert_non_enumerable (map_insert_non_enumerable
       map_new ''length'' (native_reg native_strlen))
       ''startsWith'' (native_reg native_str_startswith))
       ''equals'' (native_reg native_str_equals))
       ''substring'' (native_reg native_str_substring)"

section \<open>Objects\<close>

definition json_properties :: "z_reg zmap" where
  "json_properties = map_insert_non_enumerable
     (map_insert_non_enumerable map_new ''size'' (native_reg native_object_key_size))
     ''keys'' (native_reg native_object_key_list)"

text \<open>\<open>object_new(NULL, ...)\<close>.\<close>

definition json_new :: "machine \<Rightarrow> fault + (uint_t \<times> machine)" where
  "json_new = new_object (Json_object json_properties 0)"

text \<open>
  \<open>object_new(class_name, ...)\<close>: loads the class if it is new, gives the instance a state on the
  caller's stack, stores it in register \<open>i\<close> of context \<open>c\<close> and runs the constructor. What the
  constructor throws is not looked at.
\<close>

definition object_new ::
  "loader \<Rightarrow> runner \<Rightarrow> string \<Rightarrow> string zmap \<Rightarrow> nat \<Rightarrow> int \<Rightarrow> uint_t \<Rightarrow> nat \<Rightarrow> machine \<Rightarrow> fault + machine" where
  "object_new load runner name imports start ptr c i m =
     (ebind (new_object Raw_object m) (\<lambda>(obj, m1).
      ebind (object_manager_get_or_load_type_info load runner name (Some imports) m1) (\<lambda>(t, m2).
      ebind (interpreter_state_new 0 (bytecode_stream t) name (Some (start, ptr)) m2) (\<lambda>(s, m3).
      ebind (set_reg c i \<lparr>rtype = RT_INSTANCE, val = obj\<rparr> m3) (\<lambda>m4.
      ebind (z_interpreter_set_arguments_count s 0
              (ADD_OBJECT_TO_GC_LIST obj (put_object obj (Instance_object (Some name) s) m4))) (\<lambda>m5.
      runner s m5))))))"

section \<open>Native functions\<close>

definition set_number :: "uint_t \<Rightarrow> nat \<Rightarrow> uint_t \<Rightarrow> machine \<Rightarrow> fault + machine" where
  "set_number c i w m = set_reg c i \<lparr>rtype = RT_NUMBER, val = w\<rparr> m"

definition returns :: "fault + machine \<Rightarrow> fault + (string option \<times> machine)" where
  "returns r = ebind r (\<lambda>m. Inr (None, m))"

text \<open>\<open>print\<close>: numbers with \<open>%d\<close> or \<open>%f\<close> in full, strings, and the text of other objects.\<close>

definition print_text :: "z_reg \<Rightarrow> machine \<Rightarrow> fault + string" where
  "print_text arg m =
     (if rtype arg = RT_NUMBER then
        (case f64_trunc (val arg) of
           None \<Rightarrow> Inl Undefined_Value
         | Some i \<Rightarrow> Inr (if f64_eq (val arg) (f64_of_int i) then print_d i else print_f (val arg)))
      else to_string (val arg) m)"

definition do_print :: "nat \<Rightarrow> machine \<Rightarrow> fault + machine" where
  "do_print s m = ebind (pop_value s m) (\<lambda>(arg, m1).
     ebind (print_text arg m1) (\<lambda>t. Inr (m1\<lparr>printed := printed m1 @ [t]\<rparr>)))"

definition do_number :: "nat \<Rightarrow> uint_t \<Rightarrow> nat \<Rightarrow> machine \<Rightarrow> fault + machine" where
  "do_number s c i m = ebind (pop_value s m) (\<lambda>(arg, m1).
     if rtype arg = RT_NUMBER then set_number c i (val arg) m1
     else ebind (to_string (val arg) m1) (\<lambda>t.
       case atof t of None \<Rightarrow> Inl Undefined_Value | Some w \<Rightarrow> set_number c i w m1))"

definition do_to_int :: "nat \<Rightarrow> uint_t \<Rightarrow> nat \<Rightarrow> machine \<Rightarrow> fault + machine" where
  "do_to_int s c i m = ebind (pop_value s m) (\<lambda>(arg, m1).
     case f64_trunc (val arg) of None \<Rightarrow> Inl Undefined_Value | Some k \<Rightarrow> set_number c i (f64_of_int k) m1)"

definition do_assert :: "nat \<Rightarrow> machine \<Rightarrow> fault + (string option \<times> machine)" where
  "do_assert s m = ebind (pop_value s m) (\<lambda>(arg, m1).
     Inr (if rtype arg = RT_NUMBER \<and> f64_eq (val arg) (f64_of_int 1) then None else Some ''assertion failed'', m1))"

text \<open>\<open>exit\<close> takes the low 32 bits of the register, not the number.\<close>

definition do_exit :: "nat \<Rightarrow> machine \<Rightarrow> fault + machine" where
  "do_exit s m = ebind (pop_value s m) (\<lambda>(arg, m1). Inl (Exited (scast (ucast (val arg) :: 32 word))))"

definition do_strlen :: "uint_t \<Rightarrow> uint_t \<Rightarrow> nat \<Rightarrow> machine \<Rightarrow> fault + machine" where
  "do_strlen obj c i m = ebind (to_string obj m) (\<lambda>t. set_number c i (f64_of_int (int (length t))) m)"

definition do_str_equals :: "nat \<Rightarrow> uint_t \<Rightarrow> uint_t \<Rightarrow> nat \<Rightarrow> machine \<Rightarrow> fault + machine" where
  "do_str_equals s obj c i m = ebind (pop_value s m) (\<lambda>(arg, m1).
     if rtype arg \<noteq> RT_NUMBER then
       ebind (to_string (val arg) m1) (\<lambda>other. ebind (to_string obj m1) (\<lambda>this.
       set_number c i (f64_of_bool (other = this)) m1))
     else set_number c i (f64_of_bool False) m1)"

definition do_str_startswith :: "nat \<Rightarrow> uint_t \<Rightarrow> uint_t \<Rightarrow> nat \<Rightarrow> machine \<Rightarrow> fault + machine" where
  "do_str_startswith s obj c i m = ebind (pop_value s m) (\<lambda>(arg, m1).
     if rtype arg \<noteq> RT_NUMBER then
       ebind (to_string (val arg) m1) (\<lambda>other. ebind (to_string obj m1) (\<lambda>this.
       set_number c i (f64_of_bool (take (length other) this = other)) m1))
     else set_number c i (f64_of_bool False) m1)"

text \<open>\<open>substring\<close> enters the address of the register, not of the string, in the collector's list.\<close>

definition do_str_substring :: "nat \<Rightarrow> uint_t \<Rightarrow> uint_t \<Rightarrow> nat \<Rightarrow> machine \<Rightarrow> fault + machine" where
  "do_str_substring s obj c i m = ebind (pop_value s m) (\<lambda>(arg, m1).
     ebind (to_string obj m1) (\<lambda>this.
     if rtype arg = RT_NUMBER then
       (case f64_trunc (val arg) of
          None \<Rightarrow> Inl Undefined_Value
        | Some k \<Rightarrow>
            if 0 \<le> k \<and> k \<le> int (length this)
            then (ebind (string_new (drop (nat k) this) m1) (\<lambda>(a, m2).
              ebind (set_reg c i \<lparr>rtype = RT_STR, val = a\<rparr> m2) (\<lambda>m3.
              Inr (m3\<lparr>gc_objects_list := gc_objects_list m3 @ [Register_entry c i]\<rparr>))))
            else Inl Out_Of_Bounds)
     else set_number c i 0 m1))"

definition do_object_new :: "uint_t \<Rightarrow> nat \<Rightarrow> machine \<Rightarrow> fault + machine" where
  "do_object_new c i m = (ebind (json_new m) (\<lambda>(a, m1).
     ebind (set_reg c i \<lparr>rtype = RT_OBJ, val = a\<rparr> m1) (\<lambda>m2. Inr (ADD_OBJECT_TO_GC_LIST a m2))))"

text \<open>The properties of what a register of type string or object points to.\<close>

definition get_properties :: "uint_t \<Rightarrow> machine \<Rightarrow> fault + z_reg zmap" where
  "get_properties a m = ebind (get_object a m) (\<lambda>x. case x of
       Json_object ps _ \<Rightarrow> Inr ps
     | Str_object _ \<Rightarrow> Inr (string_properties m)
     | _ \<Rightarrow> Inl Undefined_Value)"

definition do_key_size :: "uint_t \<Rightarrow> uint_t \<Rightarrow> nat \<Rightarrow> machine \<Rightarrow> fault + machine" where
  "do_key_size obj c i m = ebind (get_properties obj m) (\<lambda>ps. set_number c i (f64_of_int (sint (map_size ps))) m)"

text \<open>The keys as strings, under the texts of 0, 1, 2, ...\<close>

fun key_strings :: "nat \<Rightarrow> string list \<Rightarrow> z_reg zmap \<Rightarrow> machine \<Rightarrow> fault + (z_reg zmap \<times> machine)" where
  "key_strings i [] ps m = Inr (ps, m)"
| "key_strings i (k # ks) ps m =
     (ebind (string_new k m) (\<lambda>(a, m1).
      ebind (num_to_str (f64_of_int (int i))) (\<lambda>n.
      key_strings (i + 1) ks (map_insert ps n \<lparr>rtype = RT_STR, val = a\<rparr>) (ADD_OBJECT_TO_GC_LIST a m1))))"

definition do_key_list :: "uint_t \<Rightarrow> uint_t \<Rightarrow> nat \<Rightarrow> machine \<Rightarrow> fault + machine" where
  "do_key_list obj c i m = ebind (get_object obj m) (\<lambda>x.
     case x of
       Json_object ps cache \<Rightarrow>
         ebind (if cache \<noteq> 0 then Inr (cache, m)
                else (ebind (json_new m) (\<lambda>(ret, m1).
                  ebind (key_strings 0 (map_key_list ps) json_properties m1) (\<lambda>(rps, m2).
                  Inr (ret, put_object obj (Json_object ps ret)
                    (put_object ret (Json_object (rps\<lparr>is_immutable := True\<rparr>) 0) m2)))))) (\<lambda>(ret, m3).
         set_reg c i \<lparr>rtype = RT_OBJ, val = ret\<rparr> m3)
     | _ \<Rightarrow> Inl Undefined_Value)"

text \<open>
  \<open>read\<close>: a block with room for a header, grown by a byte for each one read up to a line feed, the
  end of the input or the byte that is -1 as a \<open>char\<close>; then the terminator is written after the last
  byte. It has no room there: see \<open>do_readln_overruns\<close>.
\<close>

fun read_chars :: "string \<Rightarrow> nat \<Rightarrow> cell list \<Rightarrow> fault + (nat \<times> cell list \<times> string)" where
  "read_chars [] len buff = Inr (len, buff, [])"
| "read_chars (x # rest) len buff =
     (if char_byte x = 255 \<or> char_byte x = 10 then Inr (len, buff, rest)
      else ebind (mem_write (len + sizeof_uint_t) [Some (char_byte x)] (buff @ [None]))
        (read_chars rest (len + 1)))"

definition c_text :: "cell list \<Rightarrow> string" where
  "c_text cs = map byte_char (takeWhile (\<lambda>b. b \<noteq> 0) (map (\<lambda>x. case x of None \<Rightarrow> 0 | Some b \<Rightarrow> b) cs))"

definition do_readln :: "uint_t \<Rightarrow> nat \<Rightarrow> machine \<Rightarrow> fault + machine" where
  "do_readln c i m =
     (ebind (read_chars (stdin m) 0 (replicate sizeof_uint_t None)) (\<lambda>(len, buff, rest).
      ebind (mem_write (len + sizeof_uint_t) [Some 0] buff) (\<lambda>line.
      ebind (string_new (c_text (drop sizeof_uint_t line)) (m\<lparr>stdin := rest\<rparr>)) (\<lambda>(a, m1).
      ebind (set_reg c i \<lparr>rtype = RT_STR, val = a\<rparr> m1) (\<lambda>m2. Inr (ADD_OBJECT_TO_GC_LIST a m2))))))"

lemma read_chars_length:
  "length buff = len + sizeof_uint_t \<Longrightarrow>
     \<exists>len' buff' rest. read_chars s len buff = Inr (len', buff', rest) \<and> length buff' = len' + sizeof_uint_t"
proof (induction s len buff rule: read_chars.induct)
  case (1 len buff)
  then show ?case by simp
next
  case (2 x rest len buff)
  show ?case
  proof (cases "char_byte x = 255 \<or> char_byte x = 10")
    case True
    then show ?thesis using 2(2) by simp
  next
    case False
    obtain b where b: "mem_write (len + sizeof_uint_t) [Some (char_byte x)] (buff @ [None]) = Inr b"
      using mem_write_ok[of "len + sizeof_uint_t" "[Some (char_byte x)]" "buff @ [None]"] 2(2) by auto
    then have "length b = len + 1 + sizeof_uint_t" using mem_write_length 2(2) by fastforce
    then show ?thesis using 2(1)[OF False] b False by simp
  qed
qed

lemma do_readln_overruns: "do_readln c i m = Inl Out_Of_Bounds"
proof -
  obtain len buff rest where "read_chars (stdin m) 0 (replicate sizeof_uint_t None) = Inr (len, buff, rest)"
    "length buff = len + sizeof_uint_t"
    using read_chars_length[of "replicate sizeof_uint_t None" 0 "stdin m"] by auto
  then show ?thesis by (simp add: do_readln_def mem_write_def)
qed

text \<open>\<open>gc\<close> does nothing under the heap limit; above it the model stops, as an allocation would.\<close>

definition call_native ::
  "native \<Rightarrow> nat \<Rightarrow> uint_t \<Rightarrow> nat \<Rightarrow> uint_t \<Rightarrow> machine \<Rightarrow> fault + (string option \<times> machine)" where
  "call_native n s c i obj m =
     (case n of
        native_print \<Rightarrow> returns (do_print s m)
      | native_object_new \<Rightarrow> returns (do_object_new c i m)
      | native_number \<Rightarrow> returns (do_number s c i m)
      | native_to_int \<Rightarrow> returns (do_to_int s c i m)
      | native_gc \<Rightarrow> if within_limit m then Inr (None, m) else Inl Collector_Starts
      | native_assert \<Rightarrow> do_assert s m
      | native_exit \<Rightarrow> returns (do_exit s m)
      | native_readln \<Rightarrow> returns (do_readln c i m)
      | native_strlen \<Rightarrow> returns (do_strlen obj c i m)
      | native_str_startswith \<Rightarrow> returns (do_str_startswith s obj c i m)
      | native_str_equals \<Rightarrow> returns (do_str_equals s obj c i m)
      | native_str_substring \<Rightarrow> returns (do_str_substring s obj c i m)
      | native_object_key_size \<Rightarrow> returns (do_key_size obj c i m)
      | native_object_key_list \<Rightarrow> returns (do_key_list obj c i m))"

section \<open>Properties\<close>

text \<open>
  C32: reading a line never succeeds: whatever the input is, empty or not, ended by a line feed, by
  the end of the input or by a byte 255, every byte read finds its place, and the terminator is
  written one byte past the end of the block.
\<close>

theorem readln_overruns: "call_native native_readln s c i obj m = Inl Out_Of_Bounds"
  by (simp add: call_native_def returns_def do_readln_overruns)

end
