(* ===== verification/Interpreter.thy ===== *)
theory Interpreter
  imports Natives
begin

text \<open>
  src/src/interpreter/interpreter_dd.c, \<open>z_interpreter_run\<close>: one definition per instruction. What the
  function keeps in local variables is the record \<open>activation\<close>; \<open>locals_ptr\<close> always points to the
  locals of the current context, so registers are read and written there. Instructions are
  \<open>linked\<close> (their opcode replaced by a code address) when the FFRAME instruction of their function is
  first executed; jumping to an instruction that is not linked jumps to a small number.
\<close>

section \<open>Activations\<close>

record activation =
  cur :: uint_t
  ip :: nat
  linked :: "(nat \<times> nat) list"
  object_to_search_on :: uint_t

text \<open>Where an instruction continues: at the next dispatch, at OP_FFRAME without one, or at the end.\<close>

datatype outcome = Goto activation | Enter activation | Stop

definition is_linked :: "(nat \<times> nat) list \<Rightarrow> nat \<Rightarrow> bool" where
  "is_linked ls a \<longleftrightarrow> list_ex (\<lambda>(x, y). x \<le> a \<and> a < y \<and> (a - x) mod 32 = 0) ls"

definition goto_next :: "activation \<Rightarrow> outcome" where
  "goto_next r = Goto (r\<lparr>ip := ip r + 32\<rparr>)"

definition goto_addr :: "uint_t \<Rightarrow> activation \<Rightarrow> outcome" where
  "goto_addr a r = Goto (r\<lparr>ip := unat a\<rparr>)"

type_synonym step = "nat \<Rightarrow> activation \<Rightarrow> machine \<Rightarrow> fault + (outcome \<times> machine)"

text \<open>The operand words of the current instruction.\<close>

definition operand_at :: "nat \<Rightarrow> nat \<Rightarrow> activation \<Rightarrow> machine \<Rightarrow> fault + uint_t" where
  "operand_at k s r m = ebind (get_state s m) (\<lambda>st. read_word (byte_stream st) (ip r + k))"

abbreviation op_r0 :: "nat \<Rightarrow> activation \<Rightarrow> machine \<Rightarrow> fault + uint_t" where
  "op_r0 \<equiv> operand_at 8"

abbreviation op_r1 :: "nat \<Rightarrow> activation \<Rightarrow> machine \<Rightarrow> fault + uint_t" where
  "op_r1 \<equiv> operand_at 16"

abbreviation op_r2 :: "nat \<Rightarrow> activation \<Rightarrow> machine \<Rightarrow> fault + uint_t" where
  "op_r2 \<equiv> operand_at 24"

text \<open>INIT_R0, INIT_R1, INIT_R2 and what is read or written through them.\<close>

definition reg_in :: "nat \<Rightarrow> nat \<Rightarrow> activation \<Rightarrow> machine \<Rightarrow> fault + z_reg" where
  "reg_in k s r m = ebind (operand_at k s r m) (\<lambda>i. get_reg (cur r) (unat i) m)"

definition reg_out :: "nat \<Rightarrow> z_reg \<Rightarrow> nat \<Rightarrow> activation \<Rightarrow> machine \<Rightarrow> fault + machine" where
  "reg_out k v s r m = ebind (operand_at k s r m) (\<lambda>i. set_reg (cur r) (unat i) v m)"

definition next_after :: "activation \<Rightarrow> fault + machine \<Rightarrow> fault + (outcome \<times> machine)" where
  "next_after r x = ebind x (\<lambda>m. Inr (goto_next r, m))"

definition num_reg :: "uint_t \<Rightarrow> z_reg" where
  "num_reg w = \<lparr>rtype = RT_NUMBER, val = w\<rparr>"

section \<open>Exceptions\<close>

text \<open>RETURN_IF_ERROR; GOTO_CATCH.\<close>

definition goto_catch_block :: "nat \<Rightarrow> activation \<Rightarrow> machine \<Rightarrow> fault + (outcome \<times> machine)" where
  "goto_catch_block s r m = ebind (get_state s m) (\<lambda>st.
     if return_code st then Inr (Stop, m)
     else Inr (Goto (r\<lparr>ip := unat (instruction_pointer st), cur := current_context st\<rparr>), m))"

definition throw_str :: "string \<Rightarrow> step" where
  "throw_str message s r m =
     ebind (interpreter_throw_exception_from_str s message m) (goto_catch_block s r)"

definition op_set_catch :: step where
  "op_set_catch s r m = ebind (get_ctx (cur r) m) (\<lambda>c. ebind (op_r0 s r m) (\<lambda>a.
     let m1 = (if catches_list c = None then upd_state s (\<lambda>x. x\<lparr>current_context := cur r\<rparr>) m else m);
         l = (case catches_list c of None \<Rightarrow> [] | Some l \<Rightarrow> l)
     in Inr (goto_next r, put_ctx (cur r) (c\<lparr>catches_list := Some (l @ [a])\<rparr>) m1)))"

definition op_clear_catch :: step where
  "op_clear_catch s r m = ebind (get_ctx (cur r) m) (\<lambda>c.
     case catches_list c of
       None \<Rightarrow> Inl Null_Deref
     | Some l \<Rightarrow> if l = [] then Inl Out_Of_Bounds
         else Inr (goto_next r, put_ctx (cur r) (c\<lparr>catches_list := Some (butlast l)\<rparr>) m))"

definition op_throw :: step where
  "op_throw s r m = ebind (reg_in 8 s r m) (\<lambda>v.
     ebind (interpreter_throw_exception_from_reg s v (upd_state s (\<lambda>x. x\<lparr>current_context := cur r\<rparr>) m))
       (goto_catch_block s r))"

section \<open>Moves\<close>

definition op_import :: "loader \<Rightarrow> runner \<Rightarrow> step" where
  "op_import load runner s r m = ebind (get_state s m) (\<lambda>st.
     ebind (op_r0 s r m) (\<lambda>i. ebind (op_r1 s r m) (\<lambda>a.
     ebind (read_cstr (byte_stream st) (unat i)) (\<lambda>import.
     ebind (read_cstr (byte_stream st) (unat a)) (\<lambda>alias.
     ebind (get_imports_table load runner s m) (\<lambda>(_, m1).
     Inr (goto_next r, upd_type (class_name st) (\<lambda>t. t\<lparr>imports_table := map_insert (imports_table t) alias import\<rparr>) m1)))))))"

definition op_mov_number :: step where
  "op_mov_number s r m = ebind (op_r1 s r m) (\<lambda>w. next_after r (reg_out 8 (num_reg w) s r m))"

definition op_mov_fnc :: step where
  "op_mov_fnc s r m = ebind (op_r1 s r m) (\<lambda>start. ebind (op_r2 s r m) (\<lambda>is_async.
     ebind (function_ref_new start (cur r) s is_async m) (\<lambda>(a, m1).
     next_after r (ebind (reg_out 8 \<lparr>rtype = RT_FUNCTION_REF, val = a\<rparr> s r m1) (\<lambda>m2.
       Inr (ADD_OBJECT_TO_GC_LIST a m2))))))"

text \<open>A new string in the register at operand \<open>k\<close>.\<close>

definition string_out :: "nat \<Rightarrow> string \<Rightarrow> step" where
  "string_out k str s r m = (ebind (string_new str m) (\<lambda>(a, m1).
     next_after r (ebind (reg_out k \<lparr>rtype = RT_STR, val = a\<rparr> s r m1) (\<lambda>m2. Inr (ADD_OBJECT_TO_GC_LIST a m2)))))"

definition op_mov_str :: step where
  "op_mov_str s r m = ebind (get_state s m) (\<lambda>st. ebind (op_r1 s r m) (\<lambda>a.
     ebind (read_cstr (byte_stream st) (unat a)) (\<lambda>str. string_out 8 str s r m)))"

definition op_mov :: step where
  "op_mov s r m = ebind (reg_in 16 s r m) (\<lambda>v. next_after r (reg_out 8 v s r m))"

text \<open>INC and DEC change the number in r0, whatever its type, and copy the register to r1.\<close>

definition op_step_by :: "(uint_t \<Rightarrow> uint_t) \<Rightarrow> step" where
  "op_step_by f s r m = ebind (reg_in 8 s r m) (\<lambda>v.
     let v' = v\<lparr>val := f (val v)\<rparr> in
     ebind (reg_out 8 v' s r m) (\<lambda>m1. next_after r (reg_out 16 v' s r m1)))"

definition op_inc :: step where
  "op_inc = op_step_by (\<lambda>x. f64_add x (f64_of_int 1))"

definition op_dec :: step where
  "op_dec = op_step_by (\<lambda>x. f64_sub x (f64_of_int 1))"

section \<open>Arithmetic and comparison\<close>

definition op_arith :: "(uint_t \<Rightarrow> uint_t \<Rightarrow> uint_t) \<Rightarrow> step" where
  "op_arith f s r m = ebind (reg_in 8 s r m) (\<lambda>x. ebind (reg_in 16 s r m) (\<lambda>y.
     next_after r (reg_out 24 (num_reg (f (val x) (val y))) s r m)))"

definition op_add :: step where
  "op_add s r m = ebind (reg_in 8 s r m) (\<lambda>x. ebind (reg_in 16 s r m) (\<lambda>y.
     if rtype x = RT_NUMBER \<and> rtype y = RT_NUMBER
     then next_after r (reg_out 24 (num_reg (f64_add (val x) (val y))) s r m)
     else ebind (reg_to_str x m) (\<lambda>a. ebind (reg_to_str y m) (\<lambda>b. string_out 24 (a @ b) s r m))))"

definition op_sub :: step where
  "op_sub = op_arith f64_sub"

definition op_mul :: step where
  "op_mul = op_arith f64_mul"

definition op_div :: step where
  "op_div s r m = ebind (reg_in 16 s r m) (\<lambda>y.
     if f64_eq (val y) 0 then throw_str ''divide by 0'' s r m
     else op_arith f64_div s r m)"

definition op_mod :: step where
  "op_mod s r m = ebind (reg_in 8 s r m) (\<lambda>x.
     if rtype x = RT_NUMBER then op_arith f64_mod s r m else Inr (goto_next r, m))"

definition f64_gt :: "uint_t \<Rightarrow> uint_t \<Rightarrow> bool" where
  "f64_gt x y \<longleftrightarrow> f64_lt y x"

definition f64_ge :: "uint_t \<Rightarrow> uint_t \<Rightarrow> bool" where
  "f64_ge x y \<longleftrightarrow> f64_le y x"

definition f64_ne :: "uint_t \<Rightarrow> uint_t \<Rightarrow> bool" where
  "f64_ne x y \<longleftrightarrow> \<not> f64_eq x y"

definition op_cmp :: "(uint_t \<Rightarrow> uint_t \<Rightarrow> bool) \<Rightarrow> step" where
  "op_cmp c = op_arith (\<lambda>x y. f64_of_bool (c x y))"

section \<open>Jumps\<close>

definition op_jmp :: step where
  "op_jmp s r m = ebind (op_r0 s r m) (\<lambda>a. Inr (goto_addr a r, m))"

text \<open>The truth of a register is that its 64 bits are not all zero.\<close>

definition op_jmp_if :: "bool \<Rightarrow> step" where
  "op_jmp_if b s r m = ebind (reg_in 8 s r m) (\<lambda>v. ebind (op_r1 s r m) (\<lambda>a.
     Inr (if (val v \<noteq> 0) = b then goto_addr a r else goto_next r, m)))"

definition op_jmp_cmp :: "(uint_t \<Rightarrow> uint_t \<Rightarrow> bool) \<Rightarrow> step" where
  "op_jmp_cmp c s r m = ebind (reg_in 8 s r m) (\<lambda>x. ebind (reg_in 16 s r m) (\<lambda>y. ebind (op_r2 s r m) (\<lambda>a.
     Inr (if c (val x) (val y) then goto_addr a r else goto_next r, m))))"

text \<open>With an immediate; equality compares bits.\<close>

definition op_jmp_imm :: "(uint_t \<Rightarrow> uint_t \<Rightarrow> bool) \<Rightarrow> step" where
  "op_jmp_imm c s r m = ebind (reg_in 8 s r m) (\<lambda>x. ebind (op_r1 s r m) (\<lambda>w. ebind (op_r2 s r m) (\<lambda>a.
     Inr (if c (val x) w then goto_addr a r else goto_next r, m))))"

section \<open>Fields\<close>

text \<open>SEARCH_THIS: the scopes, the synchronized variables, the static variables, or a class.\<close>

definition get_this :: "string \<Rightarrow> step" where
  "get_this name s r m = ebind (get_state s m) (\<lambda>st.
     ebind (search_this (byte_stream st) name (cur r) m) (\<lambda>(found, m1).
     case found of
       Some (a, i, _) \<Rightarrow> ebind (get_reg a i m1) (\<lambda>v. next_after r (reg_out 24 v s r m1))
     | None \<Rightarrow>
         (case map_get (syncs m1 ! synchronized_variables st) name of
            Some v \<Rightarrow> next_after r (reg_out 24 v s r m1)
          | None \<Rightarrow>
              (case Option.bind (known_types m1 (class_name st)) (\<lambda>t. map_get (static_variables t) name) of
                 Some v \<Rightarrow> next_after r (reg_out 24 v s r m1)
               | None \<Rightarrow>
                   (ebind (class_ref_new name m1) (\<lambda>(a, m2).
                    next_after r (ebind (reg_out 24 \<lparr>rtype = RT_CLASS_REF, val = a\<rparr> s r m2) (\<lambda>m3.
                      Inr (ADD_OBJECT_TO_GC_LIST a m3)))))))))"

text \<open>What a lookup found goes to r2; NULL is an exception.\<close>

definition found_or_throw :: "string \<Rightarrow> z_reg option \<Rightarrow> step" where
  "found_or_throw message prop s r m =
     (case prop of Some v \<Rightarrow> next_after r (reg_out 24 v s r m) | None \<Rightarrow> throw_str message s r m)"

definition class_of_ref :: "uint_t \<Rightarrow> machine \<Rightarrow> fault + string" where
  "class_of_ref a m = ebind (get_object a m) (\<lambda>x. case x of Class_object name \<Rightarrow> Inr name | _ \<Rightarrow> Inl Undefined_Value)"

definition saved_state :: "uint_t \<Rightarrow> machine \<Rightarrow> fault + nat" where
  "saved_state a m = ebind (get_object a m) (\<lambda>x. case x of Instance_object _ s \<Rightarrow> Inr s | _ \<Rightarrow> Inl Undefined_Value)"

definition imported_type :: "loader \<Rightarrow> runner \<Rightarrow> string \<Rightarrow> nat \<Rightarrow> machine \<Rightarrow> fault + (type_info \<times> machine)" where
  "imported_type load runner name s m = ebind (get_imports_table load runner s m) (\<lambda>(im, m1).
     object_manager_get_or_load_type_info load runner name (Some im) m1)"

definition get_on :: "loader \<Rightarrow> runner \<Rightarrow> string \<Rightarrow> z_reg \<Rightarrow> step" where
  "get_on load runner name x s q m =
     (let r = q\<lparr>object_to_search_on := val x\<rparr> in
      if rtype x = RT_CLASS_REF then
        ebind (class_of_ref (val x) m) (\<lambda>cls.
        ebind (imported_type load runner cls s m) (\<lambda>(t, m1).
        found_or_throw ''cannot read property'' (map_get (static_variables t) name) s r m1))
      else if rtype x \<noteq> RT_INSTANCE then
        ebind (get_properties (val x) m) (\<lambda>ps. found_or_throw ''cannot read property'' (map_get ps name) s r m)
      else
        ebind (saved_state (val x) m) (\<lambda>os.
        ebind (interpreter_get_field_virtual os s name m) (\<lambda>(prop, m1).
        found_or_throw ''cannot read property on object'' prop s r m1)))"

text \<open>The part GET_FIELD and GET_FIELD_IMMEDIATE share: native functions come first, on any object.\<close>

definition field_name_set :: "loader \<Rightarrow> runner \<Rightarrow> string \<Rightarrow> step" where
  "field_name_set load runner name s r m = ebind (op_r0 s r m) (\<lambda>lookup_object.
     case native_functions name of
       Some n \<Rightarrow> next_after r (reg_out 24 (native_reg n) s r m)
     | None \<Rightarrow>
         if lookup_object = 1 then get_this name s r m
         else ebind (reg_in 8 s r m) (\<lambda>x.
           if rtype x \<noteq> RT_NUMBER then get_on load runner name x s r m
           else if f64_eq (val x) 0 \<or> f64_eq (val x) (f64_of_int 1) then get_this name s r m
           else Inr (goto_next r, m)))"

definition op_get_field :: "loader \<Rightarrow> runner \<Rightarrow> step" where
  "op_get_field load runner s r m = ebind (reg_in 16 s r m) (\<lambda>x.
     ebind (reg_to_str x m) (\<lambda>name. field_name_set load runner name s r m))"

definition op_get_field_immediate :: "loader \<Rightarrow> runner \<Rightarrow> step" where
  "op_get_field_immediate load runner s r m = ebind (get_state s m) (\<lambda>st. ebind (op_r1 s r m) (\<lambda>a.
     ebind (read_cstr (byte_stream st) (unat a)) (\<lambda>name. field_name_set load runner name s r m)))"

definition set_this :: "string \<Rightarrow> z_reg \<Rightarrow> step" where
  "set_this name v s r m = ebind (get_state s m) (\<lambda>st.
     ebind (search_this (byte_stream st) name (cur r) m) (\<lambda>(found, m1).
     case found of
       Some (a, i, _) \<Rightarrow> next_after r (set_reg a i v m1)
     | None \<Rightarrow>
         let k = synchronized_variables st in
         Inr (goto_next r, m1\<lparr>syncs := (syncs m1)[k := map_insert (syncs m1 ! k) name v]\<rparr>)))"

definition set_static :: "loader \<Rightarrow> runner \<Rightarrow> string \<Rightarrow> string \<Rightarrow> z_reg \<Rightarrow> step" where
  "set_static load runner cls name v s r m = ebind (get_state s m) (\<lambda>st.
     let own = (cls = ''__static__'');
         target = (if own then class_name st else cls) in
     ebind (if own then object_manager_get_or_load_type_info load runner target None m
            else imported_type load runner target s m) (\<lambda>(t, m1).
     Inr (goto_next r, upd_type target (\<lambda>t. t\<lparr>static_variables := map_insert (static_variables t) name v\<rparr>) m1)))"

text \<open>A property of a string goes into the table all strings share.\<close>

definition set_property :: "uint_t \<Rightarrow> string \<Rightarrow> z_reg \<Rightarrow> machine \<Rightarrow> fault + machine" where
  "set_property a name v m = ebind (get_object a m) (\<lambda>x. case x of
       Json_object ps _ \<Rightarrow> Inr (put_object a (Json_object (map_insert ps name v) 0) m)
     | Str_object _ \<Rightarrow> Inr (m\<lparr>string_properties := map_insert (string_properties m) name v\<rparr>)
     | _ \<Rightarrow> Inl Undefined_Value)"

definition op_set_field :: "loader \<Rightarrow> runner \<Rightarrow> step" where
  "op_set_field load runner s q m = ebind (reg_in 16 s q m) (\<lambda>n. ebind (reg_to_str n m) (\<lambda>name.
     ebind (op_r0 s q m) (\<lambda>i. ebind (reg_in 24 s q m) (\<lambda>v.
     if i = 1 then set_this name v s q m
     else ebind (reg_in 8 s q m) (\<lambda>x.
       let r = q\<lparr>object_to_search_on := val x\<rparr> in
       if rtype x = RT_NUMBER then Inr (goto_next q, m)
       else if rtype x = RT_CLASS_REF then
         ebind (class_of_ref (val x) m) (\<lambda>cls. set_static load runner cls name v s q m)
       else if rtype x \<noteq> RT_INSTANCE then next_after r (set_property (val x) name v m)
       else ebind (saved_state (val x) m) (\<lambda>os.
         ebind (interpreter_set_field_virtual os s name v m) (\<lambda>(failed, m1).
         ebind (get_state os m1) (\<lambda>ost.
         if failed \<and> return_code ost then
           (case exception_details ost of
              None \<Rightarrow> Inl Null_Deref
            | Some d \<Rightarrow> throw_str d s r m1)
         else Inr (goto_next r, m1)))))))))"

section \<open>Calls\<close>

definition op_push :: step where
  "op_push s r m = ebind (reg_in 8 s r m) (\<lambda>v. next_after r (push_value s v m))"

definition op_pop :: step where
  "op_pop s r m = ebind (pop_value s m) (\<lambda>(v, m1). next_after r (reg_out 8 v s r m1))"

definition function_at :: "uint_t \<Rightarrow> machine \<Rightarrow> fault + (uint_t \<times> uint_t \<times> uint_t \<times> nat)" where
  "function_at a m = ebind (get_object a m) (\<lambda>x. case x of
       Function_object start is_async parent owner \<Rightarrow> Inr (start, is_async, parent, owner)
     | _ \<Rightarrow> Inl Undefined_Value)"

definition call_native_function :: "uint_t \<Rightarrow> step" where
  "call_native_function addr s r m = ebind (op_r1 s r m) (\<lambda>i.
     case native_at addr of
       None \<Rightarrow> Inl Undefined_Value
     | Some n \<Rightarrow> ebind (call_native n s (cur r) (unat i) (object_to_search_on r) m) (\<lambda>(err, m1).
         case err of None \<Rightarrow> Inr (goto_next r, m1) | Some message \<Rightarrow> throw_str message s r m1))"

text \<open>
  A function of another instance runs in that instance's state, or a clone of it if it is running,
  with the caller's stack; the caller's own stack pointer stays.
\<close>

definition callee_state :: "nat \<Rightarrow> machine \<Rightarrow> fault + (nat \<times> machine)" where
  "callee_state owner m = ebind (get_state owner m) (\<lambda>other.
     if is_running other then ebind (clone_state owner m) (\<lambda>(c, m1). Inr (c, ADD_ROOT_TO_GC_LIST c m1))
     else Inr (owner, m))"

definition call_other :: "runner \<Rightarrow> uint_t \<Rightarrow> uint_t \<Rightarrow> nat \<Rightarrow> step" where
  "call_other runner start parent owner s r m = ebind (op_r1 s r m) (\<lambda>i.
     ebind (get_state owner m) (\<lambda>other. ebind (get_state s m) (\<lambda>st.
     ebind (callee_state owner m) (\<lambda>(who, m1).
     ebind (new_object (Context (empty_ctx\<lparr>parent_context := parent, requested_return_register_index := i\<rparr>)) m1) (\<lambda>(a, m2).
     ebind (runner who (upd_state who (\<lambda>x. x\<lparr>instruction_pointer := start, stack_ptr := stack_ptr st,
              stack_start := stack_start st, current_context := a\<rparr>) m2)) (\<lambda>m3.
     let m4 = (if is_running other then upd_state who (\<lambda>x. x\<lparr>removed_as_a_root := True\<rparr>) m3 else m3) in
     ebind (get_state who m4) (\<lambda>ost.
     if return_code ost
     then (case exception_details ost of None \<Rightarrow> Inl Null_Deref | Some d \<Rightarrow> throw_str d s r m4)
     else (case return_value ost of
             None \<Rightarrow> Inl Undefined_Value
           | Some v \<Rightarrow> next_after r (reg_out 16 v s r m4)))))))))"

text \<open>An async call copies the stack and leaves the thread to be started; see \<open>run_async\<close>.\<close>

definition call_async :: "uint_t \<Rightarrow> step" where
  "call_async f s r m = ebind (get_state s m) (\<lambda>st.
     ebind (context_new m) (\<lambda>(_, m1).
     Inr (goto_next r, m1\<lparr>stacks := stacks m1 @ [stacks m1 ! stack_start st],
       threads := threads m1 @ [\<lparr>as_state = s, as_stack_start = length (stacks m1),
         as_stack_ptr = stack_ptr st, as_function = f\<rparr>]\<rparr>)))"

definition call_own :: "uint_t \<Rightarrow> uint_t \<Rightarrow> step" where
  "call_own start parent s r m = ebind (op_r1 s r m) (\<lambda>i.
     ebind (new_object (Context (empty_ctx\<lparr>parent_context := parent, return_context := cur r,
            return_address := Some (ip r), requested_return_register_index := i\<rparr>)) m) (\<lambda>(a, m1).
     Inr (Enter (r\<lparr>cur := a, ip := unat start\<rparr>), upd_state s (\<lambda>x. x\<lparr>current_context := a\<rparr>) m1)))"

definition op_call :: "loader \<Rightarrow> runner \<Rightarrow> step" where
  "op_call load runner s r m = ebind (reg_in 8 s r m) (\<lambda>f.
     if rtype f = RT_NATIVE_FUNC then call_native_function (val f) s r m
     else if rtype f = RT_FUNCTION_REF then
       ebind (function_at (val f) m) (\<lambda>(start, is_async, parent, owner).
       ebind (op_r2 s r m) (\<lambda>n.
       ebind (z_interpreter_set_arguments_count s n m) (\<lambda>m1.
       if owner \<noteq> s then call_other runner start parent owner s r m1
       else if is_async \<noteq> 0 then call_async (val f) s r m1
       else call_own start parent s r m1)))
     else if rtype f = RT_CLASS_REF then
       ebind (op_r1 s r m) (\<lambda>i. ebind (get_state s m) (\<lambda>st.
       ebind (class_of_ref (val f) m) (\<lambda>cls.
       ebind (object_manager_get_or_load_type_info load runner (class_name st) None m) (\<lambda>(t, m1).
       next_after r (object_new load runner cls (imports_table t) (stack_start st) (stack_ptr st) (cur r) (unat i) m1)))))
     else throw_str ''callee is not a function'' s r m)"

definition op_return :: step where
  "op_return s r m = ebind (reg_in 8 s r m) (\<lambda>v. ebind (get_ctx (cur r) m) (\<lambda>c.
     let m1 = upd_state s (\<lambda>x. x\<lparr>current_context := cur r\<rparr>) m in
     if return_context c = 0
     then Inr (Stop, upd_state s (\<lambda>x. x\<lparr>return_value := Some v, return_code := False\<rparr>) m1)
     else (case return_address c of
             None \<Rightarrow> Inl Null_Deref
           | Some a \<Rightarrow> next_after (r\<lparr>cur := return_context c, ip := a\<rparr>)
               (set_reg (return_context c) (unat (requested_return_register_index c)) v m1))))"

text \<open>FFRAME: the locals, with the arguments from local 3 on and \<open>this\<close>, and linking.\<close>

fun take_args :: "nat \<Rightarrow> nat \<Rightarrow> nat \<Rightarrow> z_reg list \<Rightarrow> machine \<Rightarrow> fault + (z_reg list \<times> machine)" where
  "take_args s 0 i ls m = Inr (ls, m)"
| "take_args s (Suc n) i ls m = ebind (pop_value s m) (\<lambda>(v, m1).
     if i + 3 < length ls then take_args s n (i + 1) (ls[i + 3 := v]) m1 else Inl Out_Of_Bounds)"

definition place_this :: "ctx \<Rightarrow> z_reg list \<Rightarrow> fault + z_reg list" where
  "place_this root ls = (case locals root of
       None \<Rightarrow> Inr ls
     | Some rl \<Rightarrow> if 1 < length rl \<and> 1 < length ls then Inr (ls[1 := rl ! 1]) else Inl Out_Of_Bounds)"

definition link_function :: "nat \<Rightarrow> nat \<Rightarrow> (nat \<times> nat) list \<Rightarrow> fault + (nat \<times> nat) list" where
  "link_function start last_addr ls =
     (if last_addr = 0 \<or> start \<in> set (map fst ls) then Inr ls
      else if list_ex (\<lambda>(x, y). x < last_addr \<and> start < y) ls then Inl Undefined_Value
      else Inr ((start, last_addr) # ls))"

definition op_fframe :: step where
  "op_fframe s r m = ebind (op_r0 s r m) (\<lambda>n. ebind (op_r1 s r m) (\<lambda>symbols. ebind (op_r2 s r m) (\<lambda>e.
     ebind (pop_value s m) (\<lambda>(count, m1).
     ebind (take_args s (nat (sint (val count))) 0 (replicate (unat n + 1) zero_reg) m1) (\<lambda>(ls, m2).
     ebind (get_state s m2) (\<lambda>st. ebind (get_ctx (root_context st) m2) (\<lambda>root.
     ebind (place_this root ls) (\<lambda>ls'.
     ebind (get_ctx (cur r) m2) (\<lambda>c.
     ebind (link_function (ip r) (unat e) (linked r)) (\<lambda>lk.
     Inr (goto_next (r\<lparr>linked := lk\<rparr>), ADD_OBJECT_TO_GC_LIST (cur r)
       (put_ctx (cur r) (c\<lparr>locals := Some ls', symbols_address := symbols\<rparr>) m2))))))))))))"

definition op_create_this :: step where
  "op_create_this s r m = ebind (get_state s m) (\<lambda>st.
     ebind (new_object (Instance_object (if known_types m (class_name st) = None then None else Some (class_name st)) s) m) (\<lambda>(a, m1). next_after r (set_reg (cur r) 1 \<lparr>rtype = RT_INSTANCE, val = a\<rparr> m1)))"

section \<open>Dispatch\<close>

text \<open>The dispatch table; COMMENT and LABEL have no entry.\<close>

definition exec_instr :: "loader \<Rightarrow> runner \<Rightarrow> opcode \<Rightarrow> step" where
  "exec_instr load runner oc =
     (case oc of
        MOV_NUMBER \<Rightarrow> op_mov_number | MOV_STR \<Rightarrow> op_mov_str | MOV \<Rightarrow> op_mov
      | ADD \<Rightarrow> op_add | SUB \<Rightarrow> op_sub | DIV \<Rightarrow> op_div | MUL \<Rightarrow> op_mul | MOD \<Rightarrow> op_mod
      | CMP_EQUAL \<Rightarrow> op_cmp f64_eq | CMP_LESS \<Rightarrow> op_cmp f64_lt | CMP_LESS_OR_EQUAL \<Rightarrow> op_cmp f64_le
      | CMP_GREATER \<Rightarrow> op_cmp f64_gt | CMP_N_EQUAL \<Rightarrow> op_cmp f64_ne | CMP_GREATER_OR_EQUAL \<Rightarrow> op_cmp f64_ge
      | JMP_TRUE \<Rightarrow> op_jmp_if True | JMP_NOT_TRUE \<Rightarrow> op_jmp_if False | JMP \<Rightarrow> op_jmp
      | GET_FIELD \<Rightarrow> op_get_field load runner | GET_FIELD_IMMEDIATE \<Rightarrow> op_get_field_immediate load runner
      | SET_FIELD \<Rightarrow> op_set_field load runner
      | CALL \<Rightarrow> op_call load runner | PUSH \<Rightarrow> op_push | POP \<Rightarrow> op_pop | RETURN \<Rightarrow> op_return
      | RETURN_I \<Rightarrow> (\<lambda>s r m. Inr (goto_next r, m)) | NOP \<Rightarrow> (\<lambda>s r m. Inr (goto_next r, m))
      | FFRAME \<Rightarrow> op_fframe | INC \<Rightarrow> op_inc | DEC \<Rightarrow> op_dec | MOV_FNC \<Rightarrow> op_mov_fnc
      | JMP_LESS \<Rightarrow> op_jmp_cmp f64_lt | JMP_GREATER \<Rightarrow> op_jmp_cmp f64_gt
      | JMP_LESS_OR_EQUAL \<Rightarrow> op_jmp_cmp f64_le | JMP_GREATER_OR_EQUAL \<Rightarrow> op_jmp_cmp f64_ge
      | JMP_EQUAL \<Rightarrow> op_jmp_cmp f64_eq | JMP_N_EQUAL \<Rightarrow> op_jmp_cmp f64_ne
      | JMP_LESS_I \<Rightarrow> op_jmp_imm f64_lt | JMP_GREATER_I \<Rightarrow> op_jmp_imm f64_gt
      | JMP_LESS_OR_EQUAL_I \<Rightarrow> op_jmp_imm f64_le | JMP_GREATER_OR_EQUAL_I \<Rightarrow> op_jmp_imm f64_ge
      | JMP_EQUAL_I \<Rightarrow> op_jmp_imm (=) | JMP_N_EQUAL_I \<Rightarrow> op_jmp_imm (\<noteq>)
      | IMPORT_CLS \<Rightarrow> op_import load runner | THROW_EXCEPTION \<Rightarrow> op_throw
      | SET_CATCH \<Rightarrow> op_set_catch | CLEAR_CATCH \<Rightarrow> op_clear_catch | CREATE_THIS \<Rightarrow> op_create_this
      | COMMENT \<Rightarrow> (\<lambda>s r m. Inl Out_Of_Bounds) | LABEL \<Rightarrow> (\<lambda>s r m. Inl Out_Of_Bounds))"

definition opcode_of :: "uint_t \<Rightarrow> opcode option" where
  "opcode_of w = (if unat w < length opcodes then Some (opcodes ! unat w) else None)"

lemma opcode_of_num [simp]: "opcode_of (word_of_nat (opcode_num c)) = Some c"
proof -
  have "opcode_num c < 2 ^ 64" using opcode_num_less[of c] by (simp add: opcodes_def)
  then have "unat (word_of_nat (opcode_num c) :: uint_t) = opcode_num c"
    by (simp add: unsigned_of_nat take_bit_nat_eq_self)
  then show ?thesis using opcode_num_less[of c] opcodes_num[of c] by (simp add: opcode_of_def)
qed

text \<open>One dispatch, or the unconditional jump to OP_FFRAME on a call.\<close>

definition dispatch :: "loader \<Rightarrow> runner \<Rightarrow> nat \<Rightarrow> outcome \<Rightarrow> machine \<Rightarrow> fault + (outcome \<times> machine)" where
  "dispatch load runner s out m =
     (case out of
        Stop \<Rightarrow> Inr (Stop, m)
      | Enter r \<Rightarrow> op_fframe s r m
      | Goto r \<Rightarrow>
          if is_linked (linked r) (ip r) then
            ebind (operand_at 0 s r m) (\<lambda>w.
            case opcode_of w of None \<Rightarrow> Inl Out_Of_Bounds | Some oc \<Rightarrow> exec_instr load runner oc s r m)
          else Inl Undefined_Value)"

text \<open>The head of \<open>z_interpreter_run\<close>, up to the jump to OP_FFRAME.\<close>

definition start_run :: "nat \<Rightarrow> machine \<Rightarrow> fault + (outcome \<times> machine)" where
  "start_run s m = ebind (get_state s m) (\<lambda>st.
     ebind (read_word (byte_stream st) 0) (\<lambda>code_start.
     Inr (Enter \<lparr>cur = current_context st,
            ip = unat (if instruction_pointer st = 0 then code_start else instruction_pointer st),
            linked = [], object_to_search_on = 0\<rparr>,
          upd_state s (\<lambda>x. x\<lparr>is_running := True, return_code := False\<rparr>) m)))"

text \<open>\<open>n\<close> bounds the instructions of this run and, for every nested run, the instructions of that run.\<close>

fun exec :: "loader \<Rightarrow> nat \<Rightarrow> nat \<Rightarrow> outcome \<Rightarrow> machine \<Rightarrow> fault + machine" where
  "exec load n s Stop m = Inr (upd_state s (\<lambda>x. x\<lparr>is_running := False\<rparr>) m)"
| "exec load 0 s out m = Inl Out_Of_Fuel"
| "exec load (Suc n) s out m =
     ebind (dispatch load (\<lambda>s' m'. ebind (start_run s' m') (\<lambda>(out', m1). exec load n s' out' m1)) s out m)
       (\<lambda>(out', m1). exec load n s out' m1)"

definition z_interpreter_run :: "loader \<Rightarrow> nat \<Rightarrow> nat \<Rightarrow> machine \<Rightarrow> fault + machine" where
  "z_interpreter_run load n s m = ebind (start_run s m) (\<lambda>(out, m1). exec load n s out m1)"

section \<open>Threads and the main program\<close>

text \<open>A thread that an async call left, run to its end in one piece.\<close>

definition run_async :: "loader \<Rightarrow> nat \<Rightarrow> async_args \<Rightarrow> machine \<Rightarrow> fault + machine" where
  "run_async load n args m =
     ebind (get_state (as_state args) m) (\<lambda>initial.
     ebind (function_at (as_function args) m) (\<lambda>(start, _, parent, _).
     ebind (context_new m) (\<lambda>(a, m1).
     ebind (interpreter_state_new a (byte_stream initial) (class_name initial)
            (Some (as_stack_start args, as_stack_ptr args)) m1) (\<lambda>(s, m2).
     ebind (z_interpreter_run load n s
       (put_ctx a (empty_ctx\<lparr>parent_context := parent\<rparr>)
         (upd_state s (\<lambda>x. x\<lparr>synchronized_variables := synchronized_variables initial,
            instruction_pointer := start, current_context := a\<rparr>) (ADD_ROOT_TO_GC_LIST s m2)))) (\<lambda>m3.
     ebind (get_state s m3) (\<lambda>st.
     if return_code st
     then Inl (Exit_Error (case exception_details st of None \<Rightarrow> '''' | Some d \<Rightarrow> d))
     else Inr m3))))))"

text \<open>
  The machine before anything is loaded; the collector is called for the first time when there are \<open>limit\<close>
  objects.
\<close>

definition initial_machine :: "nat \<Rightarrow> machine" where
  "initial_machine limit = \<lparr>heap = (\<lambda>_. None), object_count = 0, gc_at = limit, states = [], syncs = [], stacks = [],
     known_types = (\<lambda>_. None), known_types_list = [], string_properties = initial_string_properties,
     gc_objects_list = [], interpreter_states_list = [], gc_version = 0, freed_states = [], threads = [], printed = [], stdin = ''''\<rparr>"

text \<open>\<open>main\<close> in run mode, from the compiled bytes on and without the threads left to join.\<close>

definition run_main :: "loader \<Rightarrow> nat \<Rightarrow> nat \<Rightarrow> string \<Rightarrow> byte list \<Rightarrow> fault + machine" where
  "run_main load n limit name bytes =
     (ebind (context_new (initial_machine limit)) (\<lambda>(c, m1).
      ebind (interpreter_state_new c bytes name None m1) (\<lambda>(s, m2).
      ebind (z_interpreter_set_arguments_count s 0
              (object_manager_register_object_type name bytes (ADD_ROOT_TO_GC_LIST s m2))) (\<lambda>m3.
      ebind (interpreter_run_static_constructor (z_interpreter_run load n) bytes name m3) (\<lambda>m4.
      ebind (z_interpreter_run load n s m4) (\<lambda>m5.
      ebind (get_state s m5) (\<lambda>st.
      if return_code st
      then Inl (Exit_Error (case exception_details st of None \<Rightarrow> '''' | Some d \<Rightarrow> d))
      else Inr m5)))))))"

end
