(* ===== verification/MachineInv.thy ===== *)
theory MachineInv
  imports Interpreter "HOL-Library.Sublist"
begin

text \<open>
  An invariant of the virtual machine that every run of any program keeps, whatever its bytes are,
  and what a run leaves as it was. Contexts link to older contexts only, so the walks along them end.
  The instructions are shown to keep it for any runner that does (locale \<open>runner_contract\<close>);
  \<open>z_interpreter_run\<close> is the runner they are used with.
\<close>

named_theorems keeps \<open>rules that reduce the preservation of the invariant to the parts of a definition\<close>

section \<open>The invariant\<close>

definition is_context :: "uint_t \<Rightarrow> machine \<Rightarrow> bool" where
  "is_context a m \<longleftrightarrow> (\<exists>h c. heap m a = Some h \<and> ob h = Context c)"

definition context_or_null :: "uint_t \<Rightarrow> machine \<Rightarrow> bool" where
  "context_or_null a m \<longleftrightarrow> a = 0 \<or> is_context a m"

definition older_context :: "uint_t \<Rightarrow> uint_t \<Rightarrow> machine \<Rightarrow> bool" where
  "older_context b a m \<longleftrightarrow> b = 0 \<or> (b < a \<and> is_context b m)"

fun object_ok :: "machine \<Rightarrow> uint_t \<Rightarrow> z_object \<Rightarrow> bool" where
  "object_ok m a (Context c) \<longleftrightarrow> older_context (parent_context c) a m \<and> older_context (return_context c) a m \<and>
     (return_context c \<noteq> 0 \<longrightarrow> return_address c \<noteq> None)"
| "object_ok m a (Function_object start is_async parent owner) \<longleftrightarrow> older_context parent a m \<and> owner < length (states m)"
| "object_ok m a (Instance_object cls owner) \<longleftrightarrow> owner < length (states m)"
| "object_ok m a x \<longleftrightarrow> True"

definition state_ok :: "machine \<Rightarrow> istate \<Rightarrow> bool" where
  "state_ok m st \<longleftrightarrow> context_or_null (current_context st) m \<and> is_context (root_context st) m \<and>
     stack_start st < length (stacks m) \<and> synchronized_variables st < length (syncs m)"

definition thread_ok :: "machine \<Rightarrow> async_args \<Rightarrow> bool" where
  "thread_ok m t \<longleftrightarrow> as_state t < length (states m) \<and> as_stack_start t < length (stacks m)"

definition machine_ok :: "machine \<Rightarrow> bool" where
  "machine_ok m \<longleftrightarrow> object_count m \<le> gc_at m \<and> gc_at m \<le> max_objects \<and>
     (\<forall>a h. heap m a = Some h \<longrightarrow> (\<exists>k < object_count m. a = address k) \<and> object_ok m a (ob h)) \<and>
     (\<forall>st \<in> set (states m). state_ok m st) \<and> (\<forall>t \<in> set (threads m). thread_ok m t)"

section \<open>What lasts\<close>

definition same_links :: "ctx \<Rightarrow> ctx \<Rightarrow> bool" where
  "same_links c d \<longleftrightarrow> parent_context d = parent_context c \<and> return_context d = return_context c \<and>
     return_address d = return_address c \<and>
     requested_return_register_index d = requested_return_register_index c"

text \<open>An object keeps its kind; texts, functions, class references and instances never change.\<close>

fun stays :: "z_object \<Rightarrow> z_object \<Rightarrow> bool" where
  "stays (Context c) y \<longleftrightarrow> (\<exists>d. y = Context d \<and> same_links c d)"
| "stays (Json_object ps cache) y \<longleftrightarrow> (\<exists>qs d. y = Json_object qs d)"
| "stays x y \<longleftrightarrow> y = x"

definition lasting :: "istate \<Rightarrow> istate \<Rightarrow> bool" where
  "lasting st st' \<longleftrightarrow> root_context st' = root_context st \<and> byte_stream st' = byte_stream st \<and>
     class_name st' = class_name st \<and> synchronized_variables st' = synchronized_variables st \<and>
     (removed_as_a_root st \<longrightarrow> removed_as_a_root st')"

definition heap_lasts :: "machine \<Rightarrow> machine \<Rightarrow> bool" where
  "heap_lasts m m' \<longleftrightarrow> object_count m \<le> object_count m' \<and>
     (\<forall>a h. heap m a = Some h \<longrightarrow> (\<exists>h'. heap m' a = Some h' \<and> stays (ob h) (ob h')))"

definition states_last :: "machine \<Rightarrow> machine \<Rightarrow> bool" where
  "states_last m m' \<longleftrightarrow> length (states m) \<le> length (states m') \<and>
     (\<forall>i < length (states m). lasting (states m ! i) (states m' ! i)) \<and>
     length (stacks m) \<le> length (stacks m') \<and> length (syncs m) \<le> length (syncs m')"

definition types_last :: "machine \<Rightarrow> machine \<Rightarrow> bool" where
  "types_last m m' \<longleftrightarrow> prefix (known_types_list m) (known_types_list m') \<and>
     (\<forall>k t. known_types m k = Some t \<longrightarrow>
        (\<exists>t'. known_types m' k = Some t' \<and> bytecode_stream t' = bytecode_stream t))"

definition logs_last :: "machine \<Rightarrow> machine \<Rightarrow> bool" where
  "logs_last m m' \<longleftrightarrow> prefix (printed m) (printed m') \<and> prefix (gc_objects_list m) (gc_objects_list m') \<and>
     prefix (interpreter_states_list m) (interpreter_states_list m') \<and> prefix (threads m) (threads m')"

definition evolves :: "machine \<Rightarrow> machine \<Rightarrow> bool" where
  "evolves m m' \<longleftrightarrow> heap_lasts m m' \<and> states_last m m' \<and> types_last m m' \<and> logs_last m m'"

lemma same_links_refl [simp]: "same_links c c"
  by (simp add: same_links_def)

lemma stays_refl [simp]: "stays x x"
  by (cases x) auto

lemma stays_trans: "stays x y \<Longrightarrow> stays y z \<Longrightarrow> stays x z"
  by (cases x) (auto simp: same_links_def)

lemma lasting_refl [simp]: "lasting st st"
  by (simp add: lasting_def)

lemma lasting_trans: "lasting s t \<Longrightarrow> lasting t u \<Longrightarrow> lasting s u"
  by (simp add: lasting_def)

lemma evolves_refl [simp]: "evolves m m"
  by (auto simp: evolves_def heap_lasts_def states_last_def types_last_def logs_last_def)

lemma heap_lasts_trans: "heap_lasts m n \<Longrightarrow> heap_lasts n q \<Longrightarrow> heap_lasts m q"
  unfolding heap_lasts_def by (meson le_trans stays_trans)

lemma states_last_trans: "states_last m n \<Longrightarrow> states_last n q \<Longrightarrow> states_last m q"
  unfolding states_last_def by (meson le_trans less_le_trans lasting_trans)

lemma types_last_trans: "types_last m n \<Longrightarrow> types_last n q \<Longrightarrow> types_last m q"
  unfolding types_last_def by (metis prefix_order.trans)

lemma evolves_trans: "evolves m n \<Longrightarrow> evolves n q \<Longrightarrow> evolves m q"
  unfolding evolves_def logs_last_def
  by (auto intro: heap_lasts_trans states_last_trans types_last_trans prefix_order.trans)

lemma is_context_evolves: "is_context a m \<Longrightarrow> evolves m n \<Longrightarrow> is_context a n"
  unfolding is_context_def evolves_def heap_lasts_def by fastforce

lemma context_or_null_evolves: "context_or_null a m \<Longrightarrow> evolves m n \<Longrightarrow> context_or_null a n"
  unfolding context_or_null_def using is_context_evolves by blast

lemma older_context_evolves: "older_context b a m \<Longrightarrow> evolves m n \<Longrightarrow> older_context b a n"
  unfolding older_context_def using is_context_evolves by blast

lemma evolves_lengths:
  assumes "evolves m n"
  shows "length (states m) \<le> length (states n)" "length (stacks m) \<le> length (stacks n)"
    "length (syncs m) \<le> length (syncs n)" "object_count m \<le> object_count n"
  using assms by (simp_all add: evolves_def states_last_def heap_lasts_def)

lemma object_ok_evolves:
  assumes "object_ok m a x" "evolves m n"
  shows "object_ok n a x"
  using assms evolves_lengths[OF assms(2)] by (cases x) (auto intro: older_context_evolves)

lemma state_ok_evolves: "state_ok m st \<Longrightarrow> evolves m n \<Longrightarrow> state_ok n st"
  unfolding state_ok_def
  by (meson context_or_null_evolves is_context_evolves evolves_lengths less_le_trans)

lemma thread_ok_evolves: "thread_ok m t \<Longrightarrow> evolves m n \<Longrightarrow> thread_ok n t"
  unfolding thread_ok_def by (meson evolves_lengths less_le_trans)

section \<open>Addresses\<close>

lemma unat_address: "k \<le> max_objects \<Longrightarrow> unat (address k) = 64 * (k + 1)"
  unfolding address_def max_objects_def by (simp only: unsigned_of_nat) (simp add: take_bit_nat_eq_self)

lemma address_less: "k < n \<Longrightarrow> n \<le> max_objects \<Longrightarrow> address k < address n"
  by (simp add: word_less_nat_alt unat_address)

lemma address_pos: "k \<le> max_objects \<Longrightarrow> address k \<noteq> 0"
  by (metis unat_address unat_0 mult_eq_0_iff add_is_0 zero_neq_numeral zero_neq_one)

lemma heap_address:
  assumes "machine_ok m" "heap m a = Some h"
  obtains k where "k < object_count m" "a = address k" "object_ok m a (ob h)"
  using assms unfolding machine_ok_def by blast

lemma heap_below:
  assumes "machine_ok m" "heap m a = Some h" "object_count m \<le> n" "n \<le> max_objects"
  shows "a < address n" "a \<noteq> 0"
proof -
  obtain k where k: "k < object_count m" "a = address k" using assms(1,2) by (elim heap_address)
  then show "a < address n" "a \<noteq> 0" using assms(3,4) by (simp_all add: address_less address_pos)
qed

lemma fresh_address:
  assumes "machine_ok m" "within_limit m"
  shows "heap m (next_addr m) = None"
proof (cases "heap m (next_addr m)")
  case (Some h)
  then show ?thesis using heap_below[OF assms(1) Some order.refl] assms by (simp add: within_limit_def machine_ok_def)
qed simp

lemma older_than_new:
  assumes "context_or_null b m" "machine_ok m" "object_count m \<le> max_objects"
  shows "older_context b (next_addr m) m"
  using assms unfolding context_or_null_def older_context_def is_context_def
  by (meson heap_below(1) order.refl)

section \<open>Preservation\<close>

text \<open>
  \<open>after m n\<close>: \<open>n\<close> is a good machine that \<open>m\<close> can become. \<open>keeps P m r\<close>: if the computation \<open>r\<close> ends
  with a result and a machine, the machine is one \<open>m\<close> can become, and they satisfy \<open>P\<close>.
\<close>

definition after :: "machine \<Rightarrow> machine \<Rightarrow> bool" where
  "after m n \<longleftrightarrow> machine_ok n \<and> evolves m n"

definition keeps :: "(machine \<Rightarrow> 'a \<Rightarrow> bool) \<Rightarrow> machine \<Rightarrow> fault + ('a \<times> machine) \<Rightarrow> bool" where
  "keeps P m r \<longleftrightarrow> (\<forall>x n. r = Inr (x, n) \<longrightarrow> after m n \<and> P n x)"

definition keeps_only :: "machine \<Rightarrow> fault + machine \<Rightarrow> bool" where
  "keeps_only m r \<longleftrightarrow> (\<forall>n. r = Inr n \<longrightarrow> after m n)"

abbreviation anything :: "machine \<Rightarrow> 'a \<Rightarrow> bool" where
  "anything \<equiv> \<lambda>m x. True"

lemma after_refl: "machine_ok m \<Longrightarrow> after m m"
  by (simp add: after_def)

lemma after_trans: "after m n \<Longrightarrow> after n q \<Longrightarrow> after m q"
  unfolding after_def using evolves_trans by blast

lemma after_ok: "after m n \<Longrightarrow> machine_ok n"
  by (simp add: after_def)

lemma context_after: "after m n \<Longrightarrow> is_context a m \<Longrightarrow> is_context a n"
  unfolding after_def by (simp add: is_context_evolves)

lemma context_or_null_after: "after m n \<Longrightarrow> context_or_null a m \<Longrightarrow> context_or_null a n"
  unfolding after_def by (simp add: context_or_null_evolves)

lemma older_after: "after m n \<Longrightarrow> older_context b a m \<Longrightarrow> older_context b a n"
  unfolding after_def by (simp add: older_context_evolves)

lemma states_after: "after m n \<Longrightarrow> i < length (states m) \<Longrightarrow> i < length (states n)"
  unfolding after_def using evolves_lengths(1) less_le_trans by blast

lemma keeps_Inl [simp]: "keeps P m (Inl e)" "keeps_only m (Inl e)"
  by (simp_all add: keeps_def keeps_only_def)

lemma keeps_Inr: "after m n \<Longrightarrow> P n x \<Longrightarrow> keeps P m (Inr (x, n))"
  by (simp add: keeps_def)

lemma keeps_only_Inr: "after m n \<Longrightarrow> keeps_only m (Inr n)"
  by (simp add: keeps_only_def)

lemma keeps_pure: "(\<And>x. e = Inr x \<Longrightarrow> keeps P m (f x)) \<Longrightarrow> keeps P m (ebind e f)"
  by (cases e) auto

lemma keeps_only_pure: "(\<And>x. e = Inr x \<Longrightarrow> keeps_only m (f x)) \<Longrightarrow> keeps_only m (ebind e f)"
  by (cases e) auto

lemma keeps_after: "keeps P n r \<Longrightarrow> after m n \<Longrightarrow> keeps P m r"
  unfolding keeps_def using after_trans by blast

lemma keeps_only_after: "keeps_only n r \<Longrightarrow> after m n \<Longrightarrow> keeps_only m r"
  unfolding keeps_only_def using after_trans by blast

lemma keeps_weaken: "keeps P m r \<Longrightarrow> (\<And>x n. after m n \<Longrightarrow> P n x \<Longrightarrow> Q n x) \<Longrightarrow> keeps Q m r"
  unfolding keeps_def by blast

lemma keeps_bind:
  assumes "keeps P m e" "\<And>x n. after m n \<Longrightarrow> P n x \<Longrightarrow> keeps Q m (f (x, n))"
  shows "keeps Q m (ebind e f)"
  using assms by (cases e) (auto simp: keeps_def)

lemma keeps_only_bind:
  assumes "keeps P m e" "\<And>x n. after m n \<Longrightarrow> P n x \<Longrightarrow> keeps_only m (f (x, n))"
  shows "keeps_only m (ebind e f)"
  using assms by (cases e) (auto simp: keeps_def keeps_only_def)

lemma keeps_bind_only:
  assumes "keeps_only m e" "\<And>n. after m n \<Longrightarrow> keeps Q m (f n)"
  shows "keeps Q m (ebind e f)"
  using assms by (cases e) (auto simp: keeps_def keeps_only_def)

lemma keeps_only_bind_only:
  assumes "keeps_only m e" "\<And>n. after m n \<Longrightarrow> keeps_only m (f n)"
  shows "keeps_only m (ebind e f)"
  using assms by (cases e) (auto simp: keeps_only_def)

section \<open>The primitives\<close>

lemma machine_ok_object: "machine_ok m \<Longrightarrow> heap m a = Some h \<Longrightarrow> object_ok m a (ob h)"
  by (simp add: machine_ok_def)

lemma get_object_ok: "get_object a m = Inr x \<Longrightarrow> machine_ok m \<Longrightarrow> object_ok m a x"
  unfolding get_object_def by (auto split: option.splits intro: machine_ok_object)

lemma get_ctx_ok:
  assumes "get_ctx a m = Inr c"
  shows "is_context a m" "machine_ok m \<Longrightarrow> object_ok m a (Context c)" "get_object a m = Inr (Context c)"
proof -
  have e: "get_object a m = Inr (Context c)"
    using assms unfolding get_ctx_def by (auto elim!: ebind_InrE split: z_object.splits)
  show "get_object a m = Inr (Context c)" by (fact e)
  show "is_context a m" using e unfolding get_object_def is_context_def by (auto split: option.splits)
  show "machine_ok m \<Longrightarrow> object_ok m a (Context c)" using get_object_ok[OF e] by simp
qed

lemma get_state_ok:
  assumes "get_state s m = Inr st"
  shows "s < length (states m)" "st = states m ! s" "machine_ok m \<Longrightarrow> state_ok m st"
  using assms by (auto simp: get_state_def machine_ok_def split: if_splits)

text \<open>A machine is good if what is new or changed in it is.\<close>

lemma afterI:
  assumes ok: "machine_ok m" and ev: "evolves m n" and count: "object_count n \<le> gc_at n" "gc_at n = gc_at m"
    and h: "\<And>a h. heap n a = Some h \<Longrightarrow>
      heap m a = Some h \<or> (\<exists>k < object_count n. a = address k) \<and> object_ok n a (ob h)"
    and st: "\<And>st. st \<in> set (states n) \<Longrightarrow> st \<in> set (states m) \<or> state_ok n st"
    and th: "\<And>t. t \<in> set (threads n) \<Longrightarrow> t \<in> set (threads m) \<or> thread_ok n t"
  shows "after m n"
proof -
  have old: "(\<exists>k < object_count n. a = address k) \<and> object_ok n a (ob h)" if g: "heap m a = Some h" for a h
  proof -
    obtain k where "k < object_count m" "a = address k" "object_ok m a (ob h)" using heap_address[OF ok g] by blast
    then show ?thesis
      using evolves_lengths(4)[OF ev] object_ok_evolves[OF _ ev] by (intro conjI exI[of _ k]) auto
  qed
  have "machine_ok n"
    unfolding machine_ok_def
  proof (intro conjI)
    show "\<forall>a h. heap n a = Some h \<longrightarrow> (\<exists>k < object_count n. a = address k) \<and> object_ok n a (ob h)"
      using h old by blast
    show "\<forall>st \<in> set (states n). state_ok n st"
      using st ok state_ok_evolves[OF _ ev] unfolding machine_ok_def by blast
    show "\<forall>t \<in> set (threads n). thread_ok n t"
      using th ok thread_ok_evolves[OF _ ev] unfolding machine_ok_def by blast
  qed (use count ok in \<open>simp_all add: machine_ok_def\<close>)
  then show ?thesis using ev by (simp add: after_def)
qed

text \<open>Changing an object to one that it may become.\<close>

lemma put_object_after:
  assumes "machine_ok m" "get_object a m = Inr x" "stays x y" "object_ok m a y"
  shows "after m (put_object a y m)"
proof -
  obtain h where h: "heap m a = Some h" "ob h = x" using assms(2) by (auto simp: get_object_def split: option.splits)
  have ev: "evolves m (put_object a y m)"
    unfolding evolves_def
  proof (intro conjI)
    show "heap_lasts m (put_object a y m)"
      using h assms(3) by (auto simp: heap_lasts_def put_object_def)
  qed (auto simp: states_last_def types_last_def logs_last_def put_object_def)
  show ?thesis
  proof (rule afterI[OF assms(1) ev])
    fix b g assume g: "heap (put_object a y m) b = Some g"
    show "heap m b = Some g \<or>
      (\<exists>k < object_count (put_object a y m). b = address k) \<and> object_ok (put_object a y m) b (ob g)"
    proof (cases "b = a")
      case True
      obtain k where "k < object_count m" "a = address k" using assms(1) h(1) by (elim heap_address)
      moreover have "ob g = y" using g h True by (auto simp: put_object_def)
      ultimately show ?thesis using object_ok_evolves[OF assms(4) ev] True by (auto simp: put_object_def)
    qed (use g in \<open>simp add: put_object_def\<close>)
  qed (use assms(1) in \<open>simp_all add: machine_ok_def put_object_def\<close>)
qed

lemma put_ctx_after:
  assumes "machine_ok m" "get_ctx a m = Inr c" "same_links c d"
  shows "after m (put_ctx a d m)"
proof -
  have "object_ok m a (Context c)" using assms(1,2) get_ctx_ok by blast
  then have "object_ok m a (Context d)" using assms(3) by (simp add: same_links_def)
  then show ?thesis
    unfolding put_ctx_def using assms get_ctx_ok(3) by (intro put_object_after) auto
qed

text \<open>A change of neither heap nor states.\<close>

lemma after_same:
  assumes "machine_ok m" "heap n = heap m" "object_count n = object_count m" "gc_at n = gc_at m" "states n = states m"
    and "length (stacks m) \<le> length (stacks n)" "length (syncs m) \<le> length (syncs n)"
    and "types_last m n" "logs_last m n"
    and "\<And>t. t \<in> set (threads n) \<Longrightarrow> t \<in> set (threads m) \<or> thread_ok n t"
  shows "after m n"
proof (rule afterI[OF assms(1)])
  show "evolves m n"
    unfolding evolves_def using assms by (auto simp: heap_lasts_def states_last_def)
qed (use assms in \<open>auto simp: machine_ok_def\<close>)

lemma logs_last_same [simp]: "logs_last m m" "types_last m m"
  by (simp_all add: logs_last_def types_last_def)

lemma after_upd_type:
  assumes "machine_ok m" "\<And>t. bytecode_stream (f t) = bytecode_stream t"
  shows "after m (upd_type k f m)"
  by (rule after_same) (use assms in \<open>auto simp: upd_type_def types_last_def logs_last_def\<close>)

lemma after_syncs: "machine_ok m \<Longrightarrow> after m (m\<lparr>syncs := (syncs m)[k := t]\<rparr>)"
  by (rule after_same) (auto simp: types_last_def logs_last_def)

lemma after_string_properties: "machine_ok m \<Longrightarrow> after m (m\<lparr>string_properties := t\<rparr>)"
  by (rule after_same) (auto simp: types_last_def logs_last_def)

lemma after_printed: "machine_ok m \<Longrightarrow> after m (m\<lparr>printed := printed m @ ts\<rparr>)"
  by (rule after_same) (auto simp: types_last_def logs_last_def)

lemma after_stacks: "machine_ok m \<Longrightarrow> length ss = length (stacks m) \<Longrightarrow> after m (m\<lparr>stacks := ss\<rparr>)"
  by (rule after_same) (auto simp: types_last_def logs_last_def)

lemma after_gc_entry: "machine_ok m \<Longrightarrow> after m (m\<lparr>gc_objects_list := gc_objects_list m @ es\<rparr>)"
  by (rule after_same) (auto simp: types_last_def logs_last_def)

lemma after_gc_object: "machine_ok m \<Longrightarrow> after m (ADD_OBJECT_TO_GC_LIST a m)"
  unfolding ADD_OBJECT_TO_GC_LIST_def by (rule after_gc_entry)

lemma after_gc_root: "machine_ok m \<Longrightarrow> after m (ADD_ROOT_TO_GC_LIST s m)"
  unfolding ADD_ROOT_TO_GC_LIST_def by (rule after_same) (auto simp: types_last_def logs_last_def)

lemma after_create_stack:
  assumes "machine_ok m" "CREATE_STACK m = (a, n)"
  shows "after m n" "a < length (stacks n)"
proof -
  have n: "n = m\<lparr>stacks := stacks m @ [\<lambda>_. None]\<rparr>" "a = length (stacks m)" using assms(2) by (simp_all add: CREATE_STACK_def)
  show "after m n"
    by (rule after_same) (use assms(1) n in \<open>auto simp: types_last_def logs_last_def\<close>)
  show "a < length (stacks n)" using n by simp
qed

lemma after_register_type:
  assumes "machine_ok m" "known_types m k = None"
  shows "after m (object_manager_register_object_type k bytes m)"
  by (rule after_same) (use assms in \<open>auto simp: object_manager_register_object_type_def types_last_def logs_last_def\<close>)

text \<open>Changing a state.\<close>

lemma after_upd_state:
  assumes "machine_ok m"
    and "\<And>st. st = states m ! s \<Longrightarrow> state_ok m st \<Longrightarrow> state_ok m (f st) \<and> lasting st (f st)"
  shows "after m (upd_state s f m)"
proof (cases "s < length (states m)")
  case True
  then have s: "states m ! s \<in> set (states m)" by simp
  then have f: "state_ok m (f (states m ! s))" "lasting (states m ! s) (f (states m ! s))"
    using assms by (auto simp: machine_ok_def)
  have ev: "evolves m (upd_state s f m)"
    using f(2) True unfolding evolves_def upd_state_def
    by (auto simp: heap_lasts_def states_last_def types_last_def logs_last_def nth_list_update)
  show ?thesis
  proof (rule afterI[OF assms(1) ev])
    fix st assume "st \<in> set (states (upd_state s f m))"
    then have "st \<in> set (states m) \<or> st = f (states m ! s)"
      using set_update_subset_insert[of "states m" s] by (auto simp: upd_state_def)
    then show "st \<in> set (states m) \<or> state_ok (upd_state s f m) st"
      using state_ok_evolves[OF f(1) ev] by blast
  qed (use assms(1) in \<open>auto simp: machine_ok_def upd_state_def\<close>)
next
  case False
  then have "upd_state s f m = m" by (simp add: upd_state_def list_update_beyond)
  then show ?thesis using assms(1) by (simp add: after_refl)
qed

text \<open>An update of a field the invariant does not mention.\<close>

definition harmless :: "(istate \<Rightarrow> istate) \<Rightarrow> bool" where
  "harmless f \<longleftrightarrow> (\<forall>st. lasting st (f st) \<and> current_context (f st) = current_context st \<and>
     stack_start (f st) = stack_start st)"

lemma harmless_updates [simp]:
  "harmless (\<lambda>x. x\<lparr>return_code := b\<rparr>)" "harmless (\<lambda>x. x\<lparr>stack_ptr := i\<rparr>)"
  "harmless (\<lambda>x. x\<lparr>instruction_pointer := w\<rparr>)" "harmless (\<lambda>x. x\<lparr>is_running := b\<rparr>)"
  "harmless (\<lambda>x. x\<lparr>removed_as_a_root := True\<rparr>)"
  "harmless (\<lambda>x. x\<lparr>return_code := b, exception_details := d\<rparr>)"
  "harmless (\<lambda>x. x\<lparr>return_code := b, is_running := c\<rparr>)"
  "harmless (\<lambda>x. x\<lparr>return_value := v, return_code := b\<rparr>)"
  "harmless (\<lambda>x. x\<lparr>is_running := c, return_code := b\<rparr>)"
  by (simp_all add: harmless_def lasting_def)

lemma after_harmless: "machine_ok m \<Longrightarrow> harmless f \<Longrightarrow> after m (upd_state s f m)"
  by (rule after_upd_state) (auto simp: harmless_def state_ok_def lasting_def)

lemma after_current_context:
  "machine_ok m \<Longrightarrow> context_or_null a m \<Longrightarrow> after m (upd_state s (\<lambda>x. x\<lparr>current_context := a\<rparr>) m)"
  by (rule after_upd_state) (auto simp: state_ok_def lasting_def)

text \<open>New objects.\<close>

lemma new_object_after:
  assumes "machine_ok m" "new_object x m = Inr (a, n)" "object_ok m (next_addr m) x"
  shows "after m n" "get_object a n = Inr x" "a \<noteq> 0" "heap m a = None"
proof -
  have l: "within_limit m" and a: "a = next_addr m"
    and n: "n = m\<lparr>heap := (heap m)(a \<mapsto> \<lparr>obj_version = 0, ob = x\<rparr>), object_count := object_count m + 1\<rparr>"
    using assms(2) by (auto simp: new_object_def split: if_splits)
  have c: "object_count m < gc_at m" "gc_at m \<le> max_objects" using l assms(1) by (simp_all add: within_limit_def machine_ok_def)
  show fresh: "heap m a = None" unfolding a using assms(1) l by (rule fresh_address)
  have ev: "evolves m n"
    unfolding evolves_def n using fresh
    by (auto simp: heap_lasts_def states_last_def types_last_def logs_last_def)
  show "after m n"
  proof (rule afterI[OF assms(1) ev])
    fix b h assume "heap n b = Some h"
    then show "heap m b = Some h \<or> (\<exists>k < object_count n. b = address k) \<and> object_ok n b (ob h)"
      using object_ok_evolves[OF assms(3) ev] n a by (auto split: if_splits)
  qed (use c n in auto)
  show "get_object a n = Inr x" by (simp add: get_object_def n)
  show "a \<noteq> 0" unfolding a using c by (simp add: address_pos)
qed

lemma context_new_after:
  assumes "machine_ok m" "context_new m = Inr (a, n)"
  shows "after m n" "is_context a n" "a \<noteq> 0" "get_ctx a n = Inr empty_ctx"
proof -
  have ok: "object_ok m (next_addr m) (Context empty_ctx)" by (simp add: empty_ctx_def older_context_def)
  note new = new_object_after[OF assms(1) assms(2)[unfolded context_new_def] ok]
  show "after m n" "a \<noteq> 0" "get_ctx a n = Inr empty_ctx" using new by (auto simp: get_ctx_def)
  then show "is_context a n" using get_ctx_ok(1) by blast
qed

section \<open>Reducing definitions\<close>

lemma keeps_bind_pair:
  "keeps P m e \<Longrightarrow> (\<And>x n. after m n \<Longrightarrow> P n x \<Longrightarrow> keeps Q m (f x n)) \<Longrightarrow> keeps Q m (ebind e (\<lambda>(x, n). f x n))"
  by (erule keeps_bind) simp

lemma keeps_only_bind_pair:
  "keeps P m e \<Longrightarrow> (\<And>x n. after m n \<Longrightarrow> P n x \<Longrightarrow> keeps_only m (f x n)) \<Longrightarrow> keeps_only m (ebind e (\<lambda>(x, n). f x n))"
  by (erule keeps_only_bind) simp

lemma keeps_if [keeps]:
  "(b \<Longrightarrow> keeps P m x) \<Longrightarrow> (\<not> b \<Longrightarrow> keeps P m y) \<Longrightarrow> keeps P m (if b then x else y)"
  "(b \<Longrightarrow> keeps_only m x') \<Longrightarrow> (\<not> b \<Longrightarrow> keeps_only m y') \<Longrightarrow> keeps_only m (if b then x' else y')"
  by simp_all

lemma keeps_option [keeps]:
  "(z = None \<Longrightarrow> keeps P m x) \<Longrightarrow> (\<And>v. z = Some v \<Longrightarrow> keeps P m (f v)) \<Longrightarrow> keeps P m (case z of None \<Rightarrow> x | Some v \<Rightarrow> f v)"
  "(z = None \<Longrightarrow> keeps_only m x') \<Longrightarrow> (\<And>v. z = Some v \<Longrightarrow> keeps_only m (f' v)) \<Longrightarrow> keeps_only m (case z of None \<Rightarrow> x' | Some v \<Rightarrow> f' v)"
  by (simp_all split: option.splits)

lemma keeps_prod [keeps]:
  "(\<And>a b. p = (a, b) \<Longrightarrow> keeps P m (f a b)) \<Longrightarrow> keeps P m (case p of (a, b) \<Rightarrow> f a b)"
  "(\<And>a b. p = (a, b) \<Longrightarrow> keeps_only m (f' a b)) \<Longrightarrow> keeps_only m (case p of (a, b) \<Rightarrow> f' a b)"
  by (simp_all split: prod.splits)

lemma keeps_let [keeps]:
  "(\<And>v. v = e \<Longrightarrow> keeps P m (f v)) \<Longrightarrow> keeps P m (let v = e in f v)"
  "(\<And>v. v = e \<Longrightarrow> keeps_only m (f' v)) \<Longrightarrow> keeps_only m (let v = e in f' v)"
  by simp_all

lemmas [keeps] = keeps_Inl keeps_Inr keeps_only_Inr

text \<open>The changes of the machine, each made to a machine \<open>n\<close> that \<open>m\<close> became.\<close>

lemma after_step: "after m n \<Longrightarrow> (machine_ok n \<Longrightarrow> after n q) \<Longrightarrow> after m q"
  using after_ok after_trans by blast

lemma upd_state_fields [simp]:
  "stacks (upd_state s f m) = stacks m" "syncs (upd_state s f m) = syncs m" "heap (upd_state s f m) = heap m"
  "length (states (upd_state s f m)) = length (states m)" "object_count (upd_state s f m) = object_count m" "gc_at (upd_state s f m) = gc_at m"
  "known_types (upd_state s f m) = known_types m" "threads (upd_state s f m) = threads m"
  by (simp_all add: upd_state_def)

lemma after_changes [keeps]:
  "after m n \<Longrightarrow> harmless f \<Longrightarrow> after m (upd_state s f n)"
  "after m n \<Longrightarrow> context_or_null a n \<Longrightarrow> after m (upd_state s (\<lambda>x. x\<lparr>current_context := a\<rparr>) n)"
  "after m n \<Longrightarrow> length ss = length (stacks n) \<Longrightarrow> after m (n\<lparr>stacks := ss\<rparr>)"
  "after m n \<Longrightarrow> after m (ADD_OBJECT_TO_GC_LIST b n)"
  "after m n \<Longrightarrow> after m (ADD_ROOT_TO_GC_LIST s n)"
  "after m n \<Longrightarrow> after m (n\<lparr>gc_objects_list := gc_objects_list n @ es\<rparr>)"
  "after m n \<Longrightarrow> after m (n\<lparr>syncs := (syncs n)[k := t]\<rparr>)"
  "after m n \<Longrightarrow> after m (n\<lparr>string_properties := t\<rparr>)"
  "after m n \<Longrightarrow> after m (n\<lparr>printed := printed n @ ts\<rparr>)"
  "after m n \<Longrightarrow> (\<And>t. bytecode_stream (g t) = bytecode_stream t) \<Longrightarrow> after m (upd_type cls g n)"
  "after m n \<Longrightarrow> known_types n cls = None \<Longrightarrow> after m (object_manager_register_object_type cls bytes n)"
  "after m n \<Longrightarrow> get_ctx a n = Inr c \<Longrightarrow> same_links c d \<Longrightarrow> after m (put_ctx a d n)"
  "after m n \<Longrightarrow> get_object a n = Inr x \<Longrightarrow> stays x y \<Longrightarrow> object_ok n a y \<Longrightarrow> after m (put_object a y n)"
  by (erule after_step, blast intro: after_harmless after_current_context after_stacks after_gc_object
    after_gc_root after_gc_entry after_syncs after_string_properties after_printed after_upd_type
    after_register_type put_ctx_after put_object_after)+

lemma keeps_push: "after m n \<Longrightarrow> keeps_only m (push_value s v n)"
  unfolding push_value_def by (intro keeps keeps_only_pure) auto

lemma keeps_pop: "after m n \<Longrightarrow> keeps anything m (pop_value s n)"
  unfolding pop_value_def by (intro keeps keeps_pure) auto

lemma keeps_count: "after m n \<Longrightarrow> keeps_only m (z_interpreter_set_arguments_count s w n)"
  unfolding z_interpreter_set_arguments_count_def by (rule keeps_push)

lemma keeps_set_reg: "after m n \<Longrightarrow> keeps_only m (set_reg c i v n)"
  unfolding set_reg_def by (intro keeps keeps_only_pure) (auto simp: same_links_def)

lemma keeps_new_object:
  assumes "after m n" "object_ok n (next_addr n) x"
  shows "keeps (\<lambda>q a. get_object a q = Inr x \<and> a \<noteq> 0) m (new_object x n)"
  unfolding keeps_def
proof (intro allI impI)
  fix a q assume new: "new_object x n = Inr (a, q)"
  note facts = new_object_after[OF after_ok[OF assms(1)] new assms(2)]
  show "after m q \<and> get_object a q = Inr x \<and> a \<noteq> 0" using facts after_trans[OF assms(1)] by blast
qed

lemma keeps_string_new: "after m n \<Longrightarrow> keeps anything m (string_new t n)"
  unfolding string_new_def by (rule keeps_weaken[OF keeps_new_object]) auto

lemma keeps_class_ref_new: "after m n \<Longrightarrow> keeps anything m (class_ref_new t n)"
  unfolding class_ref_new_def by (rule keeps_weaken[OF keeps_new_object]) auto

lemma keeps_json_new: "after m n \<Longrightarrow> keeps (\<lambda>q a. get_object a q = Inr (Json_object json_properties 0)) m (json_new n)"
  unfolding json_new_def by (rule keeps_weaken[OF keeps_new_object]) auto

lemma keeps_context_new: "after m n \<Longrightarrow> keeps (\<lambda>q a. is_context a q \<and> a \<noteq> 0) m (context_new n)"
  unfolding context_new_def
  by (rule keeps_weaken[OF keeps_new_object])
    (auto simp: empty_ctx_def older_context_def get_ctx_def intro: get_ctx_ok(1))

lemmas binds [keeps] =
  keeps_bind_only [OF keeps_push] keeps_only_bind_only [OF keeps_push]
  keeps_bind_pair [OF keeps_pop] keeps_only_bind_pair [OF keeps_pop]
  keeps_bind_only [OF keeps_count] keeps_only_bind_only [OF keeps_count]
  keeps_bind_only [OF keeps_set_reg] keeps_only_bind_only [OF keeps_set_reg]
  keeps_bind_pair [OF keeps_string_new] keeps_only_bind_pair [OF keeps_string_new]
  keeps_bind_pair [OF keeps_class_ref_new] keeps_only_bind_pair [OF keeps_class_ref_new]
  keeps_bind_pair [OF keeps_json_new] keeps_only_bind_pair [OF keeps_json_new]
  keeps_bind_pair [OF keeps_context_new] keeps_only_bind_pair [OF keeps_context_new]
  keeps_push keeps_pop keeps_count keeps_set_reg keeps_string_new keeps_class_ref_new

lemmas pure = keeps_pure keeps_only_pure

lemma keeps_list [keeps]:
  "(z = [] \<Longrightarrow> keeps P m x) \<Longrightarrow> (\<And>v vs. z = v # vs \<Longrightarrow> keeps P m (f v vs)) \<Longrightarrow> keeps P m (case z of [] \<Rightarrow> x | v # vs \<Rightarrow> f v vs)"
  "(z = [] \<Longrightarrow> keeps_only m x') \<Longrightarrow> (\<And>v vs. z = v # vs \<Longrightarrow> keeps_only m (f' v vs)) \<Longrightarrow> keeps_only m (case z of [] \<Rightarrow> x' | v # vs \<Rightarrow> f' v vs)"
  by (simp_all split: list.splits)

lemma keeps_bind_if [keeps]:
  "keeps_only m (if b then e else e') \<Longrightarrow> (\<And>n. after m n \<Longrightarrow> keeps Q m (f n)) \<Longrightarrow> keeps Q m (ebind (if b then e else e') f)"
  "keeps_only m (if b then e else e') \<Longrightarrow> (\<And>n. after m n \<Longrightarrow> keeps_only m (g n)) \<Longrightarrow> keeps_only m (ebind (if b then e else e') g)"
  by (rule keeps_bind_only keeps_only_bind_only, assumption, simp)+

text \<open>States.\<close>

lemma after_new_state:
  assumes "machine_ok m" "is_context (root_context st) m" "current_context st = root_context st"
    and "stack_start st < length (stacks m)" "synchronized_variables st = length (syncs m)"
  shows "after m (m\<lparr>states := states m @ [st], syncs := syncs m @ [t]\<rparr>)"
    (is "after m ?n")
proof -
  have ev: "evolves m ?n"
    unfolding evolves_def
    by (auto simp: heap_lasts_def states_last_def types_last_def logs_last_def nth_append)
  have "is_context (root_context st) ?n" using assms(2) by (simp add: is_context_def)
  then have "state_ok ?n st" using assms by (simp add: state_ok_def context_or_null_def)
  then show ?thesis using ev assms(1) by (intro afterI) (auto simp: machine_ok_def)
qed

lemma keeps_interpreter_state_new:
  assumes "after m n" "cc = 0 \<or> is_context cc n" "\<And>a p. stk = Some (a, p) \<Longrightarrow> a < length (stacks n)"
  shows "keeps (\<lambda>q s. s < length (states q)) m (interpreter_state_new cc bytes name stk n)"
proof -
  define given where "given = (case stk of Some (a, p) \<Rightarrow> (a, p, n)
    | None \<Rightarrow> (case CREATE_STACK n of (a, q) \<Rightarrow> (a, 0, q)))"
  obtain start ptr q where g: "given = (start, ptr, q)" by (cases given)
  have q: "after n q \<and> start < length (stacks q)"
  proof (cases stk)
    case None
    then show ?thesis using g assms(1) after_create_stack[OF after_ok[OF assms(1)]]
      unfolding given_def by (auto split: prod.splits)
  qed (use g assms after_ok after_refl in \<open>auto simp: given_def split: prod.splits\<close>)
  then have cc: "cc = 0 \<or> is_context cc q" using assms(2) context_after by blast
  have new: "keeps (\<lambda>w s. s < length (states w)) q (ebind (if cc = 0 then context_new q else Inr (cc, q)) 
      (\<lambda>(c, w). Inr (length (states w), w\<lparr>states := states w @ [st c w], syncs := syncs w @ [map_new]\<rparr>)))"
    if st: "\<And>c w. root_context (st c w) = c \<and> current_context (st c w) = c \<and> stack_start (st c w) = start \<and>
      synchronized_variables (st c w) = length (syncs w)" for st
  proof (rule keeps_bind_pair)
    have qq: "after q q" using q after_ok after_refl by blast
    show "keeps (\<lambda>w c. is_context c w) q (if cc = 0 then context_new q else Inr (cc, q))"
      using qq cc by (auto intro!: keeps_weaken[OF keeps_context_new] keeps_Inr)
    fix c w assume w: "after q w" "is_context c w"
    have "start < length (stacks w)" using q w(1) evolves_lengths(2) by (fastforce simp: after_def)
    then have "after w (w\<lparr>states := states w @ [st c w], syncs := syncs w @ [map_new]\<rparr>)"
      using w st by (intro after_new_state) (auto simp: after_ok)
    then show "keeps (\<lambda>w s. s < length (states w)) q (Inr (length (states w),
      w\<lparr>states := states w @ [st c w], syncs := syncs w @ [map_new]\<rparr>))"
      using after_trans[OF w(1)] by (intro keeps_Inr) auto
  qed
  have q': "after m q" using q after_trans[OF assms(1)] by blast
  show ?thesis
    unfolding interpreter_state_new_def Let_def given_def[symmetric] g prod.case
    by (rule keeps_after[OF new q']) simp
qed

lemma keeps_clone_state: "after m n \<Longrightarrow> keeps (\<lambda>q s. s < length (states q)) m (clone_state s n)"
  unfolding clone_state_def
proof (intro keeps_pure keeps_interpreter_state_new)
  fix st a p assume n: "after m n" and get: "get_state s n = Inr st"
  have ok: "state_ok n st" using get_state_ok(3)[OF get] after_ok[OF n] by simp
  then show "current_context st = 0 \<or> is_context (current_context st) n"
    by (simp add: state_ok_def context_or_null_def)
  show "Some (stack_start st, stack_ptr st) = Some (a, p) \<Longrightarrow> a < length (stacks n)"
    using ok by (simp add: state_ok_def)
qed

text \<open>Names.\<close>

lemma keeps_context_symbols: "after m n \<Longrightarrow> keeps anything m (context_symbols bytes a n)"
  unfolding context_symbols_def by (intro keeps pure) (auto simp: same_links_def)

lemmas [keeps] = keeps_bind_pair [OF keeps_context_symbols] keeps_only_bind_pair [OF keeps_context_symbols]

lemma keeps_find_scope: "after m n \<Longrightarrow> keeps anything m (find_scope k bytes name a n)"
proof (induction k arbitrary: a n)
  case (Suc k)
  then show ?case by (subst find_scope.simps) (intro keeps keeps_pure, auto)
qed (subst find_scope.simps, auto intro: keeps)

lemma keeps_search_this: "after m n \<Longrightarrow> keeps anything m (search_this bytes name a n)"
  unfolding search_this_def by (rule keeps_find_scope)

lemmas [keeps] = keeps_bind_pair [OF keeps_search_this] keeps_only_bind_pair [OF keeps_search_this]

lemma keeps_get_field_virtual: "after m n \<Longrightarrow> keeps anything m (interpreter_get_field_virtual s our name n)"
  unfolding interpreter_get_field_virtual_def by (intro keeps pure) auto

text \<open>Throwing.\<close>

lemma get_ctx_links:
  assumes "get_ctx a m = Inr c" "machine_ok m"
  shows "context_or_null (return_context c) m" "context_or_null (parent_context c) m"
  using get_ctx_ok(2)[OF assms] by (auto simp: older_context_def context_or_null_def)

lemma keeps_throw_from: "after m n \<Longrightarrow> keeps_only m (throw_from k s message a n)"
proof (induction k arbitrary: a n)
  case (Suc k)
  have "context_or_null (return_context c) n" if "get_ctx a n = Inr c" for c
    using get_ctx_links(1)[OF that after_ok[OF Suc.prems]] .
  then show ?case using Suc.prems
    by (subst throw_from.simps, simp only: diff_Suc_1) (intro keeps pure Suc.IH, auto)
qed (subst throw_from.simps, intro keeps pure, auto)

lemma keeps_throw_str: "after m n \<Longrightarrow> keeps_only m (interpreter_throw_exception_from_str s message n)"
  unfolding interpreter_throw_exception_from_str_def by (intro keeps pure keeps_throw_from)

lemma keeps_throw_reg: "after m n \<Longrightarrow> keeps_only m (interpreter_throw_exception_from_reg s r n)"
  unfolding interpreter_throw_exception_from_reg_def by (intro keeps pure keeps_throw_str)

lemmas throws [keeps] = keeps_throw_str keeps_throw_reg
  keeps_bind_only [OF keeps_throw_str] keeps_only_bind_only [OF keeps_throw_str]
  keeps_bind_only [OF keeps_throw_reg] keeps_only_bind_only [OF keeps_throw_reg]

lemma keeps_set_field_virtual: "after m n \<Longrightarrow> keeps anything m (interpreter_set_field_virtual s our name v n)"
  unfolding interpreter_set_field_virtual_def by (intro keeps pure) (auto intro: after_changes)

end
