(* ===== verification/InterpInv.thy ===== *)
theory InterpInv
  imports MachineInv
begin

text \<open>
  Every instruction keeps the invariant of theory MachineInv, and so does every run of
  \<open>z_interpreter_run\<close>.
\<close>

section \<open>Native functions\<close>

lemma keeps_returns: "keeps_only m x \<Longrightarrow> keeps anything m (returns x)"
  unfolding returns_def by (rule keeps_bind_only) (auto intro: keeps_Inr)

lemma keeps_set_number: "after m n \<Longrightarrow> keeps_only m (set_number c i w n)"
  unfolding set_number_def by (rule keeps_set_reg)

lemmas [keeps] = keeps_set_number

lemma keeps_print: "after m n \<Longrightarrow> keeps_only m (do_print s n)"
  unfolding do_print_def by (intro keeps pure)

lemma keeps_number: "after m n \<Longrightarrow> keeps_only m (do_number s c i n)"
  unfolding do_number_def by (intro keeps pure)

lemma keeps_to_int: "after m n \<Longrightarrow> keeps_only m (do_to_int s c i n)"
  unfolding do_to_int_def by (intro keeps pure)

lemma keeps_assert: "after m n \<Longrightarrow> keeps anything m (do_assert s n)"
  unfolding do_assert_def by (intro keeps pure) simp

lemma keeps_exit: "after m n \<Longrightarrow> keeps_only m (do_exit s n)"
  unfolding do_exit_def by (intro keeps pure)

lemma keeps_strlen: "after m n \<Longrightarrow> keeps_only m (do_strlen obj c i n)"
  unfolding do_strlen_def by (intro keeps pure)

lemma keeps_equals: "after m n \<Longrightarrow> keeps_only m (do_str_equals s obj c i n)"
  unfolding do_str_equals_def by (intro keeps pure)

lemma keeps_startswith: "after m n \<Longrightarrow> keeps_only m (do_str_startswith s obj c i n)"
  unfolding do_str_startswith_def by (intro keeps pure)

lemma keeps_substring: "after m n \<Longrightarrow> keeps_only m (do_str_substring s obj c i n)"
  unfolding do_str_substring_def by (intro keeps pure)

lemma keeps_object_new: "after m n \<Longrightarrow> keeps_only m (do_object_new c i n)"
  unfolding do_object_new_def by (intro keeps pure)

lemma keeps_key_size: "after m n \<Longrightarrow> keeps_only m (do_key_size obj c i n)"
  unfolding do_key_size_def by (intro keeps pure)

lemma keeps_key_strings: "after m n \<Longrightarrow> keeps anything m (key_strings i ks ps n)"
proof (induction ks arbitrary: i ps n)
  case (Cons k ks)
  then show ?case unfolding key_strings.simps by (intro keeps pure Cons.IH)
qed (auto intro: keeps_Inr)

text \<open>A property list stays one.\<close>

lemma json_after:
  assumes "get_object a m = Inr (Json_object ps d)" "after m n"
  obtains qs e where "get_object a n = Inr (Json_object qs e)"
proof -
  obtain h where h: "heap m a = Some h" "ob h = Json_object ps d"
    using assms(1) by (auto simp: get_object_def split: option.splits)
  then show ?thesis using assms(2) that unfolding after_def evolves_def heap_lasts_def get_object_def
    by fastforce
qed

lemma put_json: 
  assumes "after m n" "get_object a n = Inr (Json_object ps d)"
  shows "after m (put_object a (Json_object qs e) n)"
  by (rule after_changes(13)[OF assms]) auto

lemma key_list_made:
  assumes n: "after m n" and obj: "get_object obj n = Inr (Json_object ps cache)"
  shows "keeps anything m (ebind (json_new n) (\<lambda>(ret, m1).
    ebind (key_strings 0 ks json_properties m1) (\<lambda>(rps, m2).
    Inr (ret, put_object obj (Json_object ps ret)
      (put_object ret (Json_object (rps\<lparr>is_immutable := True\<rparr>) 0) m2)))))"
proof (rule keeps_after[OF _ n], rule keeps_bind_pair[OF keeps_json_new])
  show nn: "after n n" using n after_ok after_refl by blast
  fix ret m1 assume m1: "after n m1" and ret: "get_object ret m1 = Inr (Json_object json_properties 0)"
  show "keeps anything n (ebind (key_strings 0 ks json_properties m1) (\<lambda>(rps, m2).
    Inr (ret, put_object obj (Json_object ps ret)
      (put_object ret (Json_object (rps\<lparr>is_immutable := True\<rparr>) 0) m2))))"
  proof (rule keeps_after[OF _ m1], rule keeps_bind_pair[OF keeps_key_strings])
    show "after m1 m1" using m1 after_ok after_refl by blast
    fix rps m2 assume m2: "after m1 m2"
    let ?m3 = "put_object ret (Json_object (rps\<lparr>is_immutable := True\<rparr>) 0) m2"
    obtain qs e where "get_object ret m2 = Inr (Json_object qs e)" using json_after[OF ret m2] .
    then have m3: "after m1 ?m3" by (rule put_json[OF m2])
    obtain us f where "get_object obj ?m3 = Inr (Json_object us f)" using json_after[OF obj after_trans[OF m1 m3]] .
    then show "keeps anything m1 (Inr (ret, put_object obj (Json_object ps ret) ?m3))"
      using put_json[OF m3] by (intro keeps_Inr) auto
  qed
qed

lemma keeps_key_list: "after m n \<Longrightarrow> keeps_only m (do_key_list obj c i n)"
  unfolding do_key_list_def
proof (rule keeps_only_pure)
  fix x assume n: "after m n" and x: "get_object obj n = Inr x"
  show "keeps_only m (case x of Json_object ps cache \<Rightarrow>
         ebind (if cache \<noteq> 0 then Inr (cache, n)
                else ebind (json_new n) (\<lambda>(ret, m1).
                  ebind (key_strings 0 (map_key_list ps) json_properties m1) (\<lambda>(rps, m2).
                  Inr (ret, put_object obj (Json_object ps ret)
                    (put_object ret (Json_object (rps\<lparr>is_immutable := True\<rparr>) 0) m2))))) (\<lambda>(ret, m3).
         set_reg c i \<lparr>rtype = RT_OBJ, val = ret\<rparr> m3)
     | _ \<Rightarrow> Inl Undefined_Value)"
  proof (cases x)
    case (Json_object ps cache)
    have "keeps anything m (if cache \<noteq> 0 then Inr (cache, n)
        else ebind (json_new n) (\<lambda>(ret, m1).
          ebind (key_strings 0 (map_key_list ps) json_properties m1) (\<lambda>(rps, m2).
          Inr (ret, put_object obj (Json_object ps ret)
            (put_object ret (Json_object (rps\<lparr>is_immutable := True\<rparr>) 0) m2)))))"
      using n key_list_made[OF n x[unfolded Json_object]] by (auto intro: keeps_Inr)
    then show ?thesis unfolding Json_object z_object.case
      by (rule keeps_only_bind_pair) (rule keeps_set_reg)
  qed simp_all
qed

lemma keeps_call_native: "after m n \<Longrightarrow> keeps anything m (call_native f s c i obj n)"
  unfolding call_native_def
  by (cases f) (simp_all add: keeps_returns keeps_print keeps_number keeps_to_int keeps_assert keeps_exit
    keeps_strlen keeps_equals keeps_startswith keeps_substring keeps_object_new keeps_key_size
    keeps_key_list keeps_Inr do_readln_overruns returns_def[of "Inl _"] keeps_Inl)

lemmas [keeps] = keeps_bind_pair [OF keeps_call_native]

section \<open>Instructions without nested runs\<close>

definition outcome_ok :: "machine \<Rightarrow> outcome \<Rightarrow> bool" where
  "outcome_ok m out \<longleftrightarrow> (case out of Goto r \<Rightarrow> context_or_null (cur r) m | Enter r \<Rightarrow> context_or_null (cur r) m | Stop \<Rightarrow> True)"

abbreviation runs_in :: "machine \<Rightarrow> activation \<Rightarrow> bool" where
  "runs_in m r \<equiv> context_or_null (cur r) m"

lemma get_ctx_upd_state [simp]: "get_ctx a (upd_state s f m) = get_ctx a m"
  by (simp add: get_ctx_def get_object_def)

lemma outcome_next [simp]: "outcome_ok m (goto_next r) = runs_in m r" "outcome_ok m (goto_addr a r) = runs_in m r"
  "outcome_ok m Stop" "outcome_ok m (Goto r) = runs_in m r" "outcome_ok m (Enter r) = runs_in m r"
  by (simp_all add: outcome_ok_def goto_next_def goto_addr_def)

lemma keeps_next_after: "keeps_only m x \<Longrightarrow> runs_in m r \<Longrightarrow> keeps outcome_ok m (next_after r x)"
  unfolding next_after_def by (rule keeps_bind_only) (auto intro!: keeps_Inr context_or_null_after)

lemma keeps_reg_out: "after m n \<Longrightarrow> keeps_only m (reg_out k v s r n)"
  unfolding reg_out_def by (intro keeps pure)

lemmas [keeps] = keeps_next_after keeps_reg_out keeps_bind_only [OF keeps_reg_out] keeps_only_bind_only [OF keeps_reg_out]

lemma goto_outcome: "after m n \<Longrightarrow> runs_in m r \<Longrightarrow> outcome_ok n (goto_next r)" "after m n \<Longrightarrow> runs_in m r \<Longrightarrow> outcome_ok n (goto_addr a r)"
  by (simp_all add: context_or_null_after)

lemma keeps_goto_catch: "after m n \<Longrightarrow> keeps outcome_ok m (goto_catch_block s r n)"
  unfolding goto_catch_block_def
  by (intro keeps pure) (auto dest!: get_state_ok(3) simp: after_ok state_ok_def)

lemma keeps_throw: "after m n \<Longrightarrow> keeps outcome_ok m (throw_str message s r n)"
  unfolding throw_str_def by (rule keeps_bind_only [OF keeps_throw_str keeps_goto_catch])

lemmas [keeps] = keeps_throw keeps_goto_catch goto_outcome

lemma keeps_op_throw: "after m n \<Longrightarrow> runs_in m r \<Longrightarrow> keeps outcome_ok m (op_throw s r n)"
  unfolding op_throw_def by (intro keeps pure) (auto intro: context_or_null_after)

lemma keeps_set_catch: "after m n \<Longrightarrow> runs_in m r \<Longrightarrow> keeps outcome_ok m (op_set_catch s r n)"
  unfolding op_set_catch_def
  by (intro keeps pure) (auto intro!: after_changes context_or_null_after[of m n] simp: same_links_def split: if_splits)

lemma keeps_clear_catch: "after m n \<Longrightarrow> runs_in m r \<Longrightarrow> keeps outcome_ok m (op_clear_catch s r n)"
  unfolding op_clear_catch_def by (intro keeps pure) (auto simp: same_links_def context_or_null_after)

lemma keeps_mov_number: "after m n \<Longrightarrow> runs_in m r \<Longrightarrow> keeps outcome_ok m (op_mov_number s r n)"
  unfolding op_mov_number_def by (intro keeps pure)

lemma keeps_string_out: "after m n \<Longrightarrow> runs_in m r \<Longrightarrow> keeps outcome_ok m (string_out k t s r n)"
  unfolding string_out_def by (intro keeps pure)

lemmas [keeps] = keeps_string_out

lemma older_new:
  assumes "after m n" "context_or_null b m"
  shows "older_context b (next_addr n) n"
proof -
  have "machine_ok n" using assms(1) by (rule after_ok)
  then show ?thesis using context_or_null_after[OF assms] by (intro older_than_new) (auto simp: machine_ok_def)
qed

lemma keeps_mov_fnc:
  assumes "after m n" "runs_in m r" "s < length (states m)"
  shows "keeps outcome_ok m (op_mov_fnc s r n)"
proof -
  have p: "older_context (cur r) (next_addr n) n" using assms(1,2) by (rule older_new)
  have s: "s < length (states n)" using assms states_after by blast
  show ?thesis
    unfolding op_mov_fnc_def function_ref_new_def
    by (intro keeps pure keeps_bind_pair[OF keeps_new_object]) (use assms p s in simp_all)
qed

lemma keeps_mov_str: "after m n \<Longrightarrow> runs_in m r \<Longrightarrow> keeps outcome_ok m (op_mov_str s r n)"
  unfolding op_mov_str_def by (intro keeps pure)

lemma keeps_mov: "after m n \<Longrightarrow> runs_in m r \<Longrightarrow> keeps outcome_ok m (op_mov s r n)"
  unfolding op_mov_def by (intro keeps pure)

lemma keeps_step_by: "after m n \<Longrightarrow> runs_in m r \<Longrightarrow> keeps outcome_ok m (op_step_by f s r n)"
  unfolding op_step_by_def by (intro keeps pure)

lemma keeps_arith: "after m n \<Longrightarrow> runs_in m r \<Longrightarrow> keeps outcome_ok m (op_arith f s r n)"
  unfolding op_arith_def by (intro keeps pure)

lemmas [keeps] = keeps_arith

lemma keeps_add: "after m n \<Longrightarrow> runs_in m r \<Longrightarrow> keeps outcome_ok m (op_add s r n)"
  unfolding op_add_def by (intro keeps pure)

lemma keeps_div: "after m n \<Longrightarrow> runs_in m r \<Longrightarrow> keeps outcome_ok m (op_div s r n)"
  unfolding op_div_def by (intro keeps pure)

lemma keeps_mod: "after m n \<Longrightarrow> runs_in m r \<Longrightarrow> keeps outcome_ok m (op_mod s r n)"
  unfolding op_mod_def by (intro keeps pure)

lemma keeps_jumps:
  assumes "after m n" "runs_in m r"
  shows "keeps outcome_ok m (op_jmp s r n)" "keeps outcome_ok m (op_jmp_if b s r n)"
    "keeps outcome_ok m (op_jmp_cmp c s r n)" "keeps outcome_ok m (op_jmp_imm c s r n)"
  using assms unfolding op_jmp_def op_jmp_if_def op_jmp_cmp_def op_jmp_imm_def
  by (intro keeps pure; simp add: context_or_null_after)+

lemma keeps_get_this: "after m n \<Longrightarrow> runs_in m r \<Longrightarrow> keeps outcome_ok m (get_this name s r n)"
  unfolding get_this_def by (intro keeps pure)

lemma keeps_found_or_throw: "after m n \<Longrightarrow> runs_in m r \<Longrightarrow> keeps outcome_ok m (found_or_throw message p s r n)"
  unfolding found_or_throw_def by (intro keeps pure)

lemma keeps_set_this: "after m n \<Longrightarrow> runs_in m r \<Longrightarrow> keeps outcome_ok m (set_this name v s r n)"
  unfolding set_this_def by (intro keeps pure)

lemma keeps_set_property: "after m n \<Longrightarrow> keeps_only m (set_property a name v n)"
  unfolding set_property_def
proof (rule keeps_only_pure)
  fix x assume n: "after m n" and x: "get_object a n = Inr x"
  then show "keeps_only m (case x of
         Json_object ps _ \<Rightarrow> Inr (put_object a (Json_object (map_insert ps name v) 0) n)
       | Str_object _ \<Rightarrow> Inr (n\<lparr>string_properties := map_insert (string_properties n) name v\<rparr>)
       | _ \<Rightarrow> Inl Undefined_Value)"
    using put_json[OF n] by (cases x) (auto intro: keeps_only_Inr after_changes)
qed

lemma keeps_op_push: "after m n \<Longrightarrow> runs_in m r \<Longrightarrow> keeps outcome_ok m (op_push s r n)"
  unfolding op_push_def by (intro keeps pure)

lemma keeps_op_pop: "after m n \<Longrightarrow> runs_in m r \<Longrightarrow> keeps outcome_ok m (op_pop s r n)"
  unfolding op_pop_def by (intro keeps pure)

lemma keeps_native_call: "after m n \<Longrightarrow> runs_in m r \<Longrightarrow> keeps outcome_ok m (call_native_function a s r n)"
  unfolding call_native_function_def by (intro keeps pure)

lemma keeps_return:
  assumes "after m n" "runs_in m r"
  shows "keeps outcome_ok m (op_return s r n)"
  unfolding op_return_def
proof (intro keeps_pure keeps_let)
  fix v c m1 assume c: "get_ctx (cur r) n = Inr c" and m1: "m1 = upd_state s (\<lambda>x. x\<lparr>current_context := cur r\<rparr>) n"
  have n: "runs_in n r" using assms by (rule context_or_null_after)
  then have m: "after n m1" "after m m1" unfolding m1 using assms(1) after_ok after_refl by (auto intro!: after_changes)
  have "context_or_null (return_context c) m1"
    using get_ctx_links(1)[OF c after_ok[OF assms(1)]] m(1) by (rule context_or_null_after[rotated])
  then show "keeps outcome_ok m (if return_context c = 0
     then Inr (Stop, upd_state s (\<lambda>x. x\<lparr>return_value := Some v, return_code := False\<rparr>) m1)
     else (case return_address c of
             None \<Rightarrow> Inl Null_Deref
           | Some a \<Rightarrow> next_after (r\<lparr>cur := return_context c, ip := a\<rparr>)
               (set_reg (return_context c) (unat (requested_return_register_index c)) v m1)))"
    using m(2) by (intro keeps keeps_after[OF _ m(2)] after_changes) (auto intro: after_refl after_ok)
qed

lemma keeps_take_args: "after m n \<Longrightarrow> keeps anything m (take_args s k i ls n)"
proof (induction k arbitrary: i ls n)
  case (Suc k)
  then show ?case unfolding take_args.simps by (intro keeps pure Suc.IH)
qed (auto intro: keeps_Inr)

lemmas [keeps] = keeps_bind_pair [OF keeps_take_args]

lemma keeps_fframe: "after m n \<Longrightarrow> runs_in m r \<Longrightarrow> keeps outcome_ok m (op_fframe s r n)"
  unfolding op_fframe_def by (intro keeps pure) (auto simp: same_links_def intro: context_or_null_after)

lemma keeps_create_this:
  assumes "after m n" "runs_in m r"
  shows "keeps outcome_ok m (op_create_this s r n)"
  unfolding op_create_this_def
  by (intro keeps_pure keeps_bind_pair[OF keeps_new_object] keeps_next_after keeps_set_reg)
    (use assms in \<open>auto dest: get_state_ok(1)\<close>)

section \<open>Instructions that run code\<close>

text \<open>Memory handed out after \<open>m\<close> and not yet initialised may become any object.\<close>

lemma after_init:
  assumes n: "after m n" and fresh: "heap m a = None" and raw: "get_object a n = Inr Raw_object"
    and y: "object_ok n a y"
  shows "after m (put_object a y n)"
proof -
  let ?q = "put_object a y n"
  obtain h where h: "heap n a = Some h" "ob h = Raw_object" using raw by (auto simp: get_object_def split: option.splits)
  have ctx: "is_context b ?q" if "is_context b n" for b
    using that h by (auto simp: is_context_def put_object_def)
  have older: "older_context b c ?q" if "older_context b c n" for b c
    using that ctx by (auto simp: older_context_def)
  have sts: "states ?q = states n" "stacks ?q = stacks n" "syncs ?q = syncs n" "threads ?q = threads n"
    "object_count ?q = object_count n" "gc_at ?q = gc_at n" by (simp_all add: put_object_def)
  have obj: "object_ok ?q b x" if "object_ok n b x" for b x
    using that older sts by (cases x) auto
  have "evolves m ?q"
    using n fresh unfolding after_def evolves_def
    by (auto simp: heap_lasts_def states_last_def types_last_def logs_last_def put_object_def)
  moreover have "machine_ok ?q"
  proof -
    have ok: "machine_ok n" using n by (rule after_ok)
    have "(\<exists>k < object_count n. b = address k) \<and> object_ok ?q b (ob g)" if "heap ?q b = Some g" for b g
    proof (cases "b = a")
      case True
      then have "ob g = y" using that h by (auto simp: put_object_def)
      then show ?thesis using True ok h(1) obj[OF y] by (auto simp: machine_ok_def)
    next
      case False
      then have "heap n b = Some g" using that by (simp add: put_object_def)
      then show ?thesis using ok obj by (auto simp: machine_ok_def)
    qed
    moreover have "state_ok ?q st" if "state_ok n st" for st
      using that ctx sts by (auto simp: state_ok_def context_or_null_def)
    ultimately show ?thesis using ok sts by (auto simp: machine_ok_def thread_ok_def)
  qed
  ultimately show ?thesis by (simp add: after_def)
qed

lemma raw_after: "get_object a m = Inr Raw_object \<Longrightarrow> after m n \<Longrightarrow> get_object a n = Inr Raw_object"
  unfolding after_def evolves_def heap_lasts_def get_object_def by (fastforce split: option.splits)

lemma is_context_upd_state [simp]: "is_context a (upd_state s f m) = is_context a m"
  by (simp add: is_context_def)

lemma context_or_null_upd_state [simp]: "context_or_null a (upd_state s f m) = context_or_null a m"
  by (simp add: context_or_null_def)

lemma stacks_after: "after m n \<Longrightarrow> i < length (stacks m) \<Longrightarrow> i < length (stacks n)"
  unfolding after_def using evolves_lengths(2) less_le_trans by blast

lemma keeps_new_context:
  assumes "after m n" "context_or_null (parent_context c) m" "context_or_null (return_context c) m"
    and "return_context c \<noteq> 0 \<longrightarrow> return_address c \<noteq> None"
  shows "keeps (\<lambda>q a. context_or_null a q) m (new_object (Context c) n)"
proof (rule keeps_weaken[OF keeps_new_object[OF assms(1)]])
  show "object_ok n (next_addr n) (Context c)" using assms(4) older_new[OF assms(1)] assms(2,3) by simp
  show "context_or_null a q" if "get_object a q = Inr (Context c) \<and> a \<noteq> 0" for a q
    using that get_ctx_ok(1)[of a q c] by (simp add: context_or_null_def get_ctx_def)
qed

lemma function_at_ok:
  assumes "function_at a m = Inr (start, is_async, parent, owner)" "machine_ok m"
  shows "context_or_null parent m" "owner < length (states m)"
proof -
  have "get_object a m = Inr (Function_object start is_async parent owner)"
    using assms(1) unfolding function_at_def by (auto elim!: ebind_InrE split: z_object.splits)
  then have "object_ok m a (Function_object start is_async parent owner)" using assms(2) by (rule get_object_ok)
  then show "context_or_null parent m" "owner < length (states m)" by (auto simp: older_context_def context_or_null_def)
qed

text \<open>
  The contract between the instructions and the runner they call back, for loading a class, for a
  constructor and for a function of another instance.
\<close>

locale runner_contract =
  fixes run :: runner
  assumes run_after: "machine_ok m \<Longrightarrow> run s m = Inr n \<Longrightarrow> after m n"
begin

lemma keeps_run: "after m n \<Longrightarrow> keeps_only m (run s n)"
  unfolding keeps_only_def using run_after after_ok after_trans by blast

lemmas run_binds = keeps_bind_only [OF keeps_run] keeps_only_bind_only [OF keeps_run]

lemma keeps_static_constructor: "after m n \<Longrightarrow> keeps_only m (interpreter_run_static_constructor run bytes name n)"
  unfolding interpreter_run_static_constructor_def
  by (intro keeps run_binds keeps_only_bind_pair[OF keeps_interpreter_state_new] keeps_only_pure) auto

lemma keeps_load_type: "after m n \<Longrightarrow> keeps anything m (object_manager_get_or_load_type_info load run name im n)"
  unfolding object_manager_get_or_load_type_info_def
  by (intro keeps keeps_bind_only[OF keeps_static_constructor] keeps_pure) (auto intro: after_changes)

lemma keeps_imports: "after m n \<Longrightarrow> keeps anything m (get_imports_table load run s n)"
  unfolding get_imports_table_def by (intro keeps keeps_bind_pair[OF keeps_load_type] keeps_pure)

lemma keeps_imported_type: "after m n \<Longrightarrow> keeps anything m (imported_type load run name s n)"
  unfolding imported_type_def by (intro keeps_bind_pair[OF keeps_imports] keeps_load_type)

lemma keeps_import: "after m n \<Longrightarrow> runs_in m r \<Longrightarrow> keeps outcome_ok m (op_import load run s r n)"
  unfolding op_import_def by (intro keeps keeps_bind_pair[OF keeps_imports] keeps_pure) auto

lemma keeps_get_on:
  assumes "after m n" "runs_in m r"
  shows "keeps outcome_ok m (get_on load run name x s r n)"
  unfolding get_on_def
  by (intro keeps keeps_bind_pair[OF keeps_imported_type] keeps_bind_pair[OF keeps_get_field_virtual]
      keeps_found_or_throw keeps_pure) (use assms in auto)

lemma keeps_field_name_set:
  assumes "after m n" "runs_in m r"
  shows "keeps outcome_ok m (field_name_set load run name s r n)"
  unfolding field_name_set_def
  by (intro keeps keeps_pure keeps_get_this keeps_get_on) (use assms in auto)

lemma keeps_get_field: "after m n \<Longrightarrow> runs_in m r \<Longrightarrow> keeps outcome_ok m (op_get_field load run s r n)"
  unfolding op_get_field_def by (intro keeps_pure keeps_field_name_set)

lemma keeps_get_field_immediate: "after m n \<Longrightarrow> runs_in m r \<Longrightarrow> keeps outcome_ok m (op_get_field_immediate load run s r n)"
  unfolding op_get_field_immediate_def by (intro keeps_pure keeps_field_name_set)

lemma keeps_set_static: "after m n \<Longrightarrow> runs_in m r \<Longrightarrow> keeps outcome_ok m (set_static load run cls name v s r n)"
  unfolding set_static_def
  by (intro keeps_pure keeps_let keeps_bind_pair[where P = anything])
    (auto intro!: keeps_load_type keeps_imported_type keeps after_changes)

lemma keeps_set_field:
  assumes "after m n" "runs_in m r"
  shows "keeps outcome_ok m (op_set_field load run s r n)"
  unfolding op_set_field_def
  by (intro keeps keeps_bind_pair[OF keeps_set_field_virtual] keeps_set_this keeps_set_static
      keeps_set_property keeps_pure) (use assms in auto)

lemma keeps_new_instance:
  assumes n: "after m n" and st: "start < length (stacks n)"
  shows "keeps_only m (object_new load run name im start ptr c i n)"
  unfolding keeps_only_def
proof (intro allI impI)
  fix q assume "object_new load run name im start ptr c i n = Inr q"
  then obtain obj m1 t m2 s m3 m4 m5 where e:
    "new_object Raw_object n = Inr (obj, m1)"
    "object_manager_get_or_load_type_info load run name (Some im) m1 = Inr (t, m2)"
    "interpreter_state_new 0 (bytecode_stream t) name (Some (start, ptr)) m2 = Inr (s, m3)"
    "set_reg c i \<lparr>rtype = RT_INSTANCE, val = obj\<rparr> m3 = Inr m4"
    "z_interpreter_set_arguments_count s 0
       (ADD_OBJECT_TO_GC_LIST obj (put_object obj (Instance_object (Some name) s) m4)) = Inr m5"
    "run s m5 = Inr q"
    unfolding object_new_def by (auto elim!: ebind_InrE)
  have raw: "after n m1" "get_object obj m1 = Inr Raw_object" "heap n obj = None"
    using new_object_after[OF after_ok[OF n] e(1)] by simp_all
  have m2: "after m1 m2"
    using keeps_load_type[OF after_refl[OF after_ok[OF raw(1)]]] e(2) unfolding keeps_def by blast
  have "start < length (stacks m2)"
    using st raw(1) m2 evolves_lengths(2) unfolding after_def by (meson less_le_trans)
  then have m3: "after m2 m3" "s < length (states m3)"
    using keeps_interpreter_state_new[OF after_refl[OF after_ok[OF m2]], of 0 "Some (start, ptr)"] e(3)
    unfolding keeps_def by auto
  have m4: "after m3 m4"
    using keeps_set_reg[OF after_refl[OF after_ok[OF m3(1)]]] e(4) unfolding keeps_only_def by blast
  have a4: "after m1 m4" using m2 m3(1) m4 after_trans by blast
  have "get_object obj m4 = Inr Raw_object" using raw(2) a4 by (rule raw_after)
  moreover have "object_ok m4 obj (Instance_object (Some name) s)" using states_after[OF m4 m3(2)] by simp
  ultimately have "after n (put_object obj (Instance_object (Some name) s) m4)"
    using after_init[OF after_trans[OF raw(1) a4] raw(3)] by blast
  then have "after n m5" using keeps_count[OF after_changes(4)] e(5) unfolding keeps_only_def by blast
  then show "after m q" using run_after[OF after_ok e(6)] after_trans n by blast
qed

lemma keeps_call_own:
  assumes "after m n" "runs_in m r" "context_or_null parent m"
  shows "keeps outcome_ok m (call_own start parent s r n)"
  unfolding call_own_def
  by (intro keeps_bind_pair[OF keeps_new_context] keeps_pure keeps_Inr after_changes)
    (use assms in \<open>auto simp: empty_ctx_def context_or_null_def\<close>)

lemma keeps_call_async:
  assumes "after m n" "runs_in m r" "s < length (states m)"
  shows "keeps outcome_ok m (call_async f s r n)"
  unfolding call_async_def
proof (intro keeps_bind_pair[OF keeps_context_new] keeps_pure keeps_Inr)
  fix st a q assume q: "after m q"
  have s: "s < length (states q)" using q assms(3) by (rule states_after)
  show "after m (q\<lparr>stacks := stacks q @ [stacks q ! stack_start st],
      threads := threads q @ [\<lparr>as_state = s, as_stack_start = length (stacks q),
        as_stack_ptr = stack_ptr st, as_function = f\<rparr>]\<rparr>)"
    using q by (rule after_step, intro after_same)
      (use s in \<open>auto simp: types_last_def logs_last_def thread_ok_def\<close>)
  then show "outcome_ok (q\<lparr>stacks := stacks q @ [stacks q ! stack_start st],
      threads := threads q @ [\<lparr>as_state = s, as_stack_start = length (stacks q),
        as_stack_ptr = stack_ptr st, as_function = f\<rparr>]\<rparr>) (goto_next r)"
    using assms(2) by (simp add: context_or_null_after)
qed (use assms in auto)

text \<open>The state a function of another instance runs in gets the caller's stack and a new context.\<close>

lemma after_enter_other:
  assumes "after m n" "context_or_null a n" "start < length (stacks n)"
  shows "after m (upd_state who (\<lambda>x. x\<lparr>instruction_pointer := w, stack_ptr := p, stack_start := start, current_context := a\<rparr>) n)"
  using assms(1) by (rule after_step, intro after_upd_state)
    (use assms(2,3) in \<open>auto simp: state_ok_def lasting_def\<close>)

lemma keeps_callee_state: "after m n \<Longrightarrow> keeps anything m (callee_state owner n)"
  unfolding callee_state_def by (intro keeps keeps_bind_pair[OF keeps_clone_state] keeps_pure) simp_all

lemma keeps_call_other:
  assumes n: "after m n" and r: "runs_in m r" and p: "context_or_null parent m"
  shows "keeps outcome_ok m (call_other run start parent owner s r n)"
proof -
  have st: "stack_start x < length (stacks q)" if "get_state s n = Inr x" "after n q" for x q
    using get_state_ok(3)[OF that(1) after_ok[OF n]] that(2) stacks_after by (auto simp: state_ok_def)
  have nn: "after n n" using n after_ok after_refl by blast
  have rn: "runs_in n r" "context_or_null parent n" using n r p context_or_null_after by blast+
  show ?thesis
    unfolding call_other_def
    by (rule keeps_after[OF _ n], intro keeps_bind_pair[OF keeps_callee_state] keeps_bind_pair[OF keeps_new_context]
        keeps_bind_only[OF keeps_run[OF after_enter_other]] keeps keeps_pure)
      (use rn nn st in \<open>auto simp: empty_ctx_def context_or_null_def intro: after_changes\<close>)
qed

lemma keeps_call:
  assumes "machine_ok m" "runs_in m r" "s < length (states m)"
  shows "keeps outcome_ok m (op_call load run s r m)"
proof -
  have m: "after m m" using assms(1) by (rule after_refl)
  have st: "stack_start x < length (stacks m)" if "get_state s m = Inr x" for x
    using get_state_ok(3)[OF that assms(1)] by (simp add: state_ok_def)
  show ?thesis
    unfolding op_call_def
    by (intro keeps keeps_native_call keeps_call_other keeps_call_async keeps_call_own keeps_new_instance
        keeps_bind_pair[OF keeps_load_type] keeps_pure)
      (use assms m st in \<open>auto dest: function_at_ok intro: stacks_after\<close>)
qed

lemma keeps_cmp: "after m n \<Longrightarrow> runs_in m r \<Longrightarrow> keeps outcome_ok m (op_cmp c s r n)"
  unfolding op_cmp_def by (rule keeps_arith)

lemma keeps_instr:
  assumes ok: "machine_ok m" and r: "runs_in m r" and s: "s < length (states m)"
  shows "keeps outcome_ok m (exec_instr load run oc s r m)"
proof -
  have m: "after m m" using ok by (rule after_refl)
  have nop: "keeps outcome_ok m (Inr (goto_next r, m))" using m r by (simp add: keeps_Inr)
  note ops = keeps_mov_number[OF m r] keeps_mov_str[OF m r] keeps_mov[OF m r] keeps_add[OF m r]
    keeps_arith[OF m r] keeps_div[OF m r] keeps_mod[OF m r] keeps_cmp[OF m r] keeps_jumps[OF m r]
    keeps_get_field[OF m r] keeps_get_field_immediate[OF m r] keeps_set_field[OF m r]
    keeps_call[OF ok r s] keeps_op_push[OF m r] keeps_op_pop[OF m r] keeps_return[OF m r]
    keeps_fframe[OF m r] keeps_step_by[OF m r] keeps_mov_fnc[OF m r s] keeps_import[OF m r]
    keeps_op_throw[OF m r] keeps_set_catch[OF m r] keeps_clear_catch[OF m r] keeps_create_this[OF m r] nop
  show ?thesis
    by (cases oc) (simp_all add: exec_instr_def op_sub_def op_mul_def op_inc_def op_dec_def ops)
qed

lemma keeps_dispatch:
  assumes "machine_ok m" "outcome_ok m out" "s < length (states m)"
  shows "keeps outcome_ok m (dispatch load run s out m)"
proof (cases out)
  case (Goto r)
  then have "runs_in m r" using assms(2) by simp
  then show ?thesis unfolding dispatch_def Goto outcome.case
    using assms by (intro keeps keeps_pure keeps_instr)
next
  case (Enter r)
  then show ?thesis using assms by (simp add: dispatch_def keeps_fframe after_refl)
next
  case Stop
  then show ?thesis using assms(1) by (simp add: dispatch_def keeps_Inr after_refl)
qed

end

section \<open>Runs\<close>

lemma keeps_start_run: "machine_ok m \<Longrightarrow> keeps outcome_ok m (start_run s m)"
  unfolding start_run_def
  by (intro keeps_pure keeps_Inr after_changes after_refl) (auto dest!: get_state_ok(3) simp: state_ok_def)

lemma run_states: "start_run s m = Inr (out, n) \<Longrightarrow> s < length (states n)"
  unfolding start_run_def by (auto elim!: ebind_InrE dest: get_state_ok(1))

lemma exec_after:
  "machine_ok m \<Longrightarrow> outcome_ok m out \<Longrightarrow> s < length (states m) \<Longrightarrow> exec load k s out m = Inr n \<Longrightarrow> after m n"
proof (induction k arbitrary: s out m n)
  case 0
  then show ?case by (cases out) (auto intro: after_changes after_refl)
next
  case (Suc k)
  let ?run = "\<lambda>s' m'. ebind (start_run s' m') (\<lambda>(out', m1). exec load k s' out' m1)"
  have start: "after q w" if q: "machine_ok q" "?run t q = Inr w" for t q w
  proof -
    obtain out' m1 where e: "start_run t q = Inr (out', m1)" "exec load k t out' m1 = Inr w"
      using q(2) by (auto elim!: ebind_InrE)
    have "after q m1" "outcome_ok m1 out'" using keeps_start_run[OF q(1)] e(1) unfolding keeps_def by blast+
    then show ?thesis using Suc.IH[OF after_ok _ run_states[OF e(1)] e(2)] after_trans by blast
  qed
  show ?case
  proof (cases "out = Stop")
    case True
    then show ?thesis using Suc.prems by (auto intro: after_changes after_refl)
  next
    case False
    then have "ebind (dispatch load ?run s out m) (\<lambda>(out', m1). exec load k s out' m1) = Inr n"
      using Suc.prems(4) by (cases out) simp_all
    then obtain out' m1 where d: "dispatch load ?run s out m = Inr (out', m1)" "exec load k s out' m1 = Inr n"
      by (elim ebind_InrE) auto
    have "keeps outcome_ok m (dispatch load ?run s out m)"
      using start Suc.prems(1-3) by (intro runner_contract.keeps_dispatch runner_contract.intro)
    then have m1: "after m m1" "outcome_ok m1 out'" using d(1) unfolding keeps_def by blast+
    then show ?thesis
      using Suc.IH[OF after_ok _ states_after d(2)] Suc.prems(3) after_trans by blast
  qed
qed

lemma z_interpreter_run_after:
  assumes "machine_ok m" "z_interpreter_run load k s m = Inr n"
  shows "after m n"
proof -
  obtain out m1 where e: "start_run s m = Inr (out, m1)" "exec load k s out m1 = Inr n"
    using assms(2) unfolding z_interpreter_run_def by (auto elim!: ebind_InrE)
  then have "after m m1" "outcome_ok m1 out" using keeps_start_run[OF assms(1)] unfolding keeps_def by blast+
  then show ?thesis using exec_after[OF after_ok _ run_states[OF e(1)] e(2)] after_trans by blast
qed

interpretation zrun: runner_contract "z_interpreter_run load k" for load k
  by unfold_locales (rule z_interpreter_run_after)

end
