(* ===== verification/Samples.thy ===== *)
theory Samples
  imports InterpInv
begin

text \<open>A small class file and a machine about to run it, on which properties of runs are applied.\<close>

definition instr_bytes :: "opcode \<Rightarrow> uint_t \<Rightarrow> uint_t \<Rightarrow> uint_t \<Rightarrow> byte list" where
  "instr_bytes oc a b c = word_bytes (word_of_nat (opcode_num oc)) @ word_bytes a @ word_bytes b @ word_bytes c"

text \<open>A class whose constructor returns its local 2, and a machine about to run it.\<close>

definition sample_bytes :: "byte list" where
  "sample_bytes = word_bytes 16 @ word_bytes 16 @ instr_bytes FFRAME 2 80 80 @ instr_bytes RETURN 2 0 0 @ word_bytes 0"

definition sample_state :: istate where
  "sample_state = \<lparr>current_context = 64, root_context = 64, byte_stream = sample_bytes, class_name = ''A'',
     exception_details = None, synchronized_variables = 0, return_code = False, instruction_pointer = 0,
     return_value = None, stack_ptr = 1, stack_start = 0, is_running = False, removed_as_a_root = False\<rparr>"

definition sample_machine :: machine where
  "sample_machine = \<lparr>heap = [64 \<mapsto> \<lparr>obj_version = 0, ob = Context empty_ctx\<rparr>], object_count = 1, gc_at = 100,
     states = [sample_state], syncs = [map_new], stacks = [[1 \<mapsto> num_reg 0]], known_types = Map.empty,
     known_types_list = [], string_properties = map_new, gc_objects_list = [], interpreter_states_list = [],
     gc_version = 0, freed_states = [], threads = [], printed = [], stdin = ''''\<rparr>"

lemma sample_machine_ok: "machine_ok sample_machine"
  by (auto simp: machine_ok_def sample_machine_def sample_state_def state_ok_def is_context_def
    context_or_null_def older_context_def empty_ctx_def max_objects_def address_def split: if_splits)

lemma sample_run: "\<not> isl (z_interpreter_run no_classes 3 0 sample_machine)"
  by code_simp

section \<open>Runs keep the invariant\<close>



text \<open>The machine a program starts with satisfies it, so every program ends in one that does.\<close>

lemma context_new_types:
  "context_new m = Inr (c, n) \<Longrightarrow> known_types n = known_types m \<and> known_types_list n = known_types_list m"
  by (auto simp: context_new_def new_object_def split: if_splits)

lemma state_new_types:
  assumes "interpreter_state_new c bytes name None m = Inr (s, n)"
  shows "known_types n = known_types m \<and> known_types_list n = known_types_list m"
proof -
  obtain d q where d: "(if c = 0 then context_new (m\<lparr>stacks := stacks m @ [\<lambda>_. None]\<rparr>)
      else Inr (c, m\<lparr>stacks := stacks m @ [\<lambda>_. None]\<rparr>)) = Inr (d, q)"
    "known_types n = known_types q \<and> known_types_list n = known_types_list q"
    using assms unfolding interpreter_state_new_def CREATE_STACK_def Let_def option.case prod.case
    by (elim ebind_InrE) auto
  then show ?thesis using context_new_types by (auto split: if_splits)
qed

lemma initial_machine_ok: "limit \<le> max_objects \<Longrightarrow> machine_ok (initial_machine limit)"
  by (simp add: machine_ok_def initial_machine_def)

text \<open>
  What a whole program leaves when it ends without an error: the invariant holds, and the first class
  known is the one it was started with.
\<close>

lemma program_keeps_invariant:
  assumes "run_main load k limit name bytes = Inr n" "limit \<le> max_objects"
  shows "machine_ok n \<and> prefix [name] (known_types_list n)"
proof -
  obtain c m1 s m2 m3 m4 m5 st where e:
    "context_new (initial_machine limit) = Inr (c, m1)" "interpreter_state_new c bytes name None m1 = Inr (s, m2)"
    "z_interpreter_set_arguments_count s 0
       (object_manager_register_object_type name bytes (ADD_ROOT_TO_GC_LIST s m2)) = Inr m3"
    "interpreter_run_static_constructor (z_interpreter_run load k) bytes name m3 = Inr m4"
    "z_interpreter_run load k s m4 = Inr m5" "get_state s m5 = Inr st" "m5 = n"
    using assms(1) unfolding run_main_def by (auto elim!: ebind_InrE split: if_splits)
  have start: "after (initial_machine limit) (initial_machine limit)" using initial_machine_ok[OF assms(2)] by (rule after_refl)
  have c: "after (initial_machine limit) m1" "is_context c m1"
    using keeps_context_new[OF start] e(1) unfolding keeps_def by blast+
  have m2: "after m1 m2"
    using keeps_interpreter_state_new[OF after_refl[OF after_ok[OF c(1)]], of c None bytes name] c(2) e(2)
    unfolding keeps_def by blast
  let ?m = "object_manager_register_object_type name bytes (ADD_ROOT_TO_GC_LIST s m2)"
  have none: "known_types (ADD_ROOT_TO_GC_LIST s m2) name = None" "known_types_list (ADD_ROOT_TO_GC_LIST s m2) = []"
    using context_new_types[OF e(1)] state_new_types[OF e(2)]
    by (simp_all add: initial_machine_def ADD_ROOT_TO_GC_LIST_def)
  have "after m2 ?m" using none(1) after_ok[OF m2] by (intro after_changes after_refl)
  then have ok: "machine_ok ?m" by (rule after_ok)
  then have "after ?m m3" using keeps_count[OF after_refl] e(3) unfolding keeps_only_def by blast
  moreover have "after m3 m4"
    using zrun.keeps_static_constructor[OF after_refl[OF after_ok]] calculation e(4) unfolding keeps_only_def by blast
  moreover have "after m4 n" using zrun.run_after[OF after_ok e(5)] calculation(2) e(7) by blast
  ultimately have n: "after ?m n" using after_trans by blast
  have "known_types_list ?m = [name]" using none(2) by (simp add: object_manager_register_object_type_def)
  then show ?thesis using n by (auto simp: after_def evolves_def types_last_def)
qed

end
