(* ===== verification/Scopes.thy ===== *)
theory Scopes
  imports Samples
begin

text \<open>
  Looking a name up through the scopes (\<open>interpreter_get_field_virtual\<close>, SEARCH_THIS): the walk ends,
  and it finds the local of the innermost enclosing context that declares the name.
\<close>

section \<open>The reference\<close>

text \<open>The symbol table of a context: the one it has, or the one the class file holds for it.\<close>

definition symbols_of :: "byte list \<Rightarrow> machine \<Rightarrow> uint_t \<Rightarrow> fault + uint_t zmap" where
  "symbols_of bytes m a = ebind (get_ctx a m) (\<lambda>c.
     case symbol_table c of Some t \<Rightarrow> Inr t | None \<Rightarrow> build_symbol_table bytes (unat (symbols_address c)))"

text \<open>The contexts reached from \<open>a\<close> along a link, from the inside out.\<close>

fun enclosing :: "(ctx \<Rightarrow> uint_t) \<Rightarrow> nat \<Rightarrow> machine \<Rightarrow> uint_t \<Rightarrow> uint_t list" where
  "enclosing link 0 m a = []"
| "enclosing link (Suc n) m a =
     (if a = 0 then []
      else case get_ctx a m of Inl e \<Rightarrow> [] | Inr c \<Rightarrow> a # enclosing link n m (link c))"

abbreviation chain_of :: "(ctx \<Rightarrow> uint_t) \<Rightarrow> machine \<Rightarrow> uint_t \<Rightarrow> uint_t list" where
  "chain_of link m a \<equiv> enclosing link (object_count m) m a"

abbreviation scope_chain :: "machine \<Rightarrow> uint_t \<Rightarrow> uint_t list" where
  "scope_chain m a \<equiv> chain_of parent_context m a"

fun first_scope :: "(uint_t \<Rightarrow> uint_t zmap) \<Rightarrow> string \<Rightarrow> uint_t list \<Rightarrow> (uint_t \<times> nat \<times> uint_t) option" where
  "first_scope tab name [] = None"
| "first_scope tab name (a # as) =
     (case map_get_flags (tab a) name of
        Some (i, f) \<Rightarrow> Some (a, unat i, f)
      | None \<Rightarrow> first_scope tab name as)"

section \<open>Chains of contexts\<close>

text \<open>Both links of a context, to its parent and to its caller, lead to older contexts.\<close>

definition goes_back :: "machine \<Rightarrow> (ctx \<Rightarrow> uint_t) \<Rightarrow> bool" where
  "goes_back m link \<longleftrightarrow> (\<forall>a c. get_ctx a m = Inr c \<longrightarrow> older_context (link c) a m)"

lemma goes_back [simp]: "machine_ok m \<Longrightarrow> goes_back m parent_context" "machine_ok m \<Longrightarrow> goes_back m return_context"
  using get_ctx_ok(2) by (auto simp: goes_back_def)

lemma context_place:
  assumes "machine_ok m" "is_context a m" "a < address k" "k \<le> max_objects"
  obtains i where "a = address i" "i < object_count m" "i < k"
proof -
  obtain i where i: "a = address i" "i < object_count m" using assms(1,2) by (auto simp: is_context_def machine_ok_def)
  then have "i < k" using assms by (auto simp: machine_ok_def word_less_nat_alt unat_address)
  then show ?thesis using i that by blast
qed

lemma none_before_first: "machine_ok m \<Longrightarrow> older_context a (address 0) m \<Longrightarrow> a = 0"
  unfolding older_context_def by (auto elim: context_place)

text \<open>One step back leaves one candidate less.\<close>

lemma link_older:
  assumes "machine_ok m" "goes_back m link" "get_ctx a m = Inr c" "older_context a (address (Suc k)) m"
    and "a \<noteq> 0" "Suc k \<le> max_objects"
  shows "older_context (link c) (address k) m"
proof -
  have "is_context a m" "a < address (Suc k)" using assms(4,5) by (auto simp: older_context_def)
  then obtain i where i: "a = address i" "i < Suc k" using assms(1,6) by (auto elim: context_place)
  then have "address i \<le> address k" using assms(6) by (simp add: word_le_nat_alt unat_address)
  moreover have "older_context (link c) (address i) m" using assms(2,3) i(1) by (simp add: goes_back_def)
  ultimately show ?thesis by (auto simp: older_context_def)
qed

lemma enclosing_enough:
  assumes "machine_ok m" "goes_back m link"
  shows "older_context a (address k) m \<Longrightarrow> k \<le> j \<Longrightarrow> j \<le> max_objects \<Longrightarrow> enclosing link j m a = enclosing link k m a"
proof (induction k arbitrary: a j)
  case 0
  have "a = 0" using assms(1) 0(1) by (rule none_before_first)
  then show ?case by (cases j) simp_all
next
  case (Suc k)
  obtain j' where j': "j = Suc j'" using Suc.prems(2) by (cases j) auto
  show ?case
  proof (cases "a \<noteq> 0 \<and> (\<exists>c. get_ctx a m = Inr c)")
    case True
    then obtain c where c: "get_ctx a m = Inr c" by blast
    have "older_context (link c) (address k) m"
      using link_older[OF assms c Suc.prems(1)] True Suc.prems by simp
    then show ?thesis using Suc.IH[of "link c" j'] Suc.prems c j' by simp
  next
    case False
    then show ?thesis using j' by (cases "get_ctx a m") auto
  qed
qed

lemma chain_unfold:
  assumes "machine_ok m" "goes_back m link" "get_ctx a m = Inr c"
  shows "chain_of link m a = a # chain_of link m (link c)"
proof -
  have ctx: "is_context a m" using assms(3) by (rule get_ctx_ok(1))
  then have a: "a \<noteq> 0" "older_context a (next_addr m) m"
    using heap_below[OF assms(1) _ order.refl] assms(1) by (auto simp: is_context_def machine_ok_def older_context_def)
  obtain k where k: "object_count m = Suc k"
    using ctx assms(1) by (cases "object_count m") (auto simp: is_context_def machine_ok_def)
  have "older_context (link c) (address k) m"
    using assms a k by (intro link_older[of m link a c]) (auto simp: machine_ok_def)
  then have "enclosing link (Suc k) m (link c) = enclosing link k m (link c)"
    using assms k by (intro enclosing_enough) (auto simp: machine_ok_def)
  then show ?thesis using a(1) assms(3) by (simp add: k)
qed

lemma chain_null [simp]: "chain_of link m 0 = []"
  by (cases "object_count m") simp_all

section \<open>The walk\<close>

text \<open>Machines that differ in tables already built only.\<close>

definition same_scopes :: "byte list \<Rightarrow> machine \<Rightarrow> machine \<Rightarrow> bool" where
  "same_scopes bytes m n \<longleftrightarrow> (\<forall>a. symbols_of bytes n a = symbols_of bytes m a) \<and>
     (\<forall>a c. get_ctx a m = Inr c \<longrightarrow> (\<exists>d. get_ctx a n = Inr d \<and> parent_context d = parent_context c))"

lemma same_scopes_refl [simp]: "same_scopes bytes m m"
  by (simp add: same_scopes_def)

lemma get_ctx_put_ctx:
  assumes "get_ctx a m = Inr c"
  shows "get_ctx b (put_ctx a d m) = (if b = a then Inr d else get_ctx b m)"
  using assms by (auto simp: get_ctx_def get_object_def put_ctx_def put_object_def split: option.splits)

lemma symbols_of_InrE:
  assumes "symbols_of bytes m a = Inr t"
  obtains c where "get_ctx a m = Inr c"
    "(case symbol_table c of Some t \<Rightarrow> Inr t | None \<Rightarrow> build_symbol_table bytes (unat (symbols_address c))) = Inr t"
  using assms unfolding symbols_of_def by (elim ebind_InrE)

lemma context_symbols_found:
  assumes "symbols_of bytes m a = Inr t"
  obtains n where "context_symbols bytes a m = Inr (t, n)" "same_scopes bytes m n"
proof -
  obtain c where c: "get_ctx a m = Inr c"
    "(case symbol_table c of Some t \<Rightarrow> Inr t | None \<Rightarrow> build_symbol_table bytes (unat (symbols_address c))) = Inr t"
    using assms by (rule symbols_of_InrE)
  show ?thesis
  proof (cases "symbol_table c")
    case None
    let ?n = "put_ctx a (c\<lparr>symbol_table := Some t\<rparr>) m"
    have "context_symbols bytes a m = Inr (t, ?n)" using c None by (simp add: context_symbols_def)
    moreover have "same_scopes bytes m ?n"
      using assms c(1) by (auto simp: same_scopes_def symbols_of_def get_ctx_put_ctx)
    ultimately show ?thesis by (rule that)
  next
    case (Some t')
    then have "context_symbols bytes a m = Inr (t, m)" using c by (simp add: context_symbols_def)
    then show ?thesis using same_scopes_refl by (rule that)
  qed
qed

lemma find_scope_first:
  assumes "machine_ok m" "older_context a (address k) m" "k \<le> max_objects" "same_scopes bytes m n"
    and "\<forall>b \<in> set (enclosing parent_context k m a). symbols_of bytes m b = Inr (tab b)"
  shows "\<exists>q. find_scope k bytes name a n = Inr (first_scope tab name (enclosing parent_context k m a), q) \<and> same_scopes bytes m q"
  using assms(2-)
proof (induction k arbitrary: a n)
  case 0
  have "a = 0" using assms(1) 0(1) by (rule none_before_first)
  then show ?case using 0 by (subst find_scope.simps) auto
next
  case (Suc k)
  show ?case
  proof (cases "a = 0")
    case True
    then show ?thesis using Suc.prems by (subst find_scope.simps) auto
  next
    case False
    then obtain c where c: "get_ctx a m = Inr c"
      using Suc.prems(1) by (auto simp: older_context_def is_context_def get_ctx_def get_object_def)
    have chain: "enclosing parent_context (Suc k) m a = a # enclosing parent_context k m (parent_context c)" using False c by simp
    then have tab: "symbols_of bytes n a = Inr (tab a)"
      using Suc.prems(3,4) by (simp add: same_scopes_def)
    obtain n1 where n1: "context_symbols bytes a n = Inr (tab a, n1)" "same_scopes bytes n n1"
      using context_symbols_found[OF tab] by blast
    have s1: "same_scopes bytes m n1" using Suc.prems(3) n1(2) unfolding same_scopes_def by metis
    then obtain d where d: "get_ctx a n1 = Inr d" "parent_context d = parent_context c"
      using c unfolding same_scopes_def by blast
    have p: "older_context (parent_context c) (address k) m"
      using link_older[OF assms(1) _ c Suc.prems(1) False] assms(1) Suc.prems(2) by simp
    obtain q where q: "find_scope k bytes name (parent_context c) n1 =
        Inr (first_scope tab name (enclosing parent_context k m (parent_context c)), q)" "same_scopes bytes m q"
      using Suc.IH[OF p _ s1] Suc.prems(2,4) chain by auto
    show ?thesis
      using False n1(1) d q s1 chain
      by (subst find_scope.simps) (auto split: option.splits)
  qed
qed

lemma search_this_first:
  assumes "machine_ok m" "context_or_null a m" "\<forall>b \<in> set (scope_chain m a). symbols_of bytes m b = Inr (tab b)"
  shows "\<exists>q. search_this bytes name a m = Inr (first_scope tab name (scope_chain m a), q) \<and> same_scopes bytes m q"
proof -
  have c: "object_count m \<le> max_objects" using assms(1) by (simp add: machine_ok_def)
  show ?thesis
    unfolding search_this_def
    using assms c older_than_new[OF assms(2,1)] by (intro find_scope_first) auto
qed

text \<open>
  C12: in a machine that satisfies the invariant, looking up a name from a context always returns, and
  finds the innermost enclosing context whose symbol table has the name, with the index and flags the
  table holds for it, or nothing if no enclosing context has it. The chain searched is the context
  followed by the chain of its parent, and the machine differs in tables built on the way only.
\<close>

theorem lexical_scoping:
  assumes "machine_ok m" "get_ctx a m = Inr c"
    and "\<forall>b \<in> set (scope_chain m a). symbols_of bytes m b = Inr (tab b)"
  shows "\<exists>q. search_this bytes name a m = Inr (first_scope tab name (scope_chain m a), q) \<and>
    scope_chain m a = a # scope_chain m (parent_context c) \<and> same_scopes bytes m q \<and> after m q"
proof -
  have "context_or_null a m" using get_ctx_ok(1)[OF assms(2)] by (simp add: context_or_null_def)
  then obtain q where q: "search_this bytes name a m = Inr (first_scope tab name (scope_chain m a), q)"
      "same_scopes bytes m q"
    using search_this_first[OF assms(1) _ assms(3)] by blast
  then have "after m q" using keeps_search_this[OF after_refl[OF assms(1)]] unfolding keeps_def by blast
  then show ?thesis using q chain_unfold[OF assms(1) goes_back(1)[OF assms(1)] assms(2)] by blast
qed

text \<open>A context around another: the outer declares \<open>x\<close> and \<open>y\<close>, the inner only \<open>y\<close>.\<close>

definition table_of :: "(string \<times> uint_t) list \<Rightarrow> uint_t zmap" where
  "table_of kvs = fold (\<lambda>(k, i) t. map_insert t k i) kvs map_new"

definition outer_table :: "uint_t zmap" where
  "outer_table = table_of [(''x'', 3), (''y'', 4)]"

definition inner_table :: "uint_t zmap" where
  "inner_table = table_of [(''y'', 5)]"

definition nested_machine :: machine where
  "nested_machine = sample_machine\<lparr>heap := [64 \<mapsto> \<lparr>obj_version = 0, ob = Context (empty_ctx\<lparr>symbol_table := Some outer_table\<rparr>)\<rparr>,
     128 \<mapsto> \<lparr>obj_version = 0, ob = Context (empty_ctx\<lparr>parent_context := 64, symbol_table := Some inner_table\<rparr>)\<rparr>],
     object_count := 2\<rparr>"

lemma nested_machine_ok: "machine_ok nested_machine"
proof -
  have "address 0 = 64" "address 1 = 128" by (simp_all add: address_def)
  then have "\<exists>k < 2. (64 :: uint_t) = address k" "\<exists>k < 2. (128 :: uint_t) = address k"
    by (auto intro: exI[of _ 0] exI[of _ 1])
  then show ?thesis
    by (auto simp: machine_ok_def nested_machine_def sample_machine_def sample_state_def state_ok_def is_context_def
      context_or_null_def older_context_def empty_ctx_def max_objects_def split: if_splits)
qed

theorem lexical_scoping_witness:
  "(\<exists>q. search_this [] ''x'' 128 nested_machine = Inr (Some (64, 3, MAP_FLAG_ENUMERABLE), q)) \<and>
   (\<exists>q. search_this [] ''y'' 128 nested_machine = Inr (Some (128, 5, MAP_FLAG_ENUMERABLE), q))"
proof -
  let ?c = "empty_ctx\<lparr>parent_context := 64, symbol_table := Some inner_table\<rparr>"
  let ?tab = "\<lambda>b. if b = 64 then outer_table else inner_table"
  have c: "get_ctx 128 nested_machine = Inr ?c" "get_ctx 64 nested_machine = Inr (empty_ctx\<lparr>symbol_table := Some outer_table\<rparr>)"
    by (simp_all add: get_ctx_def get_object_def nested_machine_def)
  have two: "object_count nested_machine = Suc (Suc 0)" by (simp add: nested_machine_def)
  have chain: "scope_chain nested_machine 128 = [128, 64]"
    unfolding two by (simp add: c empty_ctx_def)
  have tab: "\<forall>b \<in> set (scope_chain nested_machine 128). symbols_of [] nested_machine b = Inr (?tab b)"
    unfolding chain by (simp add: symbols_of_def c)
  have "first_scope ?tab ''x'' [128, 64] = Some (64, 3, MAP_FLAG_ENUMERABLE)"
    "first_scope ?tab ''y'' [128, 64] = Some (128, 5, MAP_FLAG_ENUMERABLE)" by code_simp+
  then show ?thesis
    using lexical_scoping[OF nested_machine_ok c(1) tab, of "''x''"] lexical_scoping[OF nested_machine_ok c(1) tab, of "''y''"]
    unfolding chain by auto
qed

end
