(* ===== verification/Exceptions.thy ===== *)
theory Exceptions
  imports Scopes
begin

text \<open>
  Exceptions: where a throw continues (\<open>interpreter_throw_exception_from_str\<close>, GOTO_CATCH), and what
  a return leaves for the throws after it.
\<close>

section \<open>The handler\<close>

definition catch_points :: "machine \<Rightarrow> uint_t \<Rightarrow> uint_t list" where
  "catch_points m a = (case get_ctx a m of
     Inl e \<Rightarrow> []
   | Inr c \<Rightarrow> (case catches_list c of None \<Rightarrow> [] | Some ps \<Rightarrow> ps))"

text \<open>The innermost context, from \<open>a\<close> through its callers, that has a catch point set.\<close>

definition handler :: "machine \<Rightarrow> uint_t \<Rightarrow> uint_t option" where
  "handler m a = find (\<lambda>b. catch_points m b \<noteq> []) (chain_of return_context m a)"

lemma handler_here:
  assumes "machine_ok m" "catch_points m a \<noteq> []"
  shows "handler m a = Some a"
proof -
  obtain c where "get_ctx a m = Inr c" using assms(2) by (auto simp: catch_points_def split: sum.splits)
  then show ?thesis
    using chain_unfold[OF assms(1) goes_back(2)[OF assms(1)]] assms(2) by (simp add: handler_def)
qed

lemma handler_caller:
  assumes "machine_ok m" "get_ctx a m = Inr c" "catch_points m a = []"
  shows "handler m a = handler m (return_context c)"
  using chain_unfold[OF assms(1) goes_back(2)[OF assms(1)] assms(2)] assms(3) by (simp add: handler_def)

section \<open>Throwing\<close>

definition uncaught :: "nat \<Rightarrow> string \<Rightarrow> machine \<Rightarrow> machine" where
  "uncaught s message m = upd_state s (\<lambda>x. x\<lparr>current_context := 0, return_code := True,
     exception_details := Some (message @ '' \<newline>class:'' @ class_name (states m ! s))\<rparr>) m"

definition caught :: "nat \<Rightarrow> string \<Rightarrow> uint_t \<Rightarrow> machine \<Rightarrow> fault + machine" where
  "caught s message b m =
     ebind (string_new message
       (upd_state s (\<lambda>x. x\<lparr>current_context := b, instruction_pointer := last (catch_points m b)\<rparr>) m))
     (\<lambda>(e, m1). push_value s \<lparr>rtype = RT_STR, val = e\<rparr> m1)"

lemma upd_state_twice: "upd_state s f (upd_state s g m) = upd_state s (\<lambda>x. f (g x)) m"
  by (cases "s < length (states m)") (simp_all add: upd_state_def list_update_beyond)

lemma get_state_upd: "s < length (states m) \<Longrightarrow> get_state s (upd_state s f m) = Inr (f (states m ! s))"
  by (simp add: get_state_def upd_state_def)

lemma throw_from_handler:
  assumes "machine_ok m" "s < length (states m)"
  shows "older_context a (address k) m \<Longrightarrow> k \<le> max_objects \<Longrightarrow>
    throw_from k s message a (upd_state s (\<lambda>x. x\<lparr>current_context := a\<rparr>) m) =
      (case find (\<lambda>b. catch_points m b \<noteq> []) (enclosing return_context k m a) of
         None \<Rightarrow> Inr (uncaught s message m)
       | Some b \<Rightarrow> caught s message b m)"
proof (induction k arbitrary: a)
  case 0
  have "a = 0" using assms(1) 0(1) by (rule none_before_first)
  then show ?case using assms(2) by (subst throw_from.simps) (simp add: uncaught_def upd_state_twice get_state_upd)
next
  case (Suc k)
  show ?case
  proof (cases "a = 0")
    case True
    then show ?thesis using assms(2)
      by (subst throw_from.simps) (simp add: uncaught_def upd_state_twice get_state_upd)
  next
    case False
    then obtain c where c: "get_ctx a m = Inr c"
      using Suc.prems(1) by (auto simp: older_context_def is_context_def get_ctx_def get_object_def)
    have p: "older_context (return_context c) (address k) m"
      using link_older[OF assms(1) _ c Suc.prems(1) False] assms(1) Suc.prems(2) by simp
    note IH = Suc.IH[OF p Suc_leD[OF Suc.prems(2)]]
    show ?thesis
    proof (cases "catch_points m a")
      case Nil
      then have "catches_list c = None \<or> catches_list c = Some []" using c by (auto simp: catch_points_def split: option.splits)
      then show ?thesis using False c IH Nil
        by (subst throw_from.simps) (auto simp: upd_state_twice)
    next
      case (Cons q qs)
      then have "catches_list c = Some (q # qs)" using c by (auto simp: catch_points_def split: option.splits)
      then show ?thesis using False c Cons
        by (subst throw_from.simps) (simp add: upd_state_twice caught_def)
    qed
  qed
qed

lemma throw_to_handler:
  assumes "machine_ok m" "get_state s m = Inr st"
  shows "interpreter_throw_exception_from_str s message m =
    (case handler m (current_context st) of None \<Rightarrow> Inr (uncaught s message m) | Some b \<Rightarrow> caught s message b m)"
proof -
  have st: "s < length (states m)" "st = states m ! s" "context_or_null (current_context st) m"
    using get_state_ok[OF assms(2)] assms(1) by (auto simp: state_ok_def)
  have same: "upd_state s (\<lambda>x. x\<lparr>current_context := current_context st\<rparr>) m = m"
    using st(1,2) by (simp add: upd_state_def)
  have "object_count m \<le> max_objects" using assms(1) by (simp add: machine_ok_def)
  then show ?thesis
    using throw_from_handler[OF assms(1) st(1) older_than_new[OF st(3) assms(1)], of message] same assms(2)
    by (simp add: interpreter_throw_exception_from_str_def handler_def)
qed

text \<open>What is found where after an exception was caught.\<close>

lemma caught_facts:
  assumes "machine_ok m" "get_state s m = Inr st" "within_limit m"
    and "0 \<le> stack_ptr st + 1" "stack_ptr st + 1 < int stack_file_size"
  shows "\<exists>n e q. caught s message b m = Inr n \<and> to_string e n = Inr message \<and>
    get_state s n = Inr (st\<lparr>current_context := b, instruction_pointer := last (catch_points m b),
      stack_ptr := stack_ptr st + 1\<rparr>) \<and>
    pop_value s n = Inr (\<lparr>rtype = RT_STR, val = e\<rparr>, q)"
proof -
  have s: "s < length (states m)" "st = states m ! s" and start: "stack_start st < length (stacks m)"
    using get_state_ok[OF assms(2)] assms(1) by (auto simp: state_ok_def)
  show ?thesis
    using assms(3-5) s start
    by (simp add: caught_def string_new_def new_object_def push_value_def pop_value_def get_state_def
      upd_state_def to_string_def get_object_def within_limit_def Let_def)
qed

text \<open>
  C13: an instruction that throws a message continues at the last catch point of the innermost context
  that has one, among the current context of the state and the contexts that called it; the message
  is then on top of the stack as a string. If no context has one the run stops with the message and
  the name of the class as the details of the error. The memory is below the limit at which allocating the
  message would call the collector (\<open>within_limit\<close>), and the stack has room for it.
\<close>

theorem throw_reaches_handler:
  assumes "machine_ok m" "get_state s m = Inr st" "\<not> return_code st" "within_limit m"
    and "0 \<le> stack_ptr st + 1" "stack_ptr st + 1 < int stack_file_size"
  shows "\<exists>n. case handler m (current_context st) of
      None \<Rightarrow> throw_str message s r m = Inr (Stop, n) \<and> get_state s n = Inr (st\<lparr>current_context := 0,
        return_code := True, exception_details := Some (message @ '' \<newline>class:'' @ class_name st)\<rparr>)
    | Some b \<Rightarrow> throw_str message s r m = Inr (Goto (r\<lparr>ip := unat (last (catch_points m b)), cur := b\<rparr>), n) \<and>
        (\<exists>e q. pop_value s n = Inr (\<lparr>rtype = RT_STR, val = e\<rparr>, q) \<and> to_string e n = Inr message)"
proof (cases "handler m (current_context st)")
  case None
  then show ?thesis
    using throw_to_handler[OF assms(1,2), of message] get_state_ok(1,2)[OF assms(2)]
    by (simp add: throw_str_def goto_catch_block_def uncaught_def get_state_upd)
next
  case (Some b)
  obtain n e q where n: "caught s message b m = Inr n" "to_string e n = Inr message"
    "get_state s n = Inr (st\<lparr>current_context := b, instruction_pointer := last (catch_points m b),
       stack_ptr := stack_ptr st + 1\<rparr>)"
    "pop_value s n = Inr (\<lparr>rtype = RT_STR, val = e\<rparr>, q)"
    using caught_facts[OF assms(1,2,4-6)] by blast
  then show ?thesis
    using throw_to_handler[OF assms(1,2), of message] Some assms(3)
    by (intro exI[of _ n]) (simp add: throw_str_def goto_catch_block_def)
qed

text \<open>A context that was called from another, which has a catch point.\<close>

definition calling_machine :: machine where
  "calling_machine = sample_machine\<lparr>
     heap := [64 \<mapsto> \<lparr>obj_version = 0, ob = Context (empty_ctx\<lparr>catches_list := Some [200], locals := Some [zero_reg]\<rparr>)\<rparr>,
       128 \<mapsto> \<lparr>obj_version = 0, ob = Context (empty_ctx\<lparr>return_context := 64, return_address := Some 40,
         catches_list := Some [], locals := Some [zero_reg]\<rparr>)\<rparr>],
     object_count := 2, states := [sample_state\<lparr>current_context := 128\<rparr>]\<rparr>"

lemma two_addresses: "\<exists>k < 2. (64 :: uint_t) = address k" "\<exists>k < 2. (128 :: uint_t) = address k"
  by (auto simp: address_def intro: exI[of _ 0] exI[of _ 1])

lemma calling_machine_ok: "machine_ok calling_machine"
  using two_addresses
  by (auto simp: machine_ok_def calling_machine_def sample_machine_def sample_state_def state_ok_def is_context_def
    context_or_null_def older_context_def empty_ctx_def max_objects_def split: if_splits)

lemma calling_contexts:
  "get_ctx 128 calling_machine = Inr (empty_ctx\<lparr>return_context := 64, return_address := Some 40,
     catches_list := Some [], locals := Some [zero_reg]\<rparr>)"
  "get_ctx 64 calling_machine = Inr (empty_ctx\<lparr>catches_list := Some [200], locals := Some [zero_reg]\<rparr>)"
  by (simp_all add: get_ctx_def get_object_def calling_machine_def)

lemma calling_handler: "handler calling_machine 128 = Some 64"
  using handler_caller[OF calling_machine_ok calling_contexts(1)] handler_here[OF calling_machine_ok, of 64]
  by (simp add: catch_points_def calling_contexts)

theorem throw_reaches_handler_witness:
  "\<exists>n e q. throw_str ''divide by 0'' 0 \<lparr>cur = 128, ip = 500, linked = [], object_to_search_on = 0\<rparr> calling_machine =
      Inr (Goto \<lparr>cur = 64, ip = 200, linked = [], object_to_search_on = 0\<rparr>, n) \<and>
    pop_value 0 n = Inr (\<lparr>rtype = RT_STR, val = e\<rparr>, q) \<and> to_string e n = Inr ''divide by 0''"
proof -
  have st: "get_state 0 calling_machine = Inr (sample_state\<lparr>current_context := 128\<rparr>)"
    by (simp add: get_state_def calling_machine_def)
  have room: "within_limit calling_machine" by (simp add: within_limit_def calling_machine_def sample_machine_def)
  show ?thesis
    using throw_reaches_handler[OF calling_machine_ok st _ room, of "''divide by 0''"
        "\<lparr>cur = 128, ip = 500, linked = [], object_to_search_on = 0\<rparr>"] calling_handler
    by (simp add: catch_points_def calling_contexts) (auto simp: sample_state_def stack_file_size_def)
qed

section \<open>Returning\<close>

lemma set_reg_points:
  assumes "set_reg a i v m = Inr n"
  shows "catch_points n b = catch_points m b" "within_limit n = within_limit m" "get_state s n = get_state s m"
proof -
  obtain c ls where c: "get_ctx a m = Inr c" and n: "n = put_ctx a (c\<lparr>locals := Some ls\<rparr>) m"
    using assms unfolding set_reg_def by (auto elim!: ebind_InrE split: option.splits if_splits)
  show "catch_points n b = catch_points m b"
    using c n by (simp add: catch_points_def get_ctx_put_ctx)
  show "within_limit n = within_limit m" "get_state s n = get_state s m"
    by (simp_all add: n put_ctx_def put_object_def get_state_def within_limit_def)
qed


text \<open>The function at 128 returns its local 0 to the context at 64 while its catch point 300 is set.\<close>

definition returning_machine :: machine where
  "returning_machine = calling_machine\<lparr>
     heap := (heap calling_machine)(128 \<mapsto> \<lparr>obj_version = 0, ob = Context (empty_ctx\<lparr>return_context := 64,
       return_address := Some 40, catches_list := Some [300], locals := Some [zero_reg]\<rparr>)\<rparr>),
     states := [sample_state\<lparr>current_context := 128, byte_stream := instr_bytes RETURN 0 0 0\<rparr>]\<rparr>"


end
