(* ===== verification/Calls.thy ===== *)
theory Calls
  imports Exceptions
begin

text \<open>
  Calls (OP_CALL on a function of the running state, OP_FFRAME, OP_RETURN): how arguments and results
  travel.
\<close>

section \<open>The stack\<close>

text \<open>The registers \<open>vs\<close> lie on the stack of the state, the first one on top.\<close>

definition on_stack :: "nat \<Rightarrow> z_reg list \<Rightarrow> machine \<Rightarrow> bool" where
  "on_stack s vs m \<longleftrightarrow> stack_ptr (states m ! s) < int stack_file_size \<and>
     (\<forall>j < length vs. int j \<le> stack_ptr (states m ! s) \<and>
        (stacks m ! stack_start (states m ! s)) (nat (stack_ptr (states m ! s) - int j)) = Some (vs ! j))"

lemma on_stack_Nil: "on_stack s [] m \<longleftrightarrow> stack_ptr (states m ! s) < int stack_file_size"
  by (simp add: on_stack_def)

lemma all_less_Suc: "(\<forall>j < Suc n. P j) \<longleftrightarrow> P 0 \<and> (\<forall>j < n. P (Suc j))"
  using less_Suc_eq_0_disj by auto

lemma pop_on_stack:
  assumes "s < length (states m)" "on_stack s (v # vs) m"
  shows "pop_value s m = Inr (v, upd_state s (\<lambda>x. x\<lparr>stack_ptr := stack_ptr (states m ! s) - 1\<rparr>) m)"
    "on_stack s vs (upd_state s (\<lambda>x. x\<lparr>stack_ptr := stack_ptr (states m ! s) - 1\<rparr>) m)"
proof -
  let ?p = "stack_ptr (states m ! s)"
  have p: "?p < int stack_file_size" "0 \<le> ?p" "(stacks m ! stack_start (states m ! s)) (nat ?p) = Some v"
    and rest: "\<forall>j < length vs. int (Suc j) \<le> ?p \<and>
      (stacks m ! stack_start (states m ! s)) (nat (?p - int (Suc j))) = Some (vs ! j)"
    using assms(2) unfolding on_stack_def list.size(4) add_Suc_right add_0_right all_less_Suc by auto
  show "pop_value s m = Inr (v, upd_state s (\<lambda>x. x\<lparr>stack_ptr := ?p - 1\<rparr>) m)"
    using assms(1) p by (simp add: pop_value_def get_state_def)
  show "on_stack s vs (upd_state s (\<lambda>x. x\<lparr>stack_ptr := ?p - 1\<rparr>) m)"
    using p(1) rest assms(1) by (auto simp: on_stack_def upd_state_def diff_diff_eq)
qed

lemma take_args_ok:
  "s < length (states m) \<Longrightarrow> on_stack s vs m \<Longrightarrow> i + length vs + 3 \<le> length ls \<Longrightarrow>
    \<exists>ls'. take_args s (length vs) i ls m =
        Inr (ls', upd_state s (\<lambda>x. x\<lparr>stack_ptr := stack_ptr (states m ! s) - int (length vs)\<rparr>) m) \<and>
      length ls' = length ls \<and> (\<forall>j < i + 3. ls' ! j = ls ! j) \<and> (\<forall>j < length vs. ls' ! (i + 3 + j) = vs ! j)"
proof (induction vs arbitrary: i ls m)
  case Nil
  have "upd_state s (\<lambda>x. x\<lparr>stack_ptr := stack_ptr (states m ! s)\<rparr>) m = m"
    using Nil.prems(1) by (simp add: upd_state_def)
  then show ?case by simp
next
  case (Cons v vs)
  let ?m = "upd_state s (\<lambda>x. x\<lparr>stack_ptr := stack_ptr (states m ! s) - 1\<rparr>) m"
  have len: "s < length (states ?m)" "i + 1 + length vs + 3 \<le> length (ls[i + 3 := v])" "i + 3 < length ls"
    using Cons.prems(1,3) by simp_all
  obtain ls' where ls': "take_args s (length vs) (i + 1) (ls[i + 3 := v]) ?m =
      Inr (ls', upd_state s (\<lambda>x. x\<lparr>stack_ptr := stack_ptr (states ?m ! s) - int (length vs)\<rparr>) ?m)"
    "length ls' = length ls" "\<forall>j < i + 1 + 3. ls' ! j = (ls[i + 3 := v]) ! j"
    "\<forall>j < length vs. ls' ! (i + 1 + 3 + j) = vs ! j"
    using Cons.IH[OF len(1) pop_on_stack(2)[OF Cons.prems(1,2)] len(2)] by auto
  have sp: "stack_ptr (states ?m ! s) - int (length vs) = stack_ptr (states m ! s) - int (length (v # vs))"
    using Cons.prems(1) by (simp add: upd_state_def)
  have "take_args s (length (v # vs)) i ls m =
      Inr (ls', upd_state s (\<lambda>x. x\<lparr>stack_ptr := stack_ptr (states m ! s) - int (length (v # vs))\<rparr>) m)"
    using pop_on_stack(1)[OF Cons.prems(1,2)] len(3) ls'(1) unfolding sp by (simp add: upd_state_twice)
  moreover have "ls' ! (i + 3) = v" using ls'(3) len(3) by simp
  then have "\<forall>j < length (v # vs). ls' ! (i + 3 + j) = (v # vs) ! j"
    using ls'(4) unfolding list.size(4) add_Suc_right add_0_right all_less_Suc by (simp add: ac_simps)
  ultimately show ?case using ls'(2,3) by auto
qed

lemma push_on_stack:
  assumes "on_stack s vs m" "0 \<le> stack_ptr (states m ! s) + 1" "stack_ptr (states m ! s) + 1 < int stack_file_size"
    and "stack_ptr (states n ! s) = stack_ptr (states m ! s) + 1" "stack_start (states n ! s) = stack_start (states m ! s)"
    and "stacks n ! stack_start (states m ! s) =
      (stacks m ! stack_start (states m ! s))(nat (stack_ptr (states m ! s) + 1) \<mapsto> v)"
  shows "on_stack s (v # vs) n"
proof -
  let ?p = "stack_ptr (states m ! s)"
  have "int j \<le> ?p \<and> nat (?p - int j) \<noteq> nat (?p + 1) \<and>
      (stacks m ! stack_start (states m ! s)) (nat (?p - int j)) = Some (vs ! j)" if "j < length vs" for j
    using assms(1) that by (auto simp: on_stack_def)
  then show ?thesis
    using assms(2-6) unfolding on_stack_def list.size(4) add_Suc_right add_0_right all_less_Suc by auto
qed

section \<open>Entering a function\<close>

lemma get_ctx_gc_list [simp]: "get_ctx a (ADD_OBJECT_TO_GC_LIST b m) = get_ctx a m"
  by (simp add: get_ctx_def get_object_def ADD_OBJECT_TO_GC_LIST_def)

lemma fframe_takes_arguments:
  assumes s: "s < length (states m)" and c: "get_ctx (cur r) m = Inr c"
    and count: "on_stack s (\<lparr>rtype = RT_NUMBER, val = word_of_nat (length vs)\<rparr> # vs) m"
    and words: "op_r0 s r m = Inr n" "op_r1 s r m = Inr symbols" "op_r2 s r m = Inr e"
    and room: "length vs + 2 \<le> unat n" "length vs < 2 ^ 63"
    and root: "get_ctx (root_context (states m ! s)) m = Inr rc" "locals rc = Some rl" "1 < length rl"
    and lk: "link_function (ip r) (unat e) (linked r) = Inr lk"
  shows "\<exists>q ls. op_fframe s r m = Inr (goto_next (r\<lparr>linked := lk\<rparr>), q) \<and>
    get_ctx (cur r) q = Inr (c\<lparr>locals := Some ls, symbols_address := symbols\<rparr>) \<and>
    length ls = unat n + 1 \<and> ls ! 1 = rl ! 1 \<and> (\<forall>j < length vs. ls ! (3 + j) = vs ! j) \<and>
    get_state s q = Inr ((states m ! s)\<lparr>stack_ptr := stack_ptr (states m ! s) - int (length vs) - 1\<rparr>)"
proof -
  let ?m1 = "upd_state s (\<lambda>x. x\<lparr>stack_ptr := stack_ptr (states m ! s) - 1\<rparr>) m"
  let ?zeros = "replicate (unat n + 1) zero_reg"
  have w: "nat (sint (word_of_nat (length vs) :: uint_t)) = length vs"
    using room(2) by (simp add: signed_of_nat signed_take_bit_int_eq_self)
  obtain ls where ls: "take_args s (length vs) 0 ?zeros ?m1 =
      Inr (ls, upd_state s (\<lambda>x. x\<lparr>stack_ptr := stack_ptr (states ?m1 ! s) - int (length vs)\<rparr>) ?m1)"
    "length ls = unat n + 1" "\<forall>j < length vs. ls ! (3 + j) = vs ! j"
    using take_args_ok[OF _ pop_on_stack(2)[OF s count], of 0 ?zeros] s room(1) by auto
  define m2 where "m2 = upd_state s (\<lambda>x. x\<lparr>stack_ptr := stack_ptr (states ?m1 ! s) - int (length vs)\<rparr>) ?m1"
  have st: "get_state s m2 = Inr ((states m ! s)\<lparr>stack_ptr := stack_ptr (states m ! s) - int (length vs) - 1\<rparr>)"
    using s by (simp add: m2_def get_state_upd) (simp add: upd_state_def)
  have ctx: "get_ctx a m2 = get_ctx a m" for a by (simp add: m2_def)
  have self: "place_this rc ls = Inr (ls[1 := rl ! 1])" using root(2,3) ls(2) room(1) by (simp add: place_this_def)
  let ?q = "ADD_OBJECT_TO_GC_LIST (cur r)
       (put_ctx (cur r) (c\<lparr>locals := Some (ls[1 := rl ! 1]), symbols_address := symbols\<rparr>) m2)"
  have "op_fframe s r m = Inr (goto_next (r\<lparr>linked := lk\<rparr>), ?q)"
    using words pop_on_stack(1)[OF s count] ls(1) w st root(1) self c lk
    by (simp add: op_fframe_def m2_def[symmetric] ctx)
  moreover have "get_ctx (cur r) ?q = Inr (c\<lparr>locals := Some (ls[1 := rl ! 1]), symbols_address := symbols\<rparr>)"
    using c by (simp add: get_ctx_put_ctx[of _ m2 c] ctx)
  moreover have "get_state s ?q = get_state s m2"
    by (simp add: get_state_def ADD_OBJECT_TO_GC_LIST_def put_ctx_def put_object_def)
  ultimately show ?thesis using ls(2,3) st room(1)
    by (intro exI[of _ ?q] exI[of _ "ls[1 := rl ! 1]"]) simp
qed

text \<open>
  C14: calling a function of the running state with \<open>k\<close> arguments on the stack, the first on top,
  enters a new context and, at the FFRAME instruction of the function, gives it locals with the
  arguments from local 3 on and \<open>this\<close> in local 1. The new context knows its enclosing context, its
  caller, where to continue and the register that wants the result; the arguments are off the stack. The
  memory is below the limit at which allocating the context would call the collector (\<open>within_limit\<close>).
\<close>

theorem call_passes_arguments:
  fixes r :: activation
  assumes ok: "machine_ok m" and st: "get_state s m = Inr st" and free: "within_limit m"
    and callee: "reg_in 8 s r m = Inr f" "rtype f = RT_FUNCTION_REF" "function_at (val f) m = Inr (start, 0, parent, s)"
    and ops: "op_r1 s r m = Inr i" "op_r2 s r m = Inr (word_of_nat (length vs))" "runs_in m r"
    and args: "on_stack s vs m" "0 \<le> stack_ptr st + 1" "stack_ptr st + 1 < int stack_file_size"
    and frame: "read_word (byte_stream st) (unat start + 8) = Inr n"
      "read_word (byte_stream st) (unat start + 16) = Inr symbols" "read_word (byte_stream st) (unat start + 24) = Inr e"
    and room: "length vs + 2 \<le> unat n" "length vs < 2 ^ 63"
    and root: "get_ctx (root_context st) m = Inr rc" "locals rc = Some rl" "1 < length rl"
    and lk: "link_function (unat start) (unat e) (linked r) = Inr lk"
  shows "\<exists>a m1 m2 ls. op_call load run s r m = Inr (Enter (r\<lparr>cur := a, ip := unat start\<rparr>), m1) \<and>
    op_fframe s (r\<lparr>cur := a, ip := unat start\<rparr>) m1 = Inr (Goto (r\<lparr>cur := a, ip := unat start + 32, linked := lk\<rparr>), m2) \<and>
    get_ctx a m2 = Inr (empty_ctx\<lparr>parent_context := parent, return_context := cur r, return_address := Some (ip r),
      requested_return_register_index := i, locals := Some ls, symbols_address := symbols\<rparr>) \<and>
    length ls = unat n + 1 \<and> ls ! 1 = rl ! 1 \<and> (\<forall>j < length vs. ls ! (3 + j) = vs ! j) \<and>
    get_state s m2 = Inr (st\<lparr>current_context := a, stack_ptr := stack_ptr st - int (length vs)\<rparr>)"
proof -
  have s: "s < length (states m)" "st = states m ! s" and start: "stack_start st < length (stacks m)"
    using get_state_ok[OF st] ok by (auto simp: state_ok_def)
  let ?p = "stack_ptr st"
  let ?count = "\<lparr>rtype = RT_NUMBER, val = word_of_nat (length vs)\<rparr>"
  let ?c = "empty_ctx\<lparr>parent_context := parent, return_context := cur r, return_address := Some (ip r),
    requested_return_register_index := i\<rparr>"
  let ?a = "next_addr m"
  define m0 where "m0 = (upd_state s (\<lambda>x. x\<lparr>stack_ptr := ?p + 1\<rparr>) m)
    \<lparr>stacks := (stacks m)[stack_start st := (stacks m ! stack_start st)(nat (?p + 1) \<mapsto> ?count)]\<rparr>"
  have push: "z_interpreter_set_arguments_count s (word_of_nat (length vs)) m = Inr m0"
    using st args(2,3) by (simp add: z_interpreter_set_arguments_count_def push_value_def m0_def Let_def)
  define m1 where "m1 = upd_state s (\<lambda>x. x\<lparr>current_context := ?a\<rparr>)
    (m0\<lparr>heap := (heap m)(?a \<mapsto> \<lparr>obj_version = 0, ob = Context ?c\<rparr>), object_count := object_count m + 1\<rparr>)"
  have r1: "op_r1 s r m0 = Inr i" using ops(1) s by (auto simp: operand_at_def get_state_def m0_def upd_state_def)
  have "call_own start parent s r m0 = Inr (Enter (r\<lparr>cur := ?a, ip := unat start\<rparr>), m1)"
    using r1 free by (simp add: call_own_def new_object_def within_limit_def m1_def m0_def)
  then have call: "op_call load run s r m = Inr (Enter (r\<lparr>cur := ?a, ip := unat start\<rparr>), m1)"
    using callee ops push by (simp add: op_call_def)
  let ?q = "r\<lparr>cur := ?a, ip := unat start\<rparr>"
  have st1: "states m1 ! s = st\<lparr>stack_ptr := ?p + 1, current_context := ?a\<rparr>" "s < length (states m1)"
    using s by (simp_all add: m1_def m0_def upd_state_def)
  have new: "get_ctx (cur ?q) m1 = Inr ?c" by (simp add: m1_def get_ctx_def get_object_def)
  have root1: "get_ctx (root_context (states m1 ! s)) m1 = Inr rc"
  proof -
    have "root_context st \<noteq> ?a"
      using get_ctx_ok(1)[OF root(1)] fresh_address[OF ok free] by (auto simp: is_context_def)
    then show ?thesis using root(1) unfolding st1(1) by (simp add: m1_def get_ctx_def get_object_def)
  qed
  have words: "op_r0 s ?q m1 = Inr n" "op_r1 s ?q m1 = Inr symbols" "op_r2 s ?q m1 = Inr e"
    using frame st1 by (simp_all add: operand_at_def get_state_def)
  have "stacks m1 ! stack_start st = (stacks m ! stack_start st)(nat (?p + 1) \<mapsto> ?count)"
    using start by (simp add: m1_def m0_def)
  then have "on_stack s (?count # vs) m1"
    using push_on_stack[of s vs m m1 ?count] args st1(1) unfolding s(2) by simp
  then obtain q ls where fr: "op_fframe s ?q m1 = Inr (goto_next (?q\<lparr>linked := lk\<rparr>), q)"
    "get_ctx (cur ?q) q = Inr (?c\<lparr>locals := Some ls, symbols_address := symbols\<rparr>)"
    "length ls = unat n + 1" "ls ! 1 = rl ! 1" "\<forall>j < length vs. ls ! (3 + j) = vs ! j"
    "get_state s q = Inr ((states m1 ! s)\<lparr>stack_ptr := stack_ptr (states m1 ! s) - int (length vs) - 1\<rparr>)"
    using fframe_takes_arguments[OF st1(2) new _ words room root1 root(2,3), of lk] lk by auto
  then show ?thesis
    using call by (intro exI[of _ ?a] exI[of _ m1] exI[of _ q] exI[of _ ls]) (simp add: goto_next_def st1(1))
qed

text \<open>A caller that has pushed one argument and calls the function at 32.\<close>

definition call_machine :: machine where
  "call_machine = sample_machine\<lparr>
     heap := [64 \<mapsto> \<lparr>obj_version = 0, ob = Context (empty_ctx\<lparr>locals := Some [zero_reg, zero_reg,
         \<lparr>rtype = RT_FUNCTION_REF, val = 128\<rparr>]\<rparr>)\<rparr>,
       128 \<mapsto> \<lparr>obj_version = 0, ob = Function_object 32 0 64 0\<rparr>],
     object_count := 2, stacks := [[1 \<mapsto> num_reg 9]],
     states := [sample_state\<lparr>byte_stream := instr_bytes CALL 2 0 1 @ instr_bytes FFRAME 3 200 64\<rparr>]\<rparr>"

lemma call_machine_ok: "machine_ok call_machine"
  using two_addresses
  by (auto simp: machine_ok_def call_machine_def sample_machine_def sample_state_def state_ok_def is_context_def
    context_or_null_def older_context_def empty_ctx_def max_objects_def split: if_splits)

abbreviation call_activation :: activation where
  "call_activation \<equiv> \<lparr>cur = 64, ip = 0, linked = [], object_to_search_on = 0\<rparr>"

theorem call_passes_arguments_witness:
  "\<exists>a m1 m2 ls. op_call no_classes (\<lambda>_ _. Inl Out_Of_Fuel) 0 call_activation call_machine =
      Inr (Enter (call_activation\<lparr>cur := a, ip := 32\<rparr>), m1) \<and>
    op_fframe 0 (call_activation\<lparr>cur := a, ip := 32\<rparr>) m1 =
      Inr (Goto (call_activation\<lparr>cur := a, ip := 64, linked := [(32, 64)]\<rparr>), m2) \<and>
    ls ! 3 = num_reg 9"
proof -
  let ?st = "sample_state\<lparr>byte_stream := instr_bytes CALL 2 0 1 @ instr_bytes FFRAME 3 200 64\<rparr>"
  have st: "get_state 0 call_machine = Inr ?st" by (simp add: get_state_def call_machine_def)
  have free: "within_limit call_machine" by (simp add: within_limit_def call_machine_def sample_machine_def)
  have f: "reg_in 8 0 call_activation call_machine = Inr \<lparr>rtype = RT_FUNCTION_REF, val = 128\<rparr>"
    "function_at 128 call_machine = Inr (32, 0, 64, 0)"
    "op_r1 0 call_activation call_machine = Inr 0" "op_r2 0 call_activation call_machine = Inr 1"
    "context_or_null 64 call_machine"
    by (code_simp, code_simp, code_simp, code_simp) (simp add: context_or_null_def is_context_def call_machine_def)
  have w: "read_word (byte_stream ?st) 40 = Inr 3" "read_word (byte_stream ?st) 48 = Inr 200"
    "read_word (byte_stream ?st) 56 = Inr 64"
    by code_simp+
  have args: "on_stack 0 [num_reg 9] call_machine"
    by (simp add: on_stack_def call_machine_def sample_state_def sample_machine_def stack_file_size_def)
  have root: "get_ctx (root_context ?st) call_machine = Inr (empty_ctx\<lparr>locals := Some [zero_reg, zero_reg,
      \<lparr>rtype = RT_FUNCTION_REF, val = 128\<rparr>]\<rparr>)"
    by (simp add: get_ctx_def get_object_def call_machine_def sample_state_def)
  have lk: "link_function (unat (32 :: uint_t)) (unat (64 :: uint_t)) [] = Inr [(32, 64)]" by code_simp
  show ?thesis
    using call_passes_arguments[OF call_machine_ok st free f(1), of 32 64 0 "[num_reg 9]" 3 200 64
        "empty_ctx\<lparr>locals := Some [zero_reg, zero_reg, \<lparr>rtype = RT_FUNCTION_REF, val = 128\<rparr>]\<rparr>"
        "[zero_reg, zero_reg, \<lparr>rtype = RT_FUNCTION_REF, val = 128\<rparr>]" "[(32, 64)]"
        no_classes "\<lambda>_ _. Inl Out_Of_Fuel"]
      f args w root lk
    by (auto simp: sample_state_def stack_file_size_def)
qed

section \<open>Returning to the caller\<close>

text \<open>
  C15: a function that returns puts the value in the register its caller asked for, leaves the other
  registers of the caller and continues with the caller's locals at the instruction after the call.
\<close>

theorem return_delivers_value:
  assumes "reg_in 8 s r m = Inr v" "get_ctx (cur r) m = Inr c" "return_context c \<noteq> 0" "return_address c = Some p"
    and "get_ctx (return_context c) m = Inr d" "locals d = Some ls"
    and "unat (requested_return_register_index c) < length ls"
  shows "\<exists>n. op_return s r m = Inr (Goto (r\<lparr>cur := return_context c, ip := p + 32\<rparr>), n) \<and>
    get_ctx (return_context c) n =
      Inr (d\<lparr>locals := Some (ls[unat (requested_return_register_index c) := v])\<rparr>) \<and>
    (\<forall>b. b \<noteq> return_context c \<longrightarrow> get_ctx b n = get_ctx b m)"
proof -
  let ?m = "upd_state s (\<lambda>x. x\<lparr>current_context := cur r\<rparr>) m"
  let ?n = "put_ctx (return_context c) (d\<lparr>locals := Some (ls[unat (requested_return_register_index c) := v])\<rparr>) ?m"
  have d: "get_ctx (return_context c) ?m = Inr d" using assms(5) by simp
  have "op_return s r m = Inr (Goto (r\<lparr>cur := return_context c, ip := p + 32\<rparr>), ?n)"
    using assms d by (simp add: op_return_def set_reg_def next_after_def goto_next_def Let_def)
  moreover have "get_ctx b ?n = (if b = return_context c
      then Inr (d\<lparr>locals := Some (ls[unat (requested_return_register_index c) := v])\<rparr>) else get_ctx b m)" for b
    unfolding get_ctx_put_ctx[OF d] by simp
  ultimately show ?thesis by (intro exI[of _ ?n]) simp
qed

theorem return_delivers_value_witness:
  "\<exists>n. op_return 0 \<lparr>cur = 128, ip = 0, linked = [], object_to_search_on = 0\<rparr> returning_machine =
      Inr (Goto \<lparr>cur = 64, ip = 72, linked = [], object_to_search_on = 0\<rparr>, n) \<and>
    get_ctx 64 n = Inr (empty_ctx\<lparr>catches_list := Some [200], locals := Some [zero_reg]\<rparr>)"
proof -
  let ?r = "\<lparr>cur = 128, ip = 0, linked = [], object_to_search_on = 0\<rparr>"
  have v: "reg_in 8 0 ?r returning_machine = Inr zero_reg" by code_simp
  have c: "get_ctx (cur ?r) returning_machine = Inr (empty_ctx\<lparr>return_context := 64, return_address := Some 40,
      catches_list := Some [300], locals := Some [zero_reg]\<rparr>)"
    "get_ctx 64 returning_machine = Inr (empty_ctx\<lparr>catches_list := Some [200], locals := Some [zero_reg]\<rparr>)"
    by (simp_all add: get_ctx_def get_object_def returning_machine_def calling_machine_def)
  show ?thesis
    using return_delivers_value[OF v c(1), of 40 _ "[zero_reg]"] c(2) by (auto simp: empty_ctx_def)
qed

end
