(* ===== verification/Collector.thy ===== *)
theory Collector
  imports Machine
begin

text \<open>
  src/src/interpreter/garbage_collector.h: marking from the states and the static variables, and
  sweeping the list of objects. Marks are version numbers. The recursive visits of the code are one
  walk over a list of addresses still to visit, in the order the calls make them; what an object leads
  to does not change while the collector runs.
\<close>

section \<open>Visiting\<close>

text \<open>\<open>gc_visit_register\<close>: the addresses in registers that are neither numbers nor native functions.\<close>

definition register_refs :: "z_reg list \<Rightarrow> uint_t list" where
  "register_refs rs = map val (filter (\<lambda>x. rtype x \<noteq> RT_NUMBER \<and> rtype x \<noteq> RT_NATIVE_FUNC) rs)"

text \<open>\<open>gc_visit_stack\<close>: the slots above the bottom one, up to the stack pointer.\<close>

fun stack_registers :: "(nat \<Rightarrow> z_reg option) \<Rightarrow> nat \<Rightarrow> nat \<Rightarrow> fault + z_reg list" where
  "stack_registers stk i 0 = Inr []"
| "stack_registers stk i (Suc n) =
     (case stk i of
        None \<Rightarrow> Inl Undefined_Value
      | Some x \<Rightarrow> ebind (stack_registers stk (i + 1) n) (\<lambda>xs. Inr (x # xs)))"

text \<open>\<open>gc_visit_state\<close>\<close>

definition state_roots :: "nat \<Rightarrow> machine \<Rightarrow> fault + uint_t list" where
  "state_roots s m =
     (if s \<in> set (freed_states m) then Inl Undefined_Value
      else ebind (get_state s m) (\<lambda>st.
        ebind (stack_registers (stacks m ! stack_start st) 1 (nat (stack_ptr st))) (\<lambda>rs.
        Inr (current_context st # root_context st # register_refs rs))))"

text \<open>\<open>gc_visit_object_with_map\<close>: all values of the map, enumerable or not.\<close>

definition map_values :: "'v zmap \<Rightarrow> 'v list" where
  "map_values t = concat (map (\<lambda>b. case b of None \<Rightarrow> [] | Some vs \<Rightarrow> vs) (vbags t))"

text \<open>What \<open>gc_visit_object\<close> visits next; contexts from local 2 on, then the parent and the caller.\<close>

definition children :: "z_object \<Rightarrow> machine \<Rightarrow> fault + uint_t list" where
  "children x m = (case x of
       Context c \<Rightarrow> Inr (register_refs (case locals c of None \<Rightarrow> [] | Some ls \<Rightarrow> drop 2 ls) @
         [parent_context c, return_context c])
     | Json_object ps cache \<Rightarrow> Inr (register_refs (map_values ps))
     | Instance_object cls s \<Rightarrow> state_roots s m
     | Function_object start is_async parent s \<Rightarrow> ebind (state_roots s m) (\<lambda>as. Inr (parent # as))
     | Str_object t \<Rightarrow> Inr []
     | Class_object t \<Rightarrow> Inr []
     | Raw_object \<Rightarrow> Inl Undefined_Value)"

definition is_marked :: "machine \<Rightarrow> uint_t \<Rightarrow> bool" where
  "is_marked m a \<longleftrightarrow> (\<exists>h. heap m a = Some h \<and> obj_version h = gc_version m)"

definition mark :: "uint_t \<Rightarrow> machine \<Rightarrow> machine" where
  "mark a m = m\<lparr>heap := (heap m)(a := map_option (\<lambda>h. h\<lparr>obj_version := gc_version m\<rparr>) (heap m a))\<rparr>"

definition unmarked :: "machine \<Rightarrow> uint_t set" where
  "unmarked m = {a. heap m a \<noteq> None \<and> \<not> is_marked m a}"

lemma unmarked_mark:
  assumes "heap m a = Some h" "obj_version h \<noteq> gc_version m"
  shows "unmarked (mark a m) = unmarked m - {a}" "a \<in> unmarked m"
  using assms by (auto simp: unmarked_def is_marked_def mark_def)

function gc_visit :: "uint_t list \<Rightarrow> machine \<Rightarrow> fault + machine" where
  "gc_visit [] m = Inr m"
| "gc_visit (a # as) m =
     (if a = 0 then gc_visit as m
      else case heap m a of
        None \<Rightarrow> Inl Undefined_Value
      | Some h \<Rightarrow>
          if obj_version h = gc_version m then gc_visit as m
          else (case children (ob h) (mark a m) of
                  Inl e \<Rightarrow> Inl e
                | Inr bs \<Rightarrow> gc_visit (bs @ as) (mark a m)))"
  by pat_completeness auto
termination
proof (relation "measures [\<lambda>(as, m). card (unmarked m), \<lambda>(as, m). length as]")
  fix a :: uint_t and as bs :: "uint_t list" and m :: machine and h
  assume "heap m a = Some h" "obj_version h \<noteq> gc_version m"
  note unmarked_mark[OF this]
  then have "card (unmarked (mark a m)) < card (unmarked m)" by (metis card_Diff1_less finite)
  then show "((bs @ as, mark a m), (a # as, m)) \<in> measures [\<lambda>(as, m). card (unmarked m), \<lambda>(as, m). length as]"
    by simp
qed auto

section \<open>Collecting\<close>

text \<open>The loop over the states, then the loop over the enumerable static variables of the known types.\<close>

fun all_state_roots :: "nat list \<Rightarrow> machine \<Rightarrow> fault + uint_t list" where
  "all_state_roots [] m = Inr []"
| "all_state_roots (s # ss) m =
     (if s \<in> set (freed_states m) then Inl Undefined_Value
      else ebind (get_state s m) (\<lambda>st.
        ebind (if removed_as_a_root st then Inr [] else state_roots s m) (\<lambda>as.
        ebind (all_state_roots ss m) (\<lambda>bs. Inr (as @ bs)))))"

fun static_roots :: "string list \<Rightarrow> machine \<Rightarrow> fault + uint_t list" where
  "static_roots [] m = Inr []"
| "static_roots (k # ks) m =
     (case known_types m k of
        None \<Rightarrow> Inl Null_Deref
      | Some t \<Rightarrow>
          let vs = map (map_get (static_variables t)) (map_key_list (static_variables t)) in
          if None \<in> set vs then Inl Null_Deref
          else ebind (static_roots ks m) (\<lambda>as. Inr (register_refs (map the vs) @ as)))"

definition gc_roots :: "machine \<Rightarrow> fault + uint_t list" where
  "gc_roots m = ebind (all_state_roots (interpreter_states_list m) m) (\<lambda>as.
     ebind (static_roots (known_types_list m) m) (\<lambda>bs. Inr (as @ bs)))"

text \<open>\<open>z_free\<close> of an object, and \<open>gc_free_object\<close>: what an object owns goes with it.\<close>

definition free_cell :: "uint_t \<Rightarrow> machine \<Rightarrow> fault + machine" where
  "free_cell a m = (if heap m a = None then Inl Undefined_Value else Inr (m\<lparr>heap := (heap m)(a := None)\<rparr>))"

definition gc_free_object :: "uint_t \<Rightarrow> z_object \<Rightarrow> machine \<Rightarrow> fault + machine" where
  "gc_free_object a x m = (case x of
       Instance_object cls s \<Rightarrow>
         if s \<in> set (freed_states m) then Inl Undefined_Value
         else free_cell a (m\<lparr>freed_states := s # freed_states m\<rparr>)
     | Json_object ps cache \<Rightarrow>
         ebind (if cache = 0 then Inr m else free_cell cache m) (free_cell a)
     | Raw_object \<Rightarrow> Inl Undefined_Value
     | _ \<Rightarrow> free_cell a m)"

text \<open>The list of objects is rebuilt from the marked ones; an entry that is a register is read as an object.\<close>

fun gc_sweep :: "gc_entry list \<Rightarrow> machine \<Rightarrow> fault + (gc_entry list \<times> machine)" where
  "gc_sweep [] m = Inr ([], m)"
| "gc_sweep (Register_entry c i # es) m = Inl Undefined_Value"
| "gc_sweep (Entry a # es) m =
     (case heap m a of
        None \<Rightarrow> Inl Undefined_Value
      | Some h \<Rightarrow>
          if obj_version h \<noteq> gc_version m
          then ebind (gc_free_object a (ob h) m) (gc_sweep es)
          else ebind (gc_sweep es m) (\<lambda>(l, n). Inr (Entry a # l, n)))"

definition gc :: "machine \<Rightarrow> fault + machine" where
  "gc m0 = (let m = m0\<lparr>gc_version := gc_version m0 + 1\<rparr> in
     ebind (gc_roots m) (\<lambda>roots.
     ebind (gc_visit roots m) (\<lambda>m1.
     ebind (gc_sweep (gc_objects_list m1) m1) (\<lambda>(l, m2).
     Inr (m2\<lparr>gc_objects_list := l\<rparr>)))))"

section \<open>Marking is reachability\<close>

definition edges :: "machine \<Rightarrow> (uint_t \<times> uint_t) set" where
  "edges m = {(a, b). b \<noteq> 0 \<and> (\<exists>h bs. heap m a = Some h \<and> children (ob h) m = Inr bs \<and> b \<in> set bs)}"

definition reachable :: "machine \<Rightarrow> uint_t list \<Rightarrow> uint_t set" where
  "reachable m as = (edges m)\<^sup>* `` (set as - {0})"

text \<open>Machines that differ in versions of objects only.\<close>

definition same_but_marks :: "machine \<Rightarrow> machine \<Rightarrow> bool" where
  "same_but_marks m n \<longleftrightarrow> n = m\<lparr>heap := heap n\<rparr> \<and>
     (\<forall>a. map_option ob (heap n a) = map_option ob (heap m a) \<and> (is_marked n a \<or> heap n a = heap m a))"

lemma children_cong:
  "n = m\<lparr>heap := hp\<rparr> \<Longrightarrow> children x n = children x m"
  by (cases x) (simp_all add: children_def state_roots_def get_state_def)

lemma same_but_marks_refl [simp]: "same_but_marks m m"
  by (simp add: same_but_marks_def)

lemma same_fields:
  assumes "same_but_marks m n"
  shows "gc_version n = gc_version m" "children x n = children x m" "gc_objects_list n = gc_objects_list m"
    "freed_states n = freed_states m"
proof -
  have n: "n = m\<lparr>heap := heap n\<rparr>" using assms by (simp add: same_but_marks_def)
  show "children x n = children x m" using n by (rule children_cong)
  show "gc_version n = gc_version m" "gc_objects_list n = gc_objects_list m" "freed_states n = freed_states m"
    by (subst n, simp)+
qed

lemma mark_same: "heap m a = Some h \<Longrightarrow> same_but_marks m (mark a m)"
  by (auto simp: same_but_marks_def mark_def is_marked_def)

lemma marked_mono: "same_but_marks m n \<Longrightarrow> is_marked m a \<Longrightarrow> is_marked n a"
  using same_fields(1)[of m n] unfolding same_but_marks_def is_marked_def by metis

lemma same_but_marks_trans:
  assumes "same_but_marks m n" "same_but_marks n q"
  shows "same_but_marks m q"
proof -
  have n: "n = m\<lparr>heap := heap n\<rparr>" and q: "q = n\<lparr>heap := heap q\<rparr>"
    using assms by (simp_all add: same_but_marks_def)
  have "q = m\<lparr>heap := heap q\<rparr>" by (subst q, subst n) simp
  moreover have "is_marked q a \<or> heap q a = heap m a" for a
    using assms marked_mono[OF assms(2)] unfolding same_but_marks_def by metis
  ultimately show ?thesis using assms unfolding same_but_marks_def by metis
qed

lemma edges_same:
  assumes "same_but_marks m n"
  shows "edges n = edges m"
proof -
  have "(\<exists>h bs. heap n a = Some h \<and> children (ob h) n = Inr bs \<and> b \<in> set bs) \<longleftrightarrow>
    (\<exists>h bs. heap m a = Some h \<and> children (ob h) m = Inr bs \<and> b \<in> set bs)" for a b
  proof -
    have "map_option ob (heap n a) = map_option ob (heap m a)" using assms by (simp add: same_but_marks_def)
    then show ?thesis using same_fields(2)[OF assms] by (cases "heap n a"; cases "heap m a") auto
  qed
  then show ?thesis by (simp add: edges_def)
qed

lemma reach_Cons: "reachable m (a # as) = (if a = 0 then {} else (edges m)\<^sup>* `` {a}) \<union> reachable m as"
  by (auto simp: reachable_def)

lemma reach_append: "reachable m (as @ bs) = reachable m as \<union> reachable m bs"
  by (auto simp: reachable_def)

lemma reach_children:
  assumes "heap m a = Some h" "children (ob h) m = Inr bs" "a \<noteq> 0"
  shows "reachable m bs \<subseteq> reachable m (a # as)"
proof -
  have "(a, b) \<in> edges m" if "b \<in> set bs - {0}" for b using assms that by (auto simp: edges_def)
  then show ?thesis using assms(3) unfolding reachable_def
    by (auto intro: converse_rtrancl_into_rtrancl)
qed

text \<open>A walk that ends has marked what it started with, and with every object what that leads to.\<close>

lemma gc_visit_marks:
  "gc_visit as m = Inr n \<Longrightarrow> same_but_marks m n \<and> set as - {0} \<subseteq> Collect (is_marked n) \<and>
    (\<forall>a b. is_marked n a \<and> \<not> is_marked m a \<and> (a, b) \<in> edges m \<longrightarrow> is_marked n b) \<and>
    Collect (is_marked n) \<subseteq> Collect (is_marked m) \<union> reachable m as"
proof (induction as m rule: gc_visit.induct)
  case (1 m)
  then show ?case by auto
next
  case (2 a as m)
  consider "a = 0" | h where "a \<noteq> 0" "heap m a = Some h" "obj_version h = gc_version m"
    | h bs where "a \<noteq> 0" "heap m a = Some h" "obj_version h \<noteq> gc_version m" "children (ob h) (mark a m) = Inr bs"
    using "2.prems" by (auto split: if_splits option.splits sum.splits)
  then show ?case
  proof cases
    case 1
    then show ?thesis using "2.IH"(1) "2.prems" by (simp add: reach_Cons)
  next
    case 2
    then have "is_marked m a" by (simp add: is_marked_def)
    then show ?thesis using "2.IH"(2)[OF 2] "2.prems" 2 marked_mono by (auto simp: reach_Cons)
  next
    case (3 h bs)
    have mm: "same_but_marks m (mark a m)" using 3(2) by (rule mark_same)
    have visit: "gc_visit (bs @ as) (mark a m) = Inr n" using "2.prems" 3 by simp
    note IH = "2.IH"(3)[OF 3(1-4) visit]
    have bs: "children (ob h) m = Inr bs" using 3(4) same_fields(2)[OF mm] by simp
    have now: "is_marked (mark a m) b \<longleftrightarrow> b = a \<or> is_marked m b" for b
      using 3(2) by (auto simp: is_marked_def mark_def)
    have a: "is_marked n a" using marked_mono[OF conjunct1[OF IH]] now by blast
    have sm: "same_but_marks m n" using same_but_marks_trans[OF mm] IH by blast
    have bs_in: "set bs - {0} \<union> (set as - {0}) \<subseteq> Collect (is_marked n)" using IH by auto
    have closed: "is_marked n d" if "is_marked n c" "\<not> is_marked m c" "(c, d) \<in> edges m" for c d
    proof (cases "c = a")
      case True
      then have "d \<in> set bs - {0}" using that(3) 3(2) bs by (auto simp: edges_def)
      then show ?thesis using bs_in by blast
    next
      case False
      then have "\<not> is_marked (mark a m) c" using that(2) now by blast
      then show ?thesis using IH that(1,3) edges_same[OF mm] by metis
    qed
    have r: "reachable (mark a m) (bs @ as) \<subseteq> reachable m (a # as)" "a \<in> reachable m (a # as)"
      using reach_children[OF 3(2) bs 3(1)] reach_append[of m bs as] edges_same[OF mm] 3(1)
      by (auto simp: reachable_def)
    have "x \<in> Collect (is_marked m) \<union> reachable m (a # as)" if "is_marked n x" for x
    proof -
      have "is_marked (mark a m) x \<or> x \<in> reachable (mark a m) (bs @ as)" using IH that by blast
      then show ?thesis using now[of x] r by auto
    qed
    then have "Collect (is_marked n) \<subseteq> Collect (is_marked m) \<union> reachable m (a # as)" by blast
    moreover have "set (a # as) - {0} \<subseteq> Collect (is_marked n)" using a bs_in by auto
    ultimately show ?thesis using sm closed by blast
  qed
qed

lemma gc_visit_reachable:
  assumes "gc_visit as m = Inr n" "\<forall>a. \<not> is_marked m a"
  shows "is_marked n a \<longleftrightarrow> a \<in> reachable m as"
proof
  show "is_marked n a \<Longrightarrow> a \<in> reachable m as" using gc_visit_marks[OF assms(1)] assms(2) by auto
next
  assume "a \<in> reachable m as"
  then obtain b where b: "b \<in> set as - {0}" "(b, a) \<in> (edges m)\<^sup>*" by (auto simp: reachable_def)
  from b(2) show "is_marked n a"
  proof (induction rule: rtrancl_induct)
    case base
    then show ?case using gc_visit_marks[OF assms(1)] b(1) by auto
  next
    case (step y z)
    then show ?case using gc_visit_marks[OF assms(1)] assms(2) by blast
  qed
qed

section \<open>Sweeping\<close>

text \<open>The cells and the states that go with an object.\<close>

fun freed_cells :: "uint_t \<Rightarrow> z_object \<Rightarrow> uint_t set" where
  "freed_cells a (Json_object ps cache) = (if cache = 0 then {a} else {a, cache})"
| "freed_cells a x = {a}"

fun owned_states :: "z_object \<Rightarrow> nat set" where
  "owned_states (Instance_object cls s) = {s}"
| "owned_states x = {}"

lemma free_cell_facts:
  assumes "free_cell a m = Inr n"
  shows "heap n = (heap m)(a := None)" "gc_version n = gc_version m" "freed_states n = freed_states m" "heap m a \<noteq> None"
  using assms by (auto simp: free_cell_def split: if_splits)

lemma gc_free_object_facts:
  assumes "gc_free_object a x m = Inr n"
  shows "heap n b = (if b \<in> freed_cells a x then None else heap m b)" "gc_version n = gc_version m"
    "set (freed_states n) = owned_states x \<union> set (freed_states m)"
proof -
  have "(\<forall>b. heap n b = (if b \<in> freed_cells a x then None else heap m b)) \<and> gc_version n = gc_version m \<and>
    set (freed_states n) = owned_states x \<union> set (freed_states m)"
    using assms unfolding gc_free_object_def free_cell_def
    by (cases x) (auto elim!: ebind_InrE split: if_splits)
  then show "heap n b = (if b \<in> freed_cells a x then None else heap m b)" "gc_version n = gc_version m"
    "set (freed_states n) = owned_states x \<union> set (freed_states m)" by auto
qed

text \<open>The listed objects that are not marked.\<close>

definition dead :: "gc_entry list \<Rightarrow> machine \<Rightarrow> (uint_t \<times> z_object) set" where
  "dead es m = {(a, ob h) | a h. Entry a \<in> set es \<and> heap m a = Some h \<and> obj_version h \<noteq> gc_version m}"

definition freed_by :: "gc_entry list \<Rightarrow> machine \<Rightarrow> uint_t set" where
  "freed_by es m = (\<Union>(a, x) \<in> dead es m. freed_cells a x)"

lemma gc_sweep_facts:
  "gc_sweep es m = Inr (l, n) \<Longrightarrow>
    (\<forall>e \<in> set es. \<exists>a h. e = Entry a \<and> heap m a = Some h) \<and>
    l = filter (\<lambda>e. \<exists>a. e = Entry a \<and> is_marked m a) es \<and>
    (\<forall>b. heap n b = (if b \<in> freed_by es m then None else heap m b)) \<and>
    set (freed_states n) = set (freed_states m) \<union> (\<Union>(a, x) \<in> dead es m. owned_states x)"
proof (induction es m arbitrary: l n rule: gc_sweep.induct)
  case (1 m)
  then show ?case by (simp add: freed_by_def dead_def)
next
  case (2 c i es m)
  then show ?case by simp
next
  case (3 a es m)
  obtain h where h: "heap m a = Some h" using "3.prems" by (auto split: option.splits)
  show ?case
  proof (cases "obj_version h = gc_version m")
    case True
    then obtain l' where l': "gc_sweep es m = Inr (l', n)" "l = Entry a # l'"
      using "3.prems" h by (auto elim!: ebind_InrE)
    have "dead (Entry a # es) m = dead es m" using h True by (auto simp: dead_def)
    then show ?thesis using "3.IH"(2)[OF h _ l'(1)] True h l'(2) by (auto simp: freed_by_def is_marked_def)
  next
    case False
    then obtain m1 where m1: "gc_free_object a (ob h) m = Inr m1" "gc_sweep es m1 = Inr (l, n)"
      using "3.prems" h by (auto elim!: ebind_InrE)
    note free = gc_free_object_facts[OF m1(1)]
    note IH = "3.IH"(1)[OF h False m1]
    have same: "heap m1 b = heap m b" if "Entry b \<in> set es" for b
      using IH that free(1)[of b] by (auto split: if_splits)
    have d: "dead (Entry a # es) m = insert (a, ob h) (dead es m1)"
      using h False same free(2) by (auto simp: dead_def)
    have "filter (\<lambda>e. \<exists>a. e = Entry a \<and> is_marked m1 a) es = filter (\<lambda>e. \<exists>a. e = Entry a \<and> is_marked m a) es"
      using same free(2) by (intro filter_cong refl) (auto simp: is_marked_def)
    moreover have "\<not> is_marked m a" using h False by (simp add: is_marked_def)
    moreover have "heap n b = (if b \<in> freed_by (Entry a # es) m then None else heap m b)" for b
      using IH free(1)[of b] unfolding freed_by_def d by auto
    ultimately show ?thesis using IH h same free(3) unfolding d by auto
  qed
qed

section \<open>What a collection does\<close>

lemma roots_version: 
  "all_state_roots ss (m\<lparr>gc_version := v\<rparr>) = all_state_roots ss m"
  "static_roots ks (m\<lparr>gc_version := v\<rparr>) = static_roots ks m"
  "state_roots s (m\<lparr>gc_version := v\<rparr>) = state_roots s m"
proof -
  show s: "state_roots s (m\<lparr>gc_version := v\<rparr>) = state_roots s m" for s
    by (simp add: state_roots_def get_state_def)
  show "all_state_roots ss (m\<lparr>gc_version := v\<rparr>) = all_state_roots ss m"
    by (induction ss) (simp_all add: s get_state_def)
  show "static_roots ks (m\<lparr>gc_version := v\<rparr>) = static_roots ks m" by (induction ks) (simp_all split: option.splits)
qed

lemma children_version: "children x (m\<lparr>gc_version := v\<rparr>) = children x m"
  by (cases x) (simp_all add: children_def roots_version)

lemma reachable_version: "reachable (m\<lparr>gc_version := v\<rparr>) as = reachable m as"
  by (simp add: reachable_def edges_def children_version)

lemma gc_steps:
  assumes "gc m = Inr n" "\<forall>a h. heap m a = Some h \<longrightarrow> obj_version h \<noteq> gc_version m + 1"
  obtains roots m1 l m2 where "gc_roots m = Inr roots" "same_but_marks (m\<lparr>gc_version := gc_version m + 1\<rparr>) m1"
    "\<And>a. is_marked m1 a \<longleftrightarrow> a \<in> reachable m roots"
    "gc_sweep (gc_objects_list m) m1 = Inr (l, m2)" "n = m2\<lparr>gc_objects_list := l\<rparr>"
proof -
  let ?m = "m\<lparr>gc_version := gc_version m + 1\<rparr>"
  obtain roots m1 l m2 where e: "gc_roots ?m = Inr roots" "gc_visit roots ?m = Inr m1"
    "gc_sweep (gc_objects_list m1) m1 = Inr (l, m2)" "n = m2\<lparr>gc_objects_list := l\<rparr>"
    using assms(1) unfolding gc_def Let_def by (auto elim!: ebind_InrE)
  have "\<forall>a. \<not> is_marked ?m a" using assms(2) by (auto simp: is_marked_def)
  then have "is_marked m1 a \<longleftrightarrow> a \<in> reachable m roots" for a
    using gc_visit_reachable[OF e(2)] reachable_version by simp
  moreover have sm: "same_but_marks ?m m1" using gc_visit_marks[OF e(2)] by blast
  moreover have "gc_roots m = Inr roots" using e(1) by (simp add: gc_roots_def roots_version)
  moreover have "gc_sweep (gc_objects_list m) m1 = Inr (l, m2)" using e(3) same_fields(3)[OF sm] by simp
  ultimately show ?thesis using that e(4) by blast
qed

text \<open>No key list that can still be reached is the cached one of a listed object that cannot.\<close>

definition caches_apart :: "machine \<Rightarrow> uint_t set \<Rightarrow> bool" where
  "caches_apart m live \<longleftrightarrow> (\<forall>b ps c. Entry b \<in> set (gc_objects_list m) \<and> get_object b m = Inr (Json_object ps c) \<and>
     b \<notin> live \<longrightarrow> c \<notin> live)"

definition unmarked_version :: "machine \<Rightarrow> bool" where
  "unmarked_version m \<longleftrightarrow> (\<forall>a h. heap m a = Some h \<longrightarrow> obj_version h \<noteq> gc_version m + 1)"

lemma gc_result:
  assumes "gc m = Inr n" "unmarked_version m" "gc_roots m = Inr roots"
  shows "\<exists>m1. same_but_marks (m\<lparr>gc_version := gc_version m + 1\<rparr>) m1 \<and>
    (\<forall>a. is_marked m1 a \<longleftrightarrow> a \<in> reachable m roots) \<and>
    (\<forall>b. heap n b = (if b \<in> freed_by (gc_objects_list m) m1 then None else heap m1 b)) \<and>
    (\<forall>e \<in> set (gc_objects_list m). \<exists>a h. e = Entry a \<and> heap m1 a = Some h) \<and>
    gc_objects_list n = filter (\<lambda>e. \<exists>a. e = Entry a \<and> is_marked m1 a) (gc_objects_list m) \<and>
    (\<Union>(a, x) \<in> dead (gc_objects_list m) m1. owned_states x) \<subseteq> set (freed_states n)"
proof -
  have v: "\<forall>a h. heap m a = Some h \<longrightarrow> obj_version h \<noteq> gc_version m + 1"
    using assms(2) by (simp add: unmarked_version_def)
  obtain roots' m1 l m2 where s: "gc_roots m = Inr roots'" "same_but_marks (m\<lparr>gc_version := gc_version m + 1\<rparr>) m1"
    "\<And>a. is_marked m1 a \<longleftrightarrow> a \<in> reachable m roots'"
    "gc_sweep (gc_objects_list m) m1 = Inr (l, m2)" "n = m2\<lparr>gc_objects_list := l\<rparr>"
    using gc_steps[OF assms(1) v] by blast
  have "roots' = roots" using s(1) assms(3) by simp
  then show ?thesis using gc_sweep_facts[OF s(4)] s by (intro exI[of _ m1]) auto
qed

lemma object_same:
  assumes "same_but_marks (m\<lparr>gc_version := v\<rparr>) m1"
  shows "map_option ob (heap m1 a) = map_option ob (heap m a)"
  using assms by (simp add: same_but_marks_def)

lemma dead_iff:
  assumes "same_but_marks (m\<lparr>gc_version := v\<rparr>) m1" "\<forall>a. is_marked m1 a \<longleftrightarrow> a \<in> live"
  shows "(a, x) \<in> dead es m1 \<longleftrightarrow> Entry a \<in> set es \<and> a \<notin> live \<and> get_object a m = Inr x"
proof -
  have "map_option ob (heap m1 a) = map_option ob (heap m a)" using assms(1) by (rule object_same)
  moreover have "is_marked m1 a \<longleftrightarrow> a \<in> live" using assms(2) by blast
  ultimately show ?thesis
    by (cases "heap m1 a"; cases "heap m a") (auto simp: dead_def is_marked_def get_object_def)
qed

lemma freed_cases:
  assumes "c \<in> freed_cells a x"
  shows "c = a \<or> (\<exists>ps. x = Json_object ps c)"
  using assms by (cases x) (auto split: if_splits)

lemma live_not_freed:
  assumes "same_but_marks (m\<lparr>gc_version := v\<rparr>) m1" "\<forall>a. is_marked m1 a \<longleftrightarrow> a \<in> live"
    and "caches_apart m live" "a \<in> live"
  shows "a \<notin> freed_by (gc_objects_list m) m1"
proof
  assume "a \<in> freed_by (gc_objects_list m) m1"
  then obtain b x where d: "(b, x) \<in> dead (gc_objects_list m) m1" "a \<in> freed_cells b x" by (auto simp: freed_by_def)
  then have b: "Entry b \<in> set (gc_objects_list m)" "b \<notin> live" "get_object b m = Inr x"
    using dead_iff[OF assms(1,2)] by blast+
  then show False using freed_cases[OF d(2)] assms(3,4) by (auto simp: caches_apart_def)
qed

text \<open>What the walk reaches is kept, everything else that is listed is freed.\<close>

lemma gc_keeps_reached:
  assumes "gc m = Inr n" "unmarked_version m" "gc_roots m = Inr roots" "caches_apart m (reachable m roots)"
  shows "(\<forall>a \<in> reachable m roots. \<exists>x. get_object a m = Inr x \<and> get_object a n = Inr x) \<and>
    (\<forall>a. Entry a \<in> set (gc_objects_list m) \<and> a \<notin> reachable m roots \<longrightarrow> heap n a = None) \<and>
    gc_objects_list n = filter (\<lambda>e. \<exists>a \<in> reachable m roots. e = Entry a) (gc_objects_list m)"
proof -
  obtain m1 where m1: "same_but_marks (m\<lparr>gc_version := gc_version m + 1\<rparr>) m1"
    "\<forall>a. is_marked m1 a \<longleftrightarrow> a \<in> reachable m roots"
    "\<forall>b. heap n b = (if b \<in> freed_by (gc_objects_list m) m1 then None else heap m1 b)"
    "\<forall>e \<in> set (gc_objects_list m). \<exists>a h. e = Entry a \<and> heap m1 a = Some h"
    "gc_objects_list n = filter (\<lambda>e. \<exists>a. e = Entry a \<and> is_marked m1 a) (gc_objects_list m)"
    using gc_result[OF assms(1-3)] by blast
  have live: "\<exists>x. get_object a m = Inr x \<and> get_object a n = Inr x" if a: "a \<in> reachable m roots" for a
  proof -
    have h: "heap n a = heap m1 a" using live_not_freed[OF m1(1,2) assms(4) a] m1(3) by simp
    obtain h1 where h1: "heap m1 a = Some h1" using m1(2) a by (auto simp: is_marked_def)
    have "map_option ob (heap m a) = Some (ob h1)" unfolding object_same[OF m1(1), symmetric] h1 by simp
    then obtain h2 where "heap m a = Some h2" "ob h2 = ob h1" by auto
    then show ?thesis using h h1 by (intro exI[of _ "ob h1"]) (simp add: get_object_def)
  qed
  have freed: "heap n a = None" if a: "Entry a \<in> set (gc_objects_list m)" "a \<notin> reachable m roots" for a
  proof -
    obtain h where "heap m1 a = Some h" using m1(4) a(1) by blast
    then have "(a, ob h) \<in> dead (gc_objects_list m) m1"
      using a m1(2) by (auto simp: dead_def is_marked_def)
    moreover have "a \<in> freed_cells a (ob h)" by (cases "ob h") auto
    ultimately have "a \<in> freed_by (gc_objects_list m) m1" by (auto simp: freed_by_def)
    then show ?thesis using m1(3) by simp
  qed
  have "gc_objects_list n = filter (\<lambda>e. \<exists>a \<in> reachable m roots. e = Entry a) (gc_objects_list m)"
    unfolding m1(5) using m1(2) by (intro filter_cong) auto
  then show ?thesis using live freed by blast
qed

section \<open>What a program can get at\<close>

text \<open>
  Liveness, from the layout of objects and states and not from the collector's walk. A register refers to
  an object unless it holds a number or a native function. In use are the states listed and not removed, and
  those functions and instances run in. \<open>held True\<close> is what can be got at: through the contexts, the
  stack, the synchronized variables and the return value of a state in use, the static variables, the
  functions of started threads, and the locals, links, properties, scopes and states of live objects.
  \<open>held False\<close> leaves out what the collector is known to overlook: locals 0 and 1 (where \<open>this\<close> is),
  synchronized variables, return values, static variables that are not enumerable, started threads.
\<close>

definition refers :: "z_reg \<Rightarrow> uint_t \<Rightarrow> bool" where
  "refers r a \<longleftrightarrow> a \<noteq> 0 \<and> val r = a \<and> rtype r \<noteq> RT_NUMBER \<and> rtype r \<noteq> RT_NATIVE_FUNC"

inductive held :: "bool \<Rightarrow> machine \<Rightarrow> uint_t \<Rightarrow> bool"
  and in_use :: "bool \<Rightarrow> machine \<Rightarrow> nat \<Rightarrow> bool" for all m where
  listed_state: "s \<in> set (interpreter_states_list m) \<Longrightarrow> get_state s m = Inr st \<Longrightarrow> \<not> removed_as_a_root st \<Longrightarrow>
    in_use all m s"
| instance_state: "held all m a \<Longrightarrow> get_object a m = Inr (Instance_object cls s) \<Longrightarrow> in_use all m s"
| function_state: "held all m a \<Longrightarrow> get_object a m = Inr (Function_object start is_async parent s) \<Longrightarrow> in_use all m s"
| current: "in_use all m s \<Longrightarrow> get_state s m = Inr st \<Longrightarrow> current_context st \<noteq> 0 \<Longrightarrow> held all m (current_context st)"
| root: "in_use all m s \<Longrightarrow> get_state s m = Inr st \<Longrightarrow> root_context st \<noteq> 0 \<Longrightarrow> held all m (root_context st)"
| stacked: "in_use all m s \<Longrightarrow> get_state s m = Inr st \<Longrightarrow> 1 \<le> i \<Longrightarrow> int i \<le> stack_ptr st \<Longrightarrow>
    (stacks m ! stack_start st) i = Some r \<Longrightarrow> refers r a \<Longrightarrow> held all m a"
| synchronized: "all \<Longrightarrow> in_use all m s \<Longrightarrow> get_state s m = Inr st \<Longrightarrow>
    map_get (syncs m ! synchronized_variables st) x = Some r \<Longrightarrow> refers r a \<Longrightarrow> held all m a"
| returned: "all \<Longrightarrow> in_use all m s \<Longrightarrow> get_state s m = Inr st \<Longrightarrow> return_value st = Some r \<Longrightarrow> refers r a \<Longrightarrow> held all m a"
| static: "k \<in> set (known_types_list m) \<Longrightarrow> known_types m k = Some t \<Longrightarrow> map_get (static_variables t) x = Some r \<Longrightarrow>
    all \<or> x \<in> set (map_key_list (static_variables t)) \<Longrightarrow> refers r a \<Longrightarrow> held all m a"
| started: "all \<Longrightarrow> t \<in> set (threads m) \<Longrightarrow> as_function t \<noteq> 0 \<Longrightarrow> held all m (as_function t)"
| local: "held all m c \<Longrightarrow> get_object c m = Inr (Context y) \<Longrightarrow> locals y = Some ls \<Longrightarrow> i < length ls \<Longrightarrow>
    all \<or> 2 \<le> i \<Longrightarrow> refers (ls ! i) a \<Longrightarrow> held all m a"
| outer: "held all m c \<Longrightarrow> get_object c m = Inr (Context y) \<Longrightarrow> parent_context y \<noteq> 0 \<Longrightarrow> held all m (parent_context y)"
| caller: "held all m c \<Longrightarrow> get_object c m = Inr (Context y) \<Longrightarrow> return_context y \<noteq> 0 \<Longrightarrow> held all m (return_context y)"
| scope: "held all m f \<Longrightarrow> get_object f m = Inr (Function_object start is_async parent s) \<Longrightarrow> parent \<noteq> 0 \<Longrightarrow>
    held all m parent"
| property: "held all m b \<Longrightarrow> get_object b m = Inr (Json_object ps cache) \<Longrightarrow> Some vs \<in> set (vbags ps) \<Longrightarrow>
    r \<in> set vs \<Longrightarrow> refers r a \<Longrightarrow> held all m a"

text \<open>Whatever is live is also referred to from a place the collector looks at.\<close>

definition nothing_overlooked :: "machine \<Rightarrow> bool" where
  "nothing_overlooked m \<longleftrightarrow> (\<forall>a. held True m a \<longrightarrow> held False m a)"

lemma held_more:
  "held False m a \<Longrightarrow> held True m a" "in_use False m s \<Longrightarrow> in_use True m s"
  by (induction rule: held_in_use.inducts) (auto intro: held_in_use.intros)

lemma in_register_refs: "a \<in> set (register_refs rs) - {0} \<longleftrightarrow> (\<exists>r \<in> set rs. refers r a)"
  by (auto simp: register_refs_def refers_def)

lemma in_stack_registers:
  "stack_registers stk i n = Inr rs \<Longrightarrow> r \<in> set rs \<longleftrightarrow> (\<exists>j. i \<le> j \<and> j < i + n \<and> stk j = Some r)"
proof (induction stk i n arbitrary: rs rule: stack_registers.induct)
  case (1 stk i)
  then show ?case by auto
next
  case (2 stk i n)
  from "2.prems" obtain x xs where x: "stk i = Some x" "stack_registers stk (i + 1) n = Inr xs" "rs = x # xs"
    by (auto elim!: ebind_InrE split: option.splits)
  have "i \<le> j \<and> j < i + Suc n \<longleftrightarrow> j = i \<or> i + 1 \<le> j \<and> j < i + 1 + n" for j by linarith
  then have "(\<exists>j. i \<le> j \<and> j < i + Suc n \<and> stk j = Some r) \<longleftrightarrow> r = x \<or> (\<exists>j. i + 1 \<le> j \<and> j < i + 1 + n \<and> stk j = Some r)"
    using x(1) by (simp only: conj_assoc[symmetric] conj_disj_distribR ex_disj_distrib) auto
  then show ?case using "2.IH"[OF x(1,2)] x(3) by simp
qed

lemma in_map_values: "r \<in> set (map_values t) \<longleftrightarrow> (\<exists>vs. Some vs \<in> set (vbags t) \<and> r \<in> set vs)"
  unfolding map_values_def by (force split: option.splits)

lemma state_rootsE:
  assumes "state_roots s m = Inr as"
  obtains st rs where "get_state s m = Inr st"
    "stack_registers (stacks m ! stack_start st) 1 (nat (stack_ptr st)) = Inr rs"
    "as = current_context st # root_context st # register_refs rs"
  using assms by (auto simp: state_roots_def elim!: ebind_InrE split: if_splits)

text \<open>The addresses a state in use leads to.\<close>

lemma in_state_roots:
  assumes "state_roots s m = Inr as" "get_state s m = Inr st"
  shows "a \<in> set as - {0} \<longleftrightarrow> a \<noteq> 0 \<and> (a = current_context st \<or> a = root_context st \<or>
    (\<exists>i r. 1 \<le> i \<and> int i \<le> stack_ptr st \<and> (stacks m ! stack_start st) i = Some r \<and> refers r a))"
proof -
  obtain rs where rs: "stack_registers (stacks m ! stack_start st) 1 (nat (stack_ptr st)) = Inr rs"
    "as = current_context st # root_context st # register_refs rs"
    by (rule state_rootsE[OF assms(1)]) (use assms(2) in auto)
  have n: "1 \<le> j \<and> j < 1 + nat (stack_ptr st) \<longleftrightarrow> 1 \<le> j \<and> int j \<le> stack_ptr st" for j by linarith
  have "r \<in> set rs \<longleftrightarrow> (\<exists>i. 1 \<le> i \<and> int i \<le> stack_ptr st \<and> (stacks m ! stack_start st) i = Some r)" for r
    unfolding in_stack_registers[OF rs(1)] conj_assoc[symmetric] n ..
  then have "a \<in> set (register_refs rs) - {0} \<longleftrightarrow>
      (\<exists>i r. 1 \<le> i \<and> int i \<le> stack_ptr st \<and> (stacks m ! stack_start st) i = Some r \<and> refers r a)"
    unfolding in_register_refs by blast
  then show ?thesis unfolding rs(2) by auto
qed

lemma state_roots_held:
  assumes "in_use all m s" "state_roots s m = Inr as"
  shows "\<forall>a \<in> set as - {0}. held all m a"
proof -
  obtain st where st: "get_state s m = Inr st" using state_rootsE[OF assms(2)] by metis
  show ?thesis
  proof
    fix a assume "a \<in> set as - {0}"
    then consider "a \<noteq> 0" "a = current_context st" | "a \<noteq> 0" "a = root_context st"
      | i r where "1 \<le> i" "int i \<le> stack_ptr st" "(stacks m ! stack_start st) i = Some r" "refers r a"
      unfolding in_state_roots[OF assms(2) st] by blast
    then show "held all m a"
      by cases (auto intro: held_in_use.current[OF assms(1) st] held_in_use.root[OF assms(1) st]
        held_in_use.stacked[OF assms(1) st])
  qed
qed

section \<open>The walk reaches it\<close>

lemma in_all_state_roots:
  assumes "all_state_roots ss m = Inr as"
  shows "a \<in> set as \<longleftrightarrow> (\<exists>s \<in> set ss. \<exists>st bs. get_state s m = Inr st \<and> \<not> removed_as_a_root st \<and>
      state_roots s m = Inr bs \<and> a \<in> set bs)"
    and "s \<in> set ss \<Longrightarrow> get_state s m = Inr st \<Longrightarrow> \<not> removed_as_a_root st \<Longrightarrow> \<exists>bs. state_roots s m = Inr bs"
proof -
  have "(a \<in> set as \<longleftrightarrow> (\<exists>s \<in> set ss. \<exists>st bs. get_state s m = Inr st \<and> \<not> removed_as_a_root st \<and>
      state_roots s m = Inr bs \<and> a \<in> set bs)) \<and>
    (\<forall>s \<in> set ss. \<forall>st. get_state s m = Inr st \<and> \<not> removed_as_a_root st \<longrightarrow> (\<exists>bs. state_roots s m = Inr bs))"
    using assms
  proof (induction ss m arbitrary: as rule: all_state_roots.induct)
    case (1 m)
    then show ?case by auto
  next
    case (2 s ss m)
    from "2.prems" obtain st bs cs where s: "s \<notin> set (freed_states m)" "get_state s m = Inr st"
      "(if removed_as_a_root st then Inr [] else state_roots s m) = Inr bs" "all_state_roots ss m = Inr cs" "as = bs @ cs"
      by (auto elim!: ebind_InrE split: if_splits)
    note IH = "2.IH"[OF s(1,2,3,4)]
    show ?case using IH s by (cases "removed_as_a_root st") auto
  qed
  then show "a \<in> set as \<longleftrightarrow> (\<exists>s \<in> set ss. \<exists>st bs. get_state s m = Inr st \<and> \<not> removed_as_a_root st \<and>
      state_roots s m = Inr bs \<and> a \<in> set bs)"
    "s \<in> set ss \<Longrightarrow> get_state s m = Inr st \<Longrightarrow> \<not> removed_as_a_root st \<Longrightarrow> \<exists>bs. state_roots s m = Inr bs"
    by blast+
qed

lemma in_static_roots:
  assumes "static_roots ks m = Inr as"
  shows "a \<in> set as - {0} \<longleftrightarrow> (\<exists>k \<in> set ks. \<exists>t x r. known_types m k = Some t \<and>
      x \<in> set (map_key_list (static_variables t)) \<and> map_get (static_variables t) x = Some r \<and> refers r a)"
  using assms
proof (induction ks m arbitrary: as rule: static_roots.induct)
  case (1 m)
  then show ?case by auto
next
  case (2 k ks m)
  from "2.prems" obtain t bs where t: "known_types m k = Some t"
    "None \<notin> set (map (map_get (static_variables t)) (map_key_list (static_variables t)))"
    "static_roots ks m = Inr bs"
    "as = register_refs (map the (map (map_get (static_variables t)) (map_key_list (static_variables t)))) @ bs"
    by (auto simp: Let_def elim!: ebind_InrE split: option.splits if_splits)
  let ?xs = "map_key_list (static_variables t)"
  have all: "\<exists>r. map_get (static_variables t) x = Some r" if "x \<in> set ?xs" for x using t(2) that by force
  have "a \<in> set (register_refs (map the (map (map_get (static_variables t)) ?xs))) - {0} \<longleftrightarrow>
      (\<exists>x r. x \<in> set ?xs \<and> map_get (static_variables t) x = Some r \<and> refers r a)"
  proof -
    have "(\<exists>r \<in> set (map the (map (map_get (static_variables t)) ?xs)). refers r a) \<longleftrightarrow>
        (\<exists>x \<in> set ?xs. refers (the (map_get (static_variables t) x)) a)" by simp
    also have "\<dots> \<longleftrightarrow> (\<exists>x r. x \<in> set ?xs \<and> map_get (static_variables t) x = Some r \<and> refers r a)"
      using all by (metis option.sel)
    finally show ?thesis unfolding in_register_refs .
  qed
  moreover have "a \<in> set bs - {0} \<longleftrightarrow> (\<exists>k \<in> set ks. \<exists>t x r. known_types m k = Some t \<and>
      x \<in> set (map_key_list (static_variables t)) \<and> map_get (static_variables t) x = Some r \<and> refers r a)"
    using "2.IH"[OF t(1) refl t(2,3)] by simp
  ultimately show ?case using t(1,4) by auto
qed

text \<open>A collection that ends has found what every object it marked leads to.\<close>

lemma gc_visit_children:
  "gc_visit as m = Inr n \<Longrightarrow> is_marked n a \<Longrightarrow> \<not> is_marked m a \<Longrightarrow>
   \<exists>h bs. heap m a = Some h \<and> children (ob h) m = Inr bs"
proof (induction as m rule: gc_visit.induct)
  case (1 m)
  then show ?case by simp
next
  case (2 b as m)
  consider "b = 0" | h where "b \<noteq> 0" "heap m b = Some h" "obj_version h = gc_version m"
    | h bs where "b \<noteq> 0" "heap m b = Some h" "obj_version h \<noteq> gc_version m" "children (ob h) (mark b m) = Inr bs"
    using "2.prems"(1) by (auto split: if_splits option.splits sum.splits)
  then show ?case
  proof cases
    case 1
    then show ?thesis using "2.IH"(1) "2.prems" by simp
  next
    case 2
    then show ?thesis using "2.IH"(2)[OF 2] "2.prems" by simp
  next
    case (3 h bs)
    have mm: "same_but_marks m (mark b m)" using 3(2) by (rule mark_same)
    show ?thesis
    proof (cases "a = b")
      case True
      then show ?thesis using 3(2,4) same_fields(2)[OF mm] by auto
    next
      case False
      then have same: "heap (mark b m) a = heap m a" "\<not> is_marked (mark b m) a"
        using "2.prems"(3) by (simp_all add: mark_def is_marked_def)
      have "gc_visit (bs @ as) (mark b m) = Inr n" using "2.prems"(1) 3 by simp
      from "2.IH"(3)[OF 3(1-4) this "2.prems"(2) same(2)] show ?thesis
        using same(1) same_fields(2)[OF mm] by auto
    qed
  qed
qed

lemma get_object_heap: "get_object a m = Inr x \<longleftrightarrow> (\<exists>h. heap m a = Some h \<and> ob h = x)"
  by (auto simp: get_object_def split: option.splits)

text \<open>What an object leads to, by its kind.\<close>

lemma children_held:
  assumes "held False m a" "get_object a m = Inr x" "children x m = Inr bs" "b \<in> set bs - {0}"
  shows "held False m b"
proof (cases x)
  case (Context c)
  note obj = assms(2)[unfolded Context]
  have "b \<in> set (register_refs (case locals c of None \<Rightarrow> [] | Some ls \<Rightarrow> drop 2 ls)) - {0} \<or>
      b \<noteq> 0 \<and> (b = parent_context c \<or> b = return_context c)"
    using assms(3,4) Context by (auto simp: children_def)
  then show ?thesis
  proof (elim disjE conjE)
    assume "b \<in> set (register_refs (case locals c of None \<Rightarrow> [] | Some ls \<Rightarrow> drop 2 ls)) - {0}"
    then obtain ls r where l: "locals c = Some ls" "r \<in> set (drop 2 ls)" "refers r b"
      unfolding in_register_refs by (cases "locals c") auto
    then obtain j where "j < length (drop 2 ls)" "r = drop 2 ls ! j" by (metis in_set_conv_nth)
    then show ?thesis using held_in_use.local[OF assms(1) obj l(1), of "2 + j" b] l(3) by simp
  qed (use held_in_use.outer[OF assms(1) obj] held_in_use.caller[OF assms(1) obj] in auto)
next
  case (Function_object start is_async parent s)
  note obj = assms(2)[unfolded Function_object]
  obtain as where as: "state_roots s m = Inr as" "b = parent \<or> b \<in> set as"
    using assms(3,4) Function_object by (auto simp: children_def elim!: ebind_InrE)
  then show ?thesis
    using state_roots_held[OF held_in_use.function_state[OF assms(1) obj] as(1)]
      held_in_use.scope[OF assms(1) obj] assms(4) by auto
next
  case (Instance_object cls s)
  note obj = assms(2)[unfolded Instance_object]
  show ?thesis
    using state_roots_held[OF held_in_use.instance_state[OF assms(1) obj]] assms(3,4) Instance_object
    by (simp add: children_def)
next
  case (Json_object ps cache)
  note obj = assms(2)[unfolded Json_object]
  have "b \<in> set (register_refs (map_values ps)) - {0}" using assms(3,4) Json_object by (simp add: children_def)
  then obtain r vs where "Some vs \<in> set (vbags ps)" "r \<in> set vs" "refers r b"
    unfolding in_register_refs using in_map_values[of _ ps] by blast
  then show ?thesis by (rule held_in_use.property[OF assms(1) obj])
qed (use assms(3,4) in \<open>simp_all add: children_def\<close>)

lemma roots_held:
  assumes "gc_roots m = Inr roots" "a \<in> set roots - {0}"
  shows "held False m a"
proof -
  obtain as bs where r: "all_state_roots (interpreter_states_list m) m = Inr as"
    "static_roots (known_types_list m) m = Inr bs" "roots = as @ bs"
    using assms(1) by (auto simp: gc_roots_def elim!: ebind_InrE)
  consider "a \<in> set as" "a \<noteq> 0" | "a \<in> set bs - {0}" using assms(2) r(3) by auto
  then show ?thesis
  proof cases
    case 1
    then obtain s st cs where s: "s \<in> set (interpreter_states_list m)" "get_state s m = Inr st" "\<not> removed_as_a_root st"
      "state_roots s m = Inr cs" "a \<in> set cs" using in_all_state_roots(1)[OF r(1)] by blast
    then show ?thesis using state_roots_held[OF held_in_use.listed_state[OF s(1-3)] s(4)] 1(2) by auto
  next
    case 2
    then obtain k t x r where "k \<in> set (known_types_list m)" "known_types m k = Some t"
      "map_get (static_variables t) x = Some r" "x \<in> set (map_key_list (static_variables t))" "refers r a"
      unfolding in_static_roots[OF r(2)] by blast
    then show ?thesis by (blast intro: held_in_use.static)
  qed
qed

lemma reached_held:
  assumes "gc_roots m = Inr roots" "a \<in> reachable m roots"
  shows "held False m a"
proof -
  from assms(2) obtain b where b: "b \<in> set roots - {0}" "(b, a) \<in> (edges m)\<^sup>*" by (auto simp: reachable_def)
  from b(2) show ?thesis
  proof (induction rule: rtrancl_induct)
    case base
    then show ?case using roots_held[OF assms(1) b(1)] .
  next
    case (step y z)
    then show ?case using children_held[OF step.IH] by (auto simp: edges_def get_object_heap)
  qed
qed

text \<open>The other way round: nothing that is held is missed, as long as every visit is possible.\<close>

lemma held_reached:
  assumes "gc_roots m = Inr roots"
    and "\<And>a. a \<in> reachable m roots \<Longrightarrow> \<exists>h bs. heap m a = Some h \<and> children (ob h) m = Inr bs"
  shows "held False m a \<Longrightarrow> a \<in> reachable m roots"
    "in_use False m s \<Longrightarrow> \<exists>as. state_roots s m = Inr as \<and> set as - {0} \<subseteq> reachable m roots"
proof (induction rule: held_in_use.inducts)
  obtain as bs where r: "all_state_roots (interpreter_states_list m) m = Inr as"
    "static_roots (known_types_list m) m = Inr bs" "roots = as @ bs"
    using assms(1) by (auto simp: gc_roots_def elim!: ebind_InrE)
  have root: "set roots - {0} \<subseteq> reachable m roots" by (auto simp: reachable_def)
  have step: "set bs - {0} \<subseteq> reachable m roots"
    if "a \<in> reachable m roots" "get_object a m = Inr x" "children x m = Inr bs" for a x bs
  proof -
    have "(a, b) \<in> edges m" if "b \<in> set bs - {0}" for b
      using that \<open>get_object a m = Inr x\<close> \<open>children x m = Inr bs\<close> by (auto simp: edges_def get_object_heap)
    then show ?thesis using \<open>a \<in> reachable m roots\<close> by (auto simp: reachable_def intro: rtrancl_into_rtrancl)
  qed
  have found: "\<exists>bs. children x m = Inr bs" if "a \<in> reachable m roots" "get_object a m = Inr x" for a x
    using assms(2)[OF that(1)] that(2) by (auto simp: get_object_heap)
  have into_state: "a \<in> reachable m roots"
    if "\<exists>as. state_roots s m = Inr as \<and> set as - {0} \<subseteq> reachable m roots" "get_state s m = Inr st" "a \<noteq> 0"
      "a = current_context st \<or> a = root_context st \<or>
       (\<exists>i r. 1 \<le> i \<and> int i \<le> stack_ptr st \<and> (stacks m ! stack_start st) i = Some r \<and> refers r a)" for s st a
    using that in_state_roots[OF _ that(2)] by blast
  {
    case (listed_state s st)
    then obtain bs where "state_roots s m = Inr bs" using in_all_state_roots(2)[OF r(1)] by blast
    moreover have "set bs \<subseteq> set as" using in_all_state_roots(1)[OF r(1)] listed_state calculation by blast
    ultimately show ?case using root r(3) by auto
  next
    case (instance_state a cls s)
    then show ?case using found[of a] step[of a] by (auto simp: children_def)
  next
    case (function_state a start is_async parent s)
    then obtain as where "state_roots s m = Inr as" "children (Function_object start is_async parent s) m = Inr (parent # as)"
      using found[of a] by (auto simp: children_def elim!: ebind_InrE)
    then show ?case using step[OF function_state(2,3)] by force
  next
    case (current s st)
    then show ?case using into_state by blast
  next
    case (root s st)
    then show ?case using into_state by blast
  next
    case (stacked s st i r a)
    then show ?case using into_state[of s st a] by (auto simp: refers_def)
  next
    case (synchronized s st x r a)
    then show ?case by simp
  next
    case (returned s st r a)
    then show ?case by simp
  next
    case (static k t x r a)
    then have "a \<in> set bs - {0}" unfolding in_static_roots[OF \<open>static_roots (known_types_list m) m = Inr bs\<close>] by blast
    then show ?case using \<open>set roots - {0} \<subseteq> reachable m roots\<close> \<open>roots = as @ bs\<close> by auto
  next
    case (started t)
    then show ?case by simp
  next
    case (local c y ls i a)
    then have "drop 2 ls ! (i - 2) = ls ! i" "i - 2 < length (drop 2 ls)" by (simp_all add: le_add_diff_inverse del: add_2_eq_Suc)
    then have "ls ! i \<in> set (drop 2 ls)" by (metis nth_mem)
    then have "a \<in> set (register_refs (drop 2 ls)) - {0}" unfolding in_register_refs using local by blast
    then show ?case using step[of c "Context y"] local by (auto simp: children_def)
  next
    case (outer c y)
    then show ?case using step[of c "Context y"] by (auto simp: children_def)
  next
    case (caller c y)
    then show ?case using step[of c "Context y"] by (auto simp: children_def)
  next
    case (scope f start is_async parent s)
    then obtain bs where "children (Function_object start is_async parent s) m = Inr bs" "parent \<in> set bs"
      using found[of f] by (auto simp: children_def elim!: ebind_InrE)
    then show ?case using step[of f] scope by auto
  next
    case (property b ps cache vs r a)
    then have "a \<in> set (register_refs (map_values ps)) - {0}"
      unfolding in_register_refs using in_map_values[of r ps] by blast
    moreover have "children (Json_object ps cache) m = Inr (register_refs (map_values ps))" by (simp add: children_def)
    ultimately show ?case using step[OF property(2,3)] by blast
  }
qed

lemma gc_visits:
  assumes "gc m = Inr n" "unmarked_version m"
  shows "\<exists>roots. gc_roots m = Inr roots \<and>
    (\<forall>a \<in> reachable m roots. \<exists>h bs. heap m a = Some h \<and> children (ob h) m = Inr bs)"
proof -
  let ?m = "m\<lparr>gc_version := gc_version m + 1\<rparr>"
  obtain roots m1 where e: "gc_roots ?m = Inr roots" "gc_visit roots ?m = Inr m1"
    using assms(1) unfolding gc_def Let_def by (auto elim!: ebind_InrE)
  have u: "\<forall>a. \<not> is_marked ?m a" using assms(2) by (auto simp: is_marked_def unmarked_version_def)
  have "gc_roots m = Inr roots" using e(1) by (simp add: gc_roots_def roots_version)
  moreover have "\<exists>h bs. heap m a = Some h \<and> children (ob h) m = Inr bs" if "a \<in> reachable m roots" for a
    using gc_visit_children[OF e(2)] gc_visit_reachable[OF e(2) u] u that by (simp add: reachable_version children_version)
  ultimately show ?thesis by blast
qed

text \<open>
  C16: a collection that ends, on a machine where no object carries the mark of the new version yet, keeps
  every live object with its contents, frees every other listed object and leaves exactly the live ones on
  the list, provided that whatever is live is also referred to from a place the collector looks at
  (\<open>nothing_overlooked\<close>; local 1, \<open>this\<close>, is no such place) and that no live key list is cached by an object
  that is freed.
\<close>

theorem gc_keeps_live:
  assumes "gc m = Inr n" "unmarked_version m" "nothing_overlooked m" "caches_apart m (Collect (held True m))"
  shows "(\<forall>a. held True m a \<longrightarrow> (\<exists>x. get_object a m = Inr x \<and> get_object a n = Inr x)) \<and>
    (\<forall>a. Entry a \<in> set (gc_objects_list m) \<and> \<not> held True m a \<longrightarrow> heap n a = None) \<and>
    gc_objects_list n = filter (\<lambda>e. \<exists>a. held True m a \<and> e = Entry a) (gc_objects_list m)"
proof -
  obtain roots where roots: "gc_roots m = Inr roots"
    "\<And>a. a \<in> reachable m roots \<Longrightarrow> \<exists>h bs. heap m a = Some h \<and> children (ob h) m = Inr bs"
    using gc_visits[OF assms(1,2)] by blast
  have "a \<in> reachable m roots \<longleftrightarrow> held True m a" for a
    using reached_held[OF roots(1)] held_reached(1)[OF roots] held_more(1) assms(3) unfolding nothing_overlooked_def by blast
  then have live: "reachable m roots = Collect (held True m)" by blast
  show ?thesis
    using gc_keeps_reached[OF assms(1,2) roots(1)] assms(4) unfolding live by (auto simp: conj_commute)
qed

text \<open>
  C35: an instance that only its own methods still refer to, through \<open>this\<close>, is not reached, since the
  walk leaves out local 1: its state is freed although a function that can be reached will run in it.
\<close>

theorem gc_frees_state_of_live_function:
  assumes "gc m = Inr n" "unmarked_version m" "gc_roots m = Inr roots" "caches_apart m (reachable m roots)"
    and "f \<in> reachable m roots" "get_object f m = Inr (Function_object start is_async parent s)"
    and "Entry b \<in> set (gc_objects_list m)" "get_object b m = Inr (Instance_object cls s)" "b \<notin> reachable m roots"
  shows "get_object f n = Inr (Function_object start is_async parent s) \<and> s \<in> set (freed_states n)"
proof -
  obtain m1 where m1: "same_but_marks (m\<lparr>gc_version := gc_version m + 1\<rparr>) m1"
    "\<forall>a. is_marked m1 a \<longleftrightarrow> a \<in> reachable m roots"
    "\<forall>b. heap n b = (if b \<in> freed_by (gc_objects_list m) m1 then None else heap m1 b)"
    "(\<Union>(a, x) \<in> dead (gc_objects_list m) m1. owned_states x) \<subseteq> set (freed_states n)"
    using gc_result[OF assms(1-3)] by blast
  have "(b, Instance_object cls s) \<in> dead (gc_objects_list m) m1"
    using dead_iff[OF m1(1,2)] assms(7-9) by blast
  then have "s \<in> set (freed_states n)" by (intro subsetD[OF m1(4)] UN_I[of "(b, Instance_object cls s)"]) auto
  moreover have "heap n f = heap m1 f" using live_not_freed[OF m1(1,2) assms(4,5)] m1(3) by simp
  moreover have "map_option ob (heap m1 f) = Some (Function_object start is_async parent s)"
    unfolding object_same[OF m1(1)] using assms(6) by (simp add: get_object_def split: option.splits)
  ultimately show ?thesis by (auto simp: get_object_def)
qed

text \<open>
  Freeing an object frees the key list it has cached, although the list may still be reached from
  elsewhere.
\<close>

lemma gc_frees_live_key_list:
  assumes "gc m = Inr n" "unmarked_version m" "gc_roots m = Inr roots"
    and "Entry b \<in> set (gc_objects_list m)" "get_object b m = Inr (Json_object ps c)" "b \<notin> reachable m roots"
    and "c \<in> reachable m roots" "c \<noteq> 0"
  shows "heap n c = None"
proof -
  obtain m1 where m1: "same_but_marks (m\<lparr>gc_version := gc_version m + 1\<rparr>) m1"
    "\<forall>a. is_marked m1 a \<longleftrightarrow> a \<in> reachable m roots"
    "\<forall>b. heap n b = (if b \<in> freed_by (gc_objects_list m) m1 then None else heap m1 b)"
    using gc_result[OF assms(1-3)] by blast
  have "(b, Json_object ps c) \<in> dead (gc_objects_list m) m1" using dead_iff[OF m1(1,2)] assms(4-6) by blast
  then have "c \<in> freed_by (gc_objects_list m) m1" 
    using assms(8) unfolding freed_by_def by (intro UN_I[of "(b, Json_object ps c)"]) auto
  then show ?thesis using m1(3) by simp
qed

section \<open>Machines\<close>

text \<open>
  Local 2 of the only running state refers to a method of the instance at 256; the instance itself is
  in local 1 of its own root context only.
\<close>

definition plain_state :: "uint_t \<Rightarrow> istate" where
  "plain_state c = \<lparr>current_context = c, root_context = c, byte_stream = [], class_name = ''A'',
     exception_details = None, synchronized_variables = 0, return_code = False, instruction_pointer = 0,
     return_value = None, stack_ptr = 0, stack_start = 0, is_running = False, removed_as_a_root = False\<rparr>"

definition gc_machine :: "(uint_t \<Rightarrow> hobj option) \<Rightarrow> gc_entry list \<Rightarrow> machine" where
  "gc_machine h es = \<lparr>heap = h, object_count = 10, gc_at = 100, states = [plain_state 64, plain_state 192], syncs = [map_new],
     stacks = [Map.empty], known_types = Map.empty, known_types_list = [], string_properties = map_new,
     gc_objects_list = es, interpreter_states_list = [0], gc_version = 0, freed_states = [], threads = [],
     printed = [], stdin = ''''\<rparr>"

definition context_with :: "z_reg list \<Rightarrow> hobj" where
  "context_with ls = \<lparr>obj_version = 0, ob = Context (empty_ctx\<lparr>locals := Some ls\<rparr>)\<rparr>"

definition method_machine :: machine where
  "method_machine = gc_machine
     [64 \<mapsto> context_with [zero_reg, zero_reg, \<lparr>rtype = RT_FUNCTION_REF, val = 128\<rparr>],
      128 \<mapsto> \<lparr>obj_version = 0, ob = Function_object 0 0 192 1\<rparr>,
      192 \<mapsto> context_with [zero_reg, \<lparr>rtype = RT_INSTANCE, val = 256\<rparr>],
      256 \<mapsto> \<lparr>obj_version = 0, ob = Instance_object (Some ''B'') 1\<rparr>] [Entry 128, Entry 256]"

text \<open>Local 2 refers to the key list of an object that nothing refers to any more.\<close>

definition key_list_machine :: machine where
  "key_list_machine = gc_machine
     [64 \<mapsto> context_with [zero_reg, zero_reg, \<lparr>rtype = RT_OBJ, val = 128\<rparr>],
      128 \<mapsto> \<lparr>obj_version = 0, ob = Json_object map_new 0\<rparr>,
      192 \<mapsto> \<lparr>obj_version = 0, ob = Json_object map_new 128\<rparr>] [Entry 192]"

lemma reachable_closed:
  assumes "set as - {0} \<subseteq> S" "edges m `` S \<subseteq> S"
  shows "reachable m as \<subseteq> S"
proof
  fix a assume "a \<in> reachable m as"
  then obtain b where b: "b \<in> set as - {0}" "(b, a) \<in> (edges m)\<^sup>*" by (auto simp: reachable_def)
  from b(2) show "a \<in> S" by (induction rule: rtrancl_induct) (use assms b(1) in auto)
qed

lemma edgeI:
  "heap m a = Some h \<Longrightarrow> children (ob h) m = Inr bs \<Longrightarrow> b \<in> set bs \<Longrightarrow> b \<noteq> 0 \<Longrightarrow> (a, b) \<in> edges m"
  by (auto simp: edges_def)

lemma method_children:
  "children (Context (empty_ctx\<lparr>locals := Some [zero_reg, zero_reg, \<lparr>rtype = RT_FUNCTION_REF, val = 128\<rparr>]\<rparr>)) method_machine = Inr [128, 0, 0]"
  "children (Function_object 0 0 192 1) method_machine = Inr [192, 192, 192]"
  "children (Context (empty_ctx\<lparr>locals := Some [zero_reg, \<lparr>rtype = RT_INSTANCE, val = 256\<rparr>]\<rparr>)) method_machine = Inr [0, 0]"
  by code_simp+

lemma method_reach: "128 \<in> reachable method_machine [64, 64]" "reachable method_machine [64, 64] \<subseteq> {64, 128, 192}"
proof -
  have "(64, 128) \<in> edges method_machine"
    by (rule edgeI[OF _ _ _, of _ _ "context_with [zero_reg, zero_reg, \<lparr>rtype = RT_FUNCTION_REF, val = 128\<rparr>]" "[128, 0, 0]"])
      (simp_all add: method_machine_def[THEN arg_cong, of heap] gc_machine_def context_with_def method_children)
  then show "128 \<in> reachable method_machine [64, 64]" by (auto simp: reachable_def)
  show "reachable method_machine [64, 64] \<subseteq> {64, 128, 192}"
  proof (rule reachable_closed)
    have h: "heap method_machine 64 = Some (context_with [zero_reg, zero_reg, \<lparr>rtype = RT_FUNCTION_REF, val = 128\<rparr>])"
      "heap method_machine 128 = Some \<lparr>obj_version = 0, ob = Function_object 0 0 192 1\<rparr>"
      "heap method_machine 192 = Some (context_with [zero_reg, \<lparr>rtype = RT_INSTANCE, val = 256\<rparr>])"
      by (simp_all add: method_machine_def gc_machine_def)
    show "edges method_machine `` {64, 128, 192} \<subseteq> {64, 128, 192}"
      by (auto simp: edges_def h context_with_def method_children simp del: One_nat_def)
  qed auto
qed

lemma method_gc:
  obtains n where "gc method_machine = Inr n" "unmarked_version method_machine" "gc_roots method_machine = Inr [64, 64]"
    "caches_apart method_machine (reachable method_machine [64, 64])"
proof -
  have "\<not> isl (gc method_machine)" by code_simp
  then obtain n where "gc method_machine = Inr n" by (cases "gc method_machine") auto
  moreover have "unmarked_version method_machine"
    by (auto simp: unmarked_version_def method_machine_def gc_machine_def context_with_def split: if_splits)
  moreover have "gc_roots method_machine = Inr [64, 64]" by code_simp
  moreover have "caches_apart method_machine (reachable method_machine [64, 64])"
    by (auto simp: caches_apart_def method_machine_def gc_machine_def get_object_def)
  ultimately show ?thesis by (rule that)
qed

lemma method_objects:
  "get_object 128 method_machine = Inr (Function_object 0 0 192 1)"
  "get_object 256 method_machine = Inr (Instance_object (Some ''B'') 1)"
  "gc_objects_list method_machine = [Entry 128, Entry 256]"
  by (simp_all add: get_object_def method_machine_def gc_machine_def)

text \<open>
  The only running state holds an instance in its locals 1 and 2; the string at 320 is garbage.
\<close>

definition instance_machine :: machine where
  "instance_machine = gc_machine
     [64 \<mapsto> context_with [zero_reg, \<lparr>rtype = RT_INSTANCE, val = 256\<rparr>, \<lparr>rtype = RT_INSTANCE, val = 256\<rparr>],
      192 \<mapsto> context_with [zero_reg, \<lparr>rtype = RT_INSTANCE, val = 256\<rparr>],
      256 \<mapsto> \<lparr>obj_version = 0, ob = Instance_object (Some ''B'') 1\<rparr>,
      320 \<mapsto> \<lparr>obj_version = 0, ob = Str_object ''gone''\<rparr>] [Entry 256, Entry 320]"

lemma instance_objects:
  "get_object a instance_machine =
     (if a = 64 then Inr (Context (empty_ctx\<lparr>locals :=
          Some [zero_reg, \<lparr>rtype = RT_INSTANCE, val = 256\<rparr>, \<lparr>rtype = RT_INSTANCE, val = 256\<rparr>]\<rparr>))
      else if a = 192 then Inr (Context (empty_ctx\<lparr>locals := Some [zero_reg, \<lparr>rtype = RT_INSTANCE, val = 256\<rparr>]\<rparr>))
      else if a = 256 then Inr (Instance_object (Some ''B'') 1)
      else if a = 320 then Inr (Str_object ''gone'') else Inl Null_Deref)"
  by (simp add: get_object_def instance_machine_def gc_machine_def context_with_def)

lemma instance_states:
  "get_state s instance_machine =
     (if s = 0 then Inr (plain_state 64) else if s = 1 then Inr (plain_state 192) else Inl Null_Deref)"
  by (auto simp: get_state_def instance_machine_def gc_machine_def nth_Cons' less_Suc_eq)

lemma instance_rest:
  "interpreter_states_list instance_machine = [0]" "stacks instance_machine = [Map.empty]" "syncs instance_machine = [map_new]"
  "known_types_list instance_machine = []" "threads instance_machine = []"
  "gc_objects_list instance_machine = [Entry 256, Entry 320]"
  by (simp_all add: instance_machine_def gc_machine_def)

lemma instance_live:
  "held True instance_machine a \<Longrightarrow> a \<in> {64, 192, 256}" "in_use True instance_machine s \<Longrightarrow> s \<in> {0, 1}"
proof (induction rule: held_in_use.inducts)
  case (local c y ls i a)
  then show ?case
    by (auto simp: instance_objects refers_def zero_reg_def nth_Cons' less_Suc_eq split: if_splits)
next
  case (synchronized s st x r a)
  then have "syncs instance_machine ! synchronized_variables st = map_new"
    by (auto simp: instance_states instance_rest plain_state_def split: if_splits)
  then show ?case using synchronized by (simp add: map_get_def map_get_flags_new)
qed (auto simp: instance_objects instance_states instance_rest plain_state_def empty_ctx_def split: if_splits)

lemma instance_seen: "held False instance_machine 64" "held False instance_machine 192" "held False instance_machine 256"
proof -
  have "in_use False instance_machine 0"
    by (rule held_in_use.listed_state[of 0 _ "plain_state 64"]) (simp_all add: instance_rest instance_states plain_state_def)
  from held_in_use.current[OF this, of "plain_state 64"] show a: "held False instance_machine 64"
    by (simp add: instance_states plain_state_def)
  from held_in_use.local[OF this, of _ _ 2 256] show b: "held False instance_machine 256"
    by (simp add: instance_objects refers_def empty_ctx_def)
  have "in_use False instance_machine 1"
    using held_in_use.instance_state[OF b, of "Some ''B''" 1] by (simp add: instance_objects)
  from held_in_use.current[OF this, of "plain_state 192"] show "held False instance_machine 192"
    by (simp add: instance_states plain_state_def)
qed

theorem gc_keeps_live_witness:
  "\<exists>n. gc instance_machine = Inr n \<and> get_object 256 n = Inr (Instance_object (Some ''B'') 1) \<and> heap n 320 = None \<and>
    gc_objects_list n = [Entry 256]"
proof -
  have "\<not> isl (gc instance_machine)" by code_simp
  then obtain n where n: "gc instance_machine = Inr n" by (cases "gc instance_machine") auto
  have live: "held True instance_machine a \<longleftrightarrow> a \<in> {64, 192, 256}" for a
    using instance_live(1) instance_seen held_more(1) by blast
  have v: "unmarked_version instance_machine"
    by (auto simp: unmarked_version_def instance_machine_def gc_machine_def context_with_def split: if_splits)
  have o: "nothing_overlooked instance_machine" using instance_seen by (auto simp: nothing_overlooked_def live)
  have c: "caches_apart instance_machine (Collect (held True instance_machine))"
    by (auto simp: caches_apart_def instance_objects split: if_splits)
  from gc_keeps_live[OF n v o c] show ?thesis using n by (auto simp: live instance_objects instance_rest)
qed

theorem gc_frees_state_of_live_function_witness:
  "\<exists>n. gc method_machine = Inr n \<and> get_object 128 n = Inr (Function_object 0 0 192 1) \<and> 1 \<in> set (freed_states n)"
proof -
  obtain n where n: "gc method_machine = Inr n" "unmarked_version method_machine" "gc_roots method_machine = Inr [64, 64]"
    "caches_apart method_machine (reachable method_machine [64, 64])" by (rule method_gc)
  have "256 \<notin> reachable method_machine [64, 64]" using method_reach(2) by auto
  then show ?thesis
    using gc_frees_state_of_live_function[OF n method_reach(1) method_objects(1) _ method_objects(2)] n(1)
    by (simp add: method_objects(3))
qed

lemma key_list_children:
  "children (Context (empty_ctx\<lparr>locals := Some [zero_reg, zero_reg, \<lparr>rtype = RT_OBJ, val = 128\<rparr>]\<rparr>)) key_list_machine = Inr [128, 0, 0]"
  "children (Json_object map_new 0) key_list_machine = Inr []"
  by code_simp+

lemma key_list_reach: "128 \<in> reachable key_list_machine [64, 64]" "reachable key_list_machine [64, 64] \<subseteq> {64, 128}"
proof -
  have h: "heap key_list_machine 64 = Some (context_with [zero_reg, zero_reg, \<lparr>rtype = RT_OBJ, val = 128\<rparr>])"
    "heap key_list_machine 128 = Some \<lparr>obj_version = 0, ob = Json_object map_new 0\<rparr>"
    by (simp_all add: key_list_machine_def gc_machine_def)
  have "(64, 128) \<in> edges key_list_machine"
    by (rule edgeI[OF h(1), of "[128, 0, 0]"]) (simp_all add: context_with_def key_list_children)
  then show "128 \<in> reachable key_list_machine [64, 64]" by (auto simp: reachable_def)
  show "reachable key_list_machine [64, 64] \<subseteq> {64, 128}"
  proof (rule reachable_closed)
    show "edges key_list_machine `` {64, 128} \<subseteq> {64, 128}"
      by (auto simp: edges_def h context_with_def key_list_children)
  qed auto
qed

lemma gc_frees_live_key_list_witness:
  "\<exists>n. gc key_list_machine = Inr n \<and> 128 \<in> reachable key_list_machine [64, 64] \<and> heap n 128 = None"
proof -
  have "\<not> isl (gc key_list_machine)" by code_simp
  then obtain n where n: "gc key_list_machine = Inr n" by (cases "gc key_list_machine") auto
  have v: "unmarked_version key_list_machine"
    by (auto simp: unmarked_version_def key_list_machine_def gc_machine_def context_with_def split: if_splits)
  have roots: "gc_roots key_list_machine = Inr [64, 64]" by code_simp
  have obj: "get_object 192 key_list_machine = Inr (Json_object map_new 128)" "Entry 192 \<in> set (gc_objects_list key_list_machine)"
    by (simp_all add: get_object_def key_list_machine_def gc_machine_def)
  have "192 \<notin> reachable key_list_machine [64, 64]" using key_list_reach(2) by auto
  then show ?thesis
    using gc_frees_live_key_list[OF n v roots obj(2,1) _ key_list_reach(1)] n key_list_reach(1) by simp
qed

end
