(* ===== verification/ParseTree.thy ===== *)
theory ParseTree
  imports Main
begin

text \<open>
  The parse trees the generated parser hands to src/src/compiler/AstGenerator.cpp. The datatypes
  follow the grammar src/zeroscript.g4 rule by rule.
\<close>

section \<open>Parse trees\<close>

datatype modifier = No_modifier | Static_modifier | Tshared_modifier | Async_modifier

datatype expression_ctx =
    New_object expression_ctx
  | Paren_expression expression_ctx
  | Atom_expression atom_ctx
  | Bop_expression expression_ctx string expression_ctx
  | Array_indexer expression_ctx expression_ctx
  | Call_expression expression_ctx "expression_ctx list"
  | Postfix_expression expression_ctx string
  | Prefix_expression string expression_ctx
  | Shift_expression expression_ctx string expression_ctx
  | Anonymous_function anonymous_ctx
  and atom_ctx =
    String_atom string
  | Decimal_atom string
  | Int_atom string
  | False_atom
  | True_atom
  | Null_atom
  | Identifier_atom string
  | Json_object_atom "json_pair_ctx list"
  | Json_array_atom "expression_ctx list"
  and json_pair_ctx = Json_pair expression_ctx expression_ctx
  and anonymous_ctx =
    Func_anonymous "string list" "statement_ctx list"
  | Arrow_arguments "string list" body_or_expression_ctx
  | Arrow_identifier string body_or_expression_ctx
  and body_or_expression_ctx = Arrow_body "statement_ctx list" | Arrow_expression expression_ctx
  and statement_ctx =
    Semicolon_statement
  | Body_statement "statement_ctx list"
  | Var_statement var_ctx
  | Function_statement bool modifier bool string "string list" "statement_ctx list"
  | Expression_statement expression_ctx
  | For_loop for_init_ctx "expression_ctx option" "expression_ctx option" body_or_statement_ctx
  | While_loop "expression_ctx option" body_or_statement_ctx
  | For_in_loop "string option" expression_ctx body_or_statement_ctx
  | If_statement expression_ctx body_or_statement_ctx "body_or_statement_ctx option"
  | Try_catch "statement_ctx list" string "statement_ctx list" "statement_ctx list option"
  | Throw_statement expression_ctx
  | Break_statement
  | Continue_statement
  | Return_statement expression_ctx
  and for_init_ctx = No_init | Expression_init expression_ctx | Var_init var_ctx
  and body_or_statement_ctx = Braces "statement_ctx list" | No_braces statement_ctx
  and var_ctx = Var_ctx bool modifier "var_part_ctx list"
  and var_part_ctx = Var_part string "expression_ctx option"

record class_ctx =
  import_statements :: "(string \<times> string) list"
  class_identifier :: string
  class_arguments :: "string list option"
  extended_class :: "string option"
  class_body :: "statement_ctx list"

text \<open>
  \<open>Function_statement\<close> holds \<open>private\<close>, the modifier, whether \<open>function\<close> is written, name, arguments
  and body; \<open>Var_ctx\<close> holds \<open>private\<close>, the modifier and the parts. \<open>class_arguments = None\<close> is a class
  written without parentheses.
\<close>

end
