(* ===== verification/AstGenerator.thy ===== *)
theory AstGenerator
  imports ParseTree Ast Instr CompilerTotal
begin

text \<open>
  src/src/compiler/AstGenerator.cpp: from the parse tree of a class to the abstract syntax. The
  visitors are mutually recursive on the tree. Json literals, anonymous functions and for-in loops
  append statements to the \<open>Body\<close> a visitor is passed; that body's statements are the field
  \<open>here\<close> of the state. \<open>and\<close> and \<open>or\<close> are rewritten as source text and parsed again; the translation
  of the result is the argument \<open>rw\<close> of the visitors. \<open>rewrite\<close> closes the loop; ANTLR's text of
  a node and the generated parser are its arguments \<open>getText\<close> and \<open>parse\<close>.
\<close>

section \<open>State\<close>

record gstate =
  here :: "stmt list"
  counter :: nat
  forIndexerCount :: nat
  jsonObjectCount :: nat
  static_body :: "stmt list"
  next_object :: nat

text \<open>
  \<open>static_body\<close> is the body of \<open>staticConstructor\<close>; \<open>next_object\<close> numbers the \<open>Function\<close> objects in
  the order they are allocated. A visitor's result \<open>None\<close> is \<open>nullptr\<close>.
\<close>

type_synonym 'a gen = "gstate \<Rightarrow> fault + ('a \<times> gstate)"

type_synonym rewriter = "string \<Rightarrow> expression_ctx \<Rightarrow> expression_ctx \<Rightarrow> expr option gen"

definition greturn :: "'a \<Rightarrow> 'a gen" where
  "greturn x = (\<lambda>st. Inr (x, st))"

definition gfail :: "fault \<Rightarrow> 'a gen" where
  "gfail e = (\<lambda>st. Inl e)"

definition gbind :: "'a gen \<Rightarrow> ('a \<Rightarrow> 'b gen) \<Rightarrow> 'b gen" where
  "gbind m f = (\<lambda>st. ebind (m st) (\<lambda>(x, st1). f x st1))"

text \<open>\<open>pKind->statements->push_back\<close>, for one statement and for several.\<close>

definition push_back :: "stmt \<Rightarrow> unit gen" where
  "push_back s = (\<lambda>st. Inr ((), st\<lparr>here := here st @ [s]\<rparr>))"

definition push_all :: "stmt list \<Rightarrow> unit gen" where
  "push_all ss = (\<lambda>st. Inr ((), st\<lparr>here := here st @ ss\<rparr>))"

text \<open>The statements of a fresh \<open>Body\<close> that the visitor fills.\<close>

definition enclosed :: "'a gen \<Rightarrow> stmt list gen" where
  "enclosed m = (\<lambda>st. ebind (m (st\<lparr>here := []\<rparr>)) (\<lambda>(x, st1). Inr (here st1, st1\<lparr>here := here st\<rparr>)))"

text \<open>\<open>new Function()\<close>, whose body the visitor gives.\<close>

definition new_function :: "stmt list gen \<Rightarrow> (nat \<times> stmt list) gen" where
  "new_function m = (\<lambda>st. ebind (m (st\<lparr>next_object := Suc (next_object st)\<rparr>))
     (\<lambda>(b, st1). Inr ((next_object st, b), st1)))"

text \<open>
  An expression stored where the tree of Ast has no room for a null pointer: the later phases
  dereference it.
\<close>

definition needed :: "expr option \<Rightarrow> expr gen" where
  "needed x = (case x of None \<Rightarrow> gfail Null_Deref | Some e \<Rightarrow> greturn e)"

section \<open>The pieces without recursion\<close>

definition addStaticVar :: "string \<Rightarrow> expr \<Rightarrow> unit gen" where
  "addStaticVar ident v = (\<lambda>st. Inr ((), st\<lparr>static_body := static_body st @
     [plain_stmt (Expr_node (Binary ''=''
        (Binary ''.'' (terminal_identifier ''__static__'') (stringWithoutTrim ident)) v))]\<rparr>))"

definition and_template :: "string \<Rightarrow> string \<Rightarrow> string" where
  "and_template a b = ''(()=>{ if('' @ a @ ''){ if('' @ b @ ''){ return 1; }}return 0;})()''"

definition or_template :: "string \<Rightarrow> string \<Rightarrow> string" where
  "or_template a b = ''(()=>{ if('' @ a @ ''){ return '' @ a @ ''; } else if('' @ b @
     ''){ return '' @ b @ ''; } return 0;})()''"

text \<open>The right operand of a dot: a bare name is a key. A null operand is dereferenced here.\<close>

definition key_operand :: "expr \<Rightarrow> expr" where
  "key_operand e = (case e of Terminal TYPE_IDENTIFIER d \<Rightarrow> Terminal TYPE_STRING d | _ \<Rightarrow> e)"

definition binary :: "string \<Rightarrow> expr option gen \<Rightarrow> expr option gen \<Rightarrow> expr option gen" where
  "binary bop ml mr =
     gbind ml (\<lambda>l. gbind mr (\<lambda>r. gbind (needed l) (\<lambda>x. gbind (needed r) (\<lambda>y.
       greturn (Some (Binary bop x y))))))"

definition bop_binary :: "string \<Rightarrow> expr option gen \<Rightarrow> expr option gen \<Rightarrow> expr option gen" where
  "bop_binary bop ml mr =
     gbind ml (\<lambda>l. gbind mr (\<lambda>r. gbind (needed l) (\<lambda>x. gbind (needed r) (\<lambda>y.
       greturn (Some (Binary bop x (if bop = ''.'' then key_operand y else y)))))))"

definition method_call :: "expr option gen \<Rightarrow> expr list gen \<Rightarrow> expr option gen" where
  "method_call mc margs =
     gbind mc (\<lambda>c. gbind margs (\<lambda>args. gbind (needed c) (\<lambda>x. greturn (Some (Method_call x args)))))"

text \<open>\<open>visitAnonymousFunction\<close>: a numbered name, the function pushed into the current body.\<close>

definition anonymous :: "string list \<Rightarrow> stmt list gen \<Rightarrow> expr option gen" where
  "anonymous args mb = (\<lambda>st.
     let n = counter st + 1; name = ''$anonymous_'' @ dec_string n in
     gbind (new_function mb) (\<lambda>(i, b).
     gbind (push_back (plain_stmt (Function_node (Func i name args b False False False)))) (\<lambda>_.
     greturn (Some (terminal_identifier name)))) (st\<lparr>counter := n\<rparr>))"

text \<open>\<open>doHandleJsonPair\<close>: \<open>name[key] = value\<close>.\<close>

definition doHandleJsonPair :: "string \<Rightarrow> expr option \<Rightarrow> expr option \<Rightarrow> unit gen" where
  "doHandleJsonPair name key v =
     gbind (needed key) (\<lambda>k. gbind (needed v) (\<lambda>x.
       push_back (plain_stmt (Expr_node (Binary ''='' (Binary ''.'' (terminal_identifier name) k) x)))))"

text \<open>
  \<open>visitJson\<close>: a numbered temporary holding \<open>Object()\<close>, then the pairs. (The name is kept in
  \<open>nameOfTheTempObject\<close>, a pointer into a string that no longer exists; the model takes the
  characters the string had.)
\<close>

definition json :: "(string \<Rightarrow> unit gen) \<Rightarrow> expr option gen" where
  "json fill = (\<lambda>st.
     let n = jsonObjectCount st + 1; name = ''$tempJson'' @ dec_string n in
     gbind (push_back (plain_stmt (Var_node name (Method_call (terminal_identifier ''Object'') [])
       False False False))) (\<lambda>_.
     gbind (fill name) (\<lambda>_. greturn (Some (terminal_identifier name)))) (st\<lparr>jsonObjectCount := n\<rparr>))"

text \<open>
  \<open>visitForInLoop\<close>: \<open>x\<close>, the index variable and whatever the iterated expression needs go into the
  body around the loop; \<open>x = e.keys()[index]\<close> becomes the first statement of the loop.
\<close>

definition for_in :: "string \<Rightarrow> expr option gen \<Rightarrow> stmt list gen \<Rightarrow> ast gen" where
  "for_in x me mb =
     gbind (push_back (plain_stmt (Var_node x (terminal_number ''0'') False False False))) (\<lambda>_. \<lambda>st.
     let idx = ''$indexer'' @ dec_string (forIndexerCount st) in
     gbind (push_back (plain_stmt (Var_node idx (terminal_number ''0'') False False False))) (\<lambda>_.
     gbind me (\<lambda>ov. gbind mb (\<lambda>b. gbind (needed ov) (\<lambda>obj.
     let keys = Method_call (Binary ''.'' obj (terminal_string '' keys '')) [];
         count = Method_call (Binary ''.'' obj (terminal_string '' size '')) [] in
     greturn (Loop_node None (Some (Postfix ''++'' (terminal_identifier idx)))
       (Some (Binary ''>'' count (terminal_identifier idx)))
       (plain_stmt (Expr_node (Binary ''='' (terminal_identifier x)
          (Binary ''.'' keys (terminal_identifier idx)))) # b))))))
     (st\<lparr>forIndexerCount := forIndexerCount st + 1\<rparr>))"

text \<open>\<open>visitStatement\<close>: one statement and its flags.\<close>

definition one_stmt :: "(ast \<Rightarrow> stmt) \<Rightarrow> ast gen \<Rightarrow> stmt list gen" where
  "one_stmt mk m = gbind m (\<lambda>n. greturn [mk n])"

definition expression_node :: "expr option gen \<Rightarrow> ast gen" where
  "expression_node m = gbind m (\<lambda>v. gbind (needed v) (\<lambda>e. greturn (Expr_node e)))"

definition for_loop ::
    "expr option gen \<Rightarrow> stmt list gen \<Rightarrow> expr option gen \<Rightarrow> expr option gen \<Rightarrow> ast gen" where
  "for_loop mstart mbody mcond miter =
     gbind mstart (\<lambda>s. gbind mbody (\<lambda>b. gbind mcond (\<lambda>c. gbind miter (\<lambda>i.
       greturn (Loop_node s i c b)))))"

definition while_loop :: "expr option gen \<Rightarrow> stmt list gen \<Rightarrow> ast gen" where
  "while_loop mcond mbody = gbind mcond (\<lambda>c. gbind mbody (\<lambda>b. greturn (Loop_node None None c b)))"

text \<open>\<open>visitConditional\<close>; the other part is visited only if there is one.\<close>

definition conditional :: "expr option gen \<Rightarrow> stmt list gen \<Rightarrow> stmt list gen option \<Rightarrow> ast gen" where
  "conditional mcond mbody melse =
     gbind mcond (\<lambda>v. gbind mbody (\<lambda>b.
       case melse of
         None \<Rightarrow> gbind (needed v) (\<lambda>c. greturn (Conditional_node c b None))
       | Some me \<Rightarrow> gbind me (\<lambda>eb. gbind (needed v) (\<lambda>c. greturn (Conditional_node c b (Some eb))))))"

section \<open>The visitors\<close>

text \<open>
  \<open>visitExpression\<close> of a null pointer is a null dereference. \<open>visitMethodCall\<close> is what \<open>new\<close> calls on the
  expression after it: the callee is that expression's first operand, the arguments its argument
  list if it has one. A for loop collects the expressions that are present: the first is the
  start only if there are three, and the next two are condition and iteration.
\<close>

function (sequential) visitExpression :: "rewriter \<Rightarrow> expression_ctx \<Rightarrow> expr option gen"
  and visitMethodCall :: "rewriter \<Rightarrow> expression_ctx \<Rightarrow> expr option gen"
  and visitExpressionList :: "rewriter \<Rightarrow> expression_ctx list \<Rightarrow> expr list gen"
  and visitOptional :: "rewriter \<Rightarrow> expression_ctx option \<Rightarrow> expr option gen"
  and visitAtom :: "rewriter \<Rightarrow> atom_ctx \<Rightarrow> expr option gen"
  and visitJsonObject :: "rewriter \<Rightarrow> json_pair_ctx list \<Rightarrow> string \<Rightarrow> unit gen"
  and visitJsonPair :: "rewriter \<Rightarrow> json_pair_ctx \<Rightarrow> string \<Rightarrow> unit gen"
  and visitJsonArray :: "rewriter \<Rightarrow> expression_ctx list \<Rightarrow> nat \<Rightarrow> string \<Rightarrow> unit gen"
  and visitAnonymousFunction :: "rewriter \<Rightarrow> anonymous_ctx \<Rightarrow> expr option gen"
  and visitBodyOrExpression :: "rewriter \<Rightarrow> body_or_expression_ctx \<Rightarrow> stmt list gen"
  and visitStatements :: "rewriter \<Rightarrow> statement_ctx list \<Rightarrow> unit gen"
  and visitStatement :: "rewriter \<Rightarrow> statement_ctx \<Rightarrow> stmt list gen"
  and visitBodyOrStatement :: "rewriter \<Rightarrow> body_or_statement_ctx \<Rightarrow> stmt list gen"
  and visitVar :: "rewriter \<Rightarrow> var_ctx \<Rightarrow> ast list gen"
  and visitVarParts :: "rewriter \<Rightarrow> var_part_ctx list \<Rightarrow> bool \<Rightarrow> modifier \<Rightarrow> ast list gen"
  and visitVarDeclaration :: "rewriter \<Rightarrow> var_part_ctx \<Rightarrow> (string \<times> expr) gen" where
  "visitExpression rw (New_object e) = visitMethodCall rw e"
| "visitExpression rw (Paren_expression e) = visitExpression rw e"
| "visitExpression rw (Atom_expression a) = visitAtom rw a"
| "visitExpression rw (Bop_expression a bop b) =
     (if bop = ''and'' \<or> bop = ''or'' then rw bop a b
      else bop_binary bop (visitExpression rw a) (visitExpression rw b))"
| "visitExpression rw (Prefix_expression p e) =
     gbind (visitExpression rw e) (\<lambda>v. gbind (needed v) (\<lambda>x. greturn (Some (Prefix p x))))"
| "visitExpression rw (Postfix_expression e p) =
     gbind (visitExpression rw e) (\<lambda>v. gbind (needed v) (\<lambda>x. greturn (Some (Postfix p x))))"
| "visitExpression rw (Call_expression c es) =
     method_call (visitExpression rw c) (visitExpressionList rw es)"
| "visitExpression rw (Anonymous_function f) = visitAnonymousFunction rw f"
| "visitExpression rw (Array_indexer a b) =
     binary ''.'' (visitExpression rw a) (visitExpression rw b)"
| "visitExpression rw (Shift_expression a p b) = greturn None"
| "visitMethodCall rw (Call_expression c es) =
     method_call (visitExpression rw c) (visitExpressionList rw es)"
| "visitMethodCall rw (Bop_expression a bop b) = method_call (visitExpression rw a) (greturn [])"
| "visitMethodCall rw (Array_indexer a b) = method_call (visitExpression rw a) (greturn [])"
| "visitMethodCall rw (Postfix_expression a p) = method_call (visitExpression rw a) (greturn [])"
| "visitMethodCall rw (Prefix_expression p a) = method_call (visitExpression rw a) (greturn [])"
| "visitMethodCall rw (Shift_expression a p b) = method_call (visitExpression rw a) (greturn [])"
| "visitMethodCall rw (New_object e) = gfail Null_Deref"
| "visitMethodCall rw (Paren_expression e) = gfail Null_Deref"
| "visitMethodCall rw (Atom_expression a) = gfail Null_Deref"
| "visitMethodCall rw (Anonymous_function f) = gfail Null_Deref"
| "visitExpressionList rw [] = greturn []"
| "visitExpressionList rw (e # es) =
     gbind (visitExpression rw e) (\<lambda>v. gbind (needed v) (\<lambda>x.
     gbind (visitExpressionList rw es) (\<lambda>xs. greturn (x # xs))))"
| "visitOptional rw None = greturn None"
| "visitOptional rw (Some e) = visitExpression rw e"
| "visitAtom rw (Identifier_atom s) = greturn (Some (terminal_identifier s))"
| "visitAtom rw (String_atom s) = greturn (Some (terminal_string s))"
| "visitAtom rw (Decimal_atom s) = greturn (Some (terminal_number s))"
| "visitAtom rw (Int_atom s) = greturn (Some (terminal_number s))"
| "visitAtom rw False_atom = greturn (Some (terminal_number ''0''))"
| "visitAtom rw Null_atom = greturn (Some (terminal_number ''0''))"
| "visitAtom rw True_atom = greturn (Some (terminal_number ''1''))"
| "visitAtom rw (Json_object_atom ps) = json (visitJsonObject rw ps)"
| "visitAtom rw (Json_array_atom es) = json (visitJsonArray rw es 0)"
| "visitJsonObject rw [] = (\<lambda>name. greturn ())"
| "visitJsonObject rw (p # ps) =
     (\<lambda>name. gbind (visitJsonPair rw p name) (\<lambda>_. visitJsonObject rw ps name))"
| "visitJsonPair rw (Json_pair k v) =
     (\<lambda>name. gbind (visitExpression rw k) (\<lambda>key. gbind (visitExpression rw v)
        (doHandleJsonPair name key)))"
| "visitJsonArray rw [] = (\<lambda>i name. greturn ())"
| "visitJsonArray rw (e # es) =
     (\<lambda>i name. gbind (visitExpression rw e) (\<lambda>v.
        gbind (doHandleJsonPair name (Some (terminal_string ('' '' @ dec_string i @ '' ''))) v)
          (\<lambda>_. visitJsonArray rw es (i + 1) name)))"
| "visitAnonymousFunction rw (Func_anonymous args b) = anonymous args (enclosed (visitStatements rw b))"
| "visitAnonymousFunction rw (Arrow_arguments args b) = anonymous args (visitBodyOrExpression rw b)"
| "visitAnonymousFunction rw (Arrow_identifier arg b) = anonymous [arg] (visitBodyOrExpression rw b)"
| "visitBodyOrExpression rw (Arrow_body b) = enclosed (visitStatements rw b)"
| "visitBodyOrExpression rw (Arrow_expression e) =
     enclosed (gbind (expression_node (visitExpression rw e)) (\<lambda>n. push_back (Statement True False False n)))"
| "visitStatements rw [] = greturn ()"
| "visitStatements rw (s # ss) =
     gbind (visitStatement rw s) (\<lambda>rs. gbind (push_all rs) (\<lambda>_. visitStatements rw ss))"
| "visitStatement rw Semicolon_statement = greturn [plain_stmt (Expr_node Empty_expr)]"
| "visitStatement rw (Body_statement b) =
     gbind (enclosed (visitStatements rw b)) (\<lambda>ss. greturn [plain_stmt (Body_node ss)])"
| "visitStatement rw (Var_statement v) = gbind (visitVar rw v) (\<lambda>vs. greturn (map plain_stmt vs))"
| "visitStatement rw (Function_statement p k w name args b) =
     gbind (new_function (enclosed (visitStatements rw b))) (\<lambda>(i, ss).
     greturn [plain_stmt (Function_node
       (Func i name args ss (k = Static_modifier) (k = Async_modifier) p))])"
| "visitStatement rw (Expression_statement e) =
     one_stmt plain_stmt (expression_node (visitExpression rw e))"
| "visitStatement rw (For_loop (Var_init v) c i b) =
     one_stmt plain_stmt (for_loop
       (gbind (visitVar rw v) (\<lambda>vs. gbind (push_all (map plain_stmt vs)) (\<lambda>_. greturn None)))
       (visitBodyOrStatement rw b)
       (if c = None then visitOptional rw i else visitOptional rw c)
       (if c = None then greturn None else visitOptional rw i))"
| "visitStatement rw (For_loop No_init c i b) =
     one_stmt plain_stmt (for_loop (greturn None) (visitBodyOrStatement rw b)
       (if c = None then visitOptional rw i else visitOptional rw c)
       (if c = None then greturn None else visitOptional rw i))"
| "visitStatement rw (For_loop (Expression_init a) c i b) =
     one_stmt plain_stmt
       (if c \<noteq> None \<and> i \<noteq> None
        then for_loop (visitExpression rw a) (visitBodyOrStatement rw b)
               (visitOptional rw c) (visitOptional rw i)
        else for_loop (greturn None) (visitBodyOrStatement rw b) (visitExpression rw a)
               (if c = None then visitOptional rw i else visitOptional rw c))"
| "visitStatement rw (While_loop None b) = gfail Null_Deref"
| "visitStatement rw (While_loop (Some e) b) =
     one_stmt plain_stmt (while_loop (visitExpression rw e) (visitBodyOrStatement rw b))"
| "visitStatement rw (For_in_loop x e b) =
     (case x of None \<Rightarrow> gfail Null_Deref
      | Some s \<Rightarrow> one_stmt plain_stmt (for_in s (visitExpression rw e) (visitBodyOrStatement rw b)))"
| "visitStatement rw (If_statement e b None) =
     one_stmt plain_stmt (conditional (visitExpression rw e) (visitBodyOrStatement rw b) None)"
| "visitStatement rw (If_statement e b (Some eb)) =
     one_stmt plain_stmt (conditional (visitExpression rw e) (visitBodyOrStatement rw b) (Some (visitBodyOrStatement rw eb)))"
| "visitStatement rw (Try_catch tb x cb None) =
     one_stmt plain_stmt (gbind (enclosed (visitStatements rw tb)) (\<lambda>t.
       gbind (enclosed (visitStatements rw cb)) (\<lambda>c. greturn (Try_node t c None x))))"
| "visitStatement rw (Try_catch tb x cb (Some fb)) =
     one_stmt plain_stmt (gbind (enclosed (visitStatements rw tb)) (\<lambda>t.
       gbind (enclosed (visitStatements rw cb)) (\<lambda>c.
       gbind (enclosed (visitStatements rw fb)) (\<lambda>f. greturn (Try_node t c (Some f) x)))))"
| "visitStatement rw (Throw_statement e) =
     one_stmt plain_stmt (gbind (visitExpression rw e) (\<lambda>v.
       gbind (needed v) (\<lambda>y. greturn (Expr_node (Prefix ''throw'' y)))))"
| "visitStatement rw Break_statement = greturn [Statement False True False (Expr_node Empty_expr)]"
| "visitStatement rw Continue_statement = greturn [Statement False False True (Expr_node Empty_expr)]"
| "visitStatement rw (Return_statement e) =
     one_stmt (Statement True False False) (expression_node (visitExpression rw e))"
| "visitBodyOrStatement rw (Braces b) = enclosed (visitStatements rw b)"
| "visitBodyOrStatement rw (No_braces s) = visitStatement rw s"
| "visitVar rw (Var_ctx p k ds) = visitVarParts rw ds p k"
| "visitVarParts rw [] = (\<lambda>p k. greturn [])"
| "visitVarParts rw (d # ds) = (\<lambda>p k.
     gbind (visitVarDeclaration rw d) (\<lambda>(x, v).
       if k = Static_modifier
       then gbind (addStaticVar x v) (\<lambda>_. visitVarParts rw ds p k)
       else gbind (visitVarParts rw ds p k) (\<lambda>vs.
              greturn (Var_node x v False p (k = Tshared_modifier) # vs))))"
| "visitVarDeclaration rw (Var_part x None) = greturn (x, Empty_expr)"
| "visitVarDeclaration rw (Var_part x (Some e)) =
     gbind (visitExpression rw e) (\<lambda>v. gbind (needed v) (\<lambda>y. greturn (x, y)))"
  by pat_completeness auto

termination
  by (relation "measure (\<lambda>y. case y of
       Inl (Inl (Inl (Inl (_, x)))) \<Rightarrow> size x
     | Inl (Inl (Inl (Inr (_, x)))) \<Rightarrow> size x
     | Inl (Inl (Inr (Inl (_, x)))) \<Rightarrow> size_list size x
     | Inl (Inl (Inr (Inr (_, x)))) \<Rightarrow> size_option size x
     | Inl (Inr (Inl (Inl (_, x)))) \<Rightarrow> size x
     | Inl (Inr (Inl (Inr (_, x)))) \<Rightarrow> size_list size x
     | Inl (Inr (Inr (Inl (_, x)))) \<Rightarrow> size x
     | Inl (Inr (Inr (Inr (_, x)))) \<Rightarrow> size_list size x
     | Inr (Inl (Inl (Inl (_, x)))) \<Rightarrow> size x
     | Inr (Inl (Inl (Inr (_, x)))) \<Rightarrow> size x
     | Inr (Inl (Inr (Inl (_, x)))) \<Rightarrow> size_list size x
     | Inr (Inl (Inr (Inr (_, x)))) \<Rightarrow> size x
     | Inr (Inr (Inl (Inl (_, x)))) \<Rightarrow> size x
     | Inr (Inr (Inl (Inr (_, x)))) \<Rightarrow> size x
     | Inr (Inr (Inr (Inl (_, x)))) \<Rightarrow> size_list size x
     | Inr (Inr (Inr (Inr (_, x)))) \<Rightarrow> size x)") auto

lemmas visit_simps [simp del] = visitExpression.simps visitMethodCall.simps visitExpressionList.simps
  visitOptional.simps visitAtom.simps visitJsonObject.simps visitJsonPair.simps visitJsonArray.simps
  visitAnonymousFunction.simps visitBodyOrExpression.simps visitStatements.simps visitStatement.simps
  visitBodyOrStatement.simps visitVar.simps visitVarParts.simps visitVarDeclaration.simps

text \<open>
  \<open>andToIf\<close> and \<open>orToIf\<close>: the template filled with the operands' texts, lexer and parser on it, and
  \<open>visitExpression\<close> on the new tree, whose own logical operators are rewritten in turn. \<open>fuel\<close> bounds
  how deep such rewritings nest.
\<close>

fun rewrite :: "(expression_ctx \<Rightarrow> string) \<Rightarrow> (string \<Rightarrow> expression_ctx) \<Rightarrow> nat \<Rightarrow> rewriter" where
  "rewrite getText parse 0 bop a b = gfail Out_Of_Fuel"
| "rewrite getText parse (Suc fuel) bop a b = visitExpression (rewrite getText parse fuel)
     (parse (if bop = ''and'' then and_template (getText a) (getText b)
             else or_template (getText a) (getText b)))"

section \<open>Classes\<close>

text \<open>\<open>std::map::insert\<close> into the sorted list of entries: a key that is present stays as it is.\<close>

fun string_less :: "string \<Rightarrow> string \<Rightarrow> bool" where
  "string_less xs [] \<longleftrightarrow> False"
| "string_less [] (y # ys) \<longleftrightarrow> True"
| "string_less (x # xs) (y # ys) \<longleftrightarrow>
     (of_char x :: nat) < of_char y \<or> x = y \<and> string_less xs ys"

fun import_insert :: "string \<times> string \<Rightarrow> (string \<times> string) list \<Rightarrow> (string \<times> string) list" where
  "import_insert e [] = [e]"
| "import_insert (k, v) ((k', v') # es) =
     (if k = k' then (k', v') # es
      else if string_less k k' then (k, v) # (k', v') # es
      else (k', v') # import_insert (k, v) es)"

definition importsMap_of :: "(string \<times> string) list \<Rightarrow> (string \<times> string) list" where
  "importsMap_of is = fold (\<lambda>(path, alias). import_insert (butlast (tl path), alias)) is []"

text \<open>
  \<open>visitArguments\<close> of the class: the argument list is absent when there are no parentheses, and
  its null pointer is dereferenced.
\<close>

definition visitArguments :: "string list option \<Rightarrow> string list gen" where
  "visitArguments as = (case as of None \<Rightarrow> gfail Null_Deref | Some xs \<Rightarrow> greturn xs)"

text \<open>The first object is the static constructor, the second the class.\<close>

definition gstate_init :: gstate where
  "gstate_init = \<lparr>here = [], counter = 0, forIndexerCount = 0, jsonObjectCount = 0,
     static_body = [], next_object = 2\<rparr>"

definition visitClassDeclaration ::
    "rewriter \<Rightarrow> class_ctx \<Rightarrow> class_decl gen" where
  "visitClassDeclaration rw cls =
     gbind (enclosed (visitStatements rw (class_body cls))) (\<lambda>b.
     gbind (visitArguments (class_arguments cls)) (\<lambda>as.
     greturn \<lparr>cls_id = 1, cls_name = class_identifier cls, cls_args = as, cls_body = b,
       importsMap = importsMap_of (import_statements cls)\<rparr>))"

text \<open>The constructor \<open>AstGenerator\<close>: the class, with the static constructor as its last statement.\<close>

definition static_constructor :: "stmt list \<Rightarrow> stmt" where
  "static_constructor b =
     plain_stmt (Function_node (Func 0 ''__static__constructor__'' [] b False False False))"

definition generate ::
    "(expression_ctx \<Rightarrow> string) \<Rightarrow> (string \<Rightarrow> expression_ctx) \<Rightarrow> nat \<Rightarrow> class_ctx \<Rightarrow> fault + class_decl" where
  "generate getText parse fuel cls =
     ebind (visitClassDeclaration (rewrite getText parse fuel) cls gstate_init) (\<lambda>(d, st).
       Inr (d\<lparr>cls_body := cls_body d @ [static_constructor (static_body st)]\<rparr>))"

end
