(* ===== verification/GeneratedClasses.thy ===== *)
theory GeneratedClasses
  imports AstGenerator
begin

text \<open>
  What AstGenerator guarantees of the classes it builds: no function contains itself as an object, as
  the compiler needs to return; which sources it returns on; plain expressions are translated one to one; and
  which sources are translated to something else than they say.
\<close>

text \<open>The recursion of the visitors on the tree, for properties at one \<open>rw\<close>.\<close>

lemmas visit_induct = visitExpression_visitMethodCall_visitExpressionList_visitOptional_visitAtom_visitJsonObject_visitJsonPair_visitJsonArray_visitAnonymousFunction_visitBodyOrExpression_visitStatements_visitStatement_visitBodyOrStatement_visitVar_visitVarParts_visitVarDeclaration.induct
  [of "\<lambda>_. P1" "\<lambda>_. P2" "\<lambda>_. P3" "\<lambda>_. P4" "\<lambda>_. P5" "\<lambda>_. P6" "\<lambda>_. P7" "\<lambda>_. P8" "\<lambda>_. P9" "\<lambda>_. P10" "\<lambda>_. P11" "\<lambda>_. P12" "\<lambda>_. P13" "\<lambda>_. P14" "\<lambda>_. P15" "\<lambda>_. P16"]
  for P1 P2 P3 P4 P5 P6 P7 P8 P9 P10 P11 P12 P13 P14 P15 P16

section \<open>Objects of functions are allocated before their bodies\<close>

definition within :: "nat \<Rightarrow> stmt list \<Rightarrow> bool" where
  "within lo b \<longleftrightarrow> own_ids_body b \<and> (\<forall>i \<in> nested_ids_body b. lo \<le> i)"

definition within_node :: "nat \<Rightarrow> ast \<Rightarrow> bool" where
  "within_node lo n \<longleftrightarrow> own_ids_node n \<and> (\<forall>i \<in> nested_ids_node n. lo \<le> i)"

lemma ids_append [simp]:
  "own_ids_body (b1 @ b2) \<longleftrightarrow> own_ids_body b1 \<and> own_ids_body b2"
  "nested_ids_body (b1 @ b2) = nested_ids_body b1 \<union> nested_ids_body b2"
  by (induction b1) auto

lemma within_append [simp]: "within lo (b1 @ b2) \<longleftrightarrow> within lo b1 \<and> within lo b2"
  by (auto simp: within_def)

lemma within_Nil [simp]: "within lo []"
  by (simp add: within_def)

lemma within_Cons [simp]: "within lo (Statement r b c n # ss) \<longleftrightarrow> within_node lo n \<and> within lo ss"
  by (auto simp: within_def within_node_def)

lemma within_node_simps [simp]:
  "within_node lo (Expr_node e)" "within_node lo (Var_node x v s p y)"
  "within_node lo (Body_node b) = within lo b"
  "within_node lo (Loop_node st it c b) = within lo b"
  "within_node lo (Conditional_node e b None) = within lo b"
  "within_node lo (Conditional_node e b (Some b2)) = (within lo b \<and> within lo b2)"
  "within_node lo (Try_node b b2 None x) = (within lo b \<and> within lo b2)"
  "within_node lo (Try_node b b2 (Some b3) x) = (within lo b \<and> within lo b2 \<and> within lo b3)"
  by (auto simp: within_node_def within_def)

lemma within_function: "lo \<le> i \<Longrightarrow> within (Suc i) b \<Longrightarrow> within_node lo (Function_node (Func i x as b s a p))"
  by (fastforce simp: within_node_def within_def)

definition no_functions :: "stmt list \<Rightarrow> bool" where
  "no_functions b \<longleftrightarrow> own_ids_body b \<and> nested_ids_body b = {}"

definition ids_inv :: "nat \<Rightarrow> gstate \<Rightarrow> bool" where
  "ids_inv lo st \<longleftrightarrow> lo \<le> next_object st \<and> within lo (here st) \<and> no_functions (static_body st)"

definition keeps_ids :: "nat \<Rightarrow> ('a \<Rightarrow> bool) \<Rightarrow> 'a gen \<Rightarrow> bool" where
  "keeps_ids lo Q m \<longleftrightarrow> (\<forall>st x st'. ids_inv lo st \<longrightarrow> m st = Inr (x, st') \<longrightarrow> ids_inv lo st' \<and> Q x)"

named_theorems ids_rules \<open>one rule for each way visitors are composed\<close>

lemma keeps_ids_weaken: "keeps_ids lo P m \<Longrightarrow> (\<And>x. P x \<Longrightarrow> Q x) \<Longrightarrow> keeps_ids lo Q m"
  by (auto simp: keeps_ids_def)

lemma keeps_ids_return [ids_rules]: "Q x \<Longrightarrow> keeps_ids lo Q (greturn x)"
  by (simp add: keeps_ids_def greturn_def)

lemma keeps_ids_fail [ids_rules]: "keeps_ids lo Q (gfail e)"
  by (simp add: keeps_ids_def gfail_def)

lemma keeps_ids_bind:
  assumes "keeps_ids lo P m" "\<And>x. P x \<Longrightarrow> keeps_ids lo Q (f x)"
  shows "keeps_ids lo Q (gbind m f)"
  unfolding keeps_ids_def
proof (intro allI impI)
  fix st y st'
  assume inv: "ids_inv lo st" and r: "gbind m f st = Inr (y, st')"
  obtain x st1 where m: "m st = Inr (x, st1)" "f x st1 = Inr (y, st')"
    using r by (auto simp: gbind_def ebind_Inr_iff)
  with assms(1) inv have "ids_inv lo st1" "P x" unfolding keeps_ids_def by blast+
  with assms(2)[OF this(2)] m(2) show "ids_inv lo st' \<and> Q y" unfolding keeps_ids_def by blast
qed

lemma keeps_ids_bind_any:
  "keeps_ids lo (\<lambda>_. True) m \<Longrightarrow> (\<And>x. keeps_ids lo Q (f x)) \<Longrightarrow> keeps_ids lo Q (gbind m f)"
  by (rule keeps_ids_bind)

text \<open>Which fact about the first visitor's result the second needs depends on the result's type.\<close>

lemmas keeps_ids_bind_expressions [ids_rules] =
  keeps_ids_bind_any[of lo m for lo and m :: "expr option gen"]
  keeps_ids_bind_any[of lo m for lo and m :: "expr gen"]
  keeps_ids_bind_any[of lo m for lo and m :: "expr list gen"]
  keeps_ids_bind_any[of lo m for lo and m :: "unit gen"]
  keeps_ids_bind_any[of lo m for lo and m :: "string list gen"]
  keeps_ids_bind_any[of lo m for lo and m :: "(string \<times> expr) gen"]

lemmas keeps_ids_bind_statements [ids_rules] =
  keeps_ids_bind[of lo "within lo" for lo]
  keeps_ids_bind[of lo "within_node lo" for lo]
  keeps_ids_bind[of lo "\<lambda>vs. within lo (map plain_stmt vs)" for lo]
  keeps_ids_bind[of lo "\<lambda>(i, b). lo \<le> i \<and> within (Suc i) b" for lo]

lemma keeps_ids_needed [ids_rules]: "keeps_ids lo (\<lambda>_. True) (needed x)"
  by (cases x) (simp_all add: needed_def ids_rules)

lemma keeps_ids_push [ids_rules]: "within lo ss \<Longrightarrow> keeps_ids lo (\<lambda>_. True) (push_all ss)"
  by (simp add: keeps_ids_def push_all_def ids_inv_def)

lemma keeps_ids_push1 [ids_rules]: "within lo [s] \<Longrightarrow> keeps_ids lo (\<lambda>_. True) (push_back s)"
  by (simp add: keeps_ids_def push_back_def ids_inv_def)

lemma keeps_ids_static [ids_rules]: "keeps_ids lo (\<lambda>_. True) (addStaticVar x v)"
  by (simp add: keeps_ids_def addStaticVar_def ids_inv_def no_functions_def)

text \<open>Visitors that return the statements of a body of their own leave the body around them alone.\<close>

definition builds_body :: "stmt list gen \<Rightarrow> bool" where
  "builds_body m \<longleftrightarrow> (\<forall>l st b st'. l \<le> next_object st \<longrightarrow> no_functions (static_body st) \<longrightarrow>
     m st = Inr (b, st') \<longrightarrow>
     l \<le> next_object st' \<and> here st' = here st \<and> within l b \<and> no_functions (static_body st'))"

lemma builds_enclosed:
  assumes "\<And>l. keeps_ids l (\<lambda>_. True) m"
  shows "builds_body (enclosed m)"
  unfolding builds_body_def
proof (intro allI impI)
  fix l st b st'
  assume l: "l \<le> next_object st" "no_functions (static_body st)" and r: "enclosed m st = Inr (b, st')"
  obtain x st1 where m: "m (st\<lparr>here := []\<rparr>) = Inr (x, st1)" "b = here st1" "st' = st1\<lparr>here := here st\<rparr>"
    using r by (auto simp: enclosed_def ebind_Inr_iff)
  have "ids_inv l (st\<lparr>here := []\<rparr>)" using l by (simp add: ids_inv_def)
  with assms[of l] m(1) have "ids_inv l st1" by (auto simp: keeps_ids_def)
  then show "l \<le> next_object st' \<and> here st' = here st \<and> within l b \<and> no_functions (static_body st')"
    using m by (simp add: ids_inv_def)
qed

lemma builds_keeps: "builds_body m \<Longrightarrow> keeps_ids lo (within lo) m"
  unfolding builds_body_def keeps_ids_def ids_inv_def by metis

lemmas enclosed_keeps [ids_rules] = builds_keeps[OF builds_enclosed]

lemma builds_function [ids_rules]:
  assumes "builds_body m"
  shows "keeps_ids lo (\<lambda>(i, b). lo \<le> i \<and> within (Suc i) b) (new_function m)"
  unfolding keeps_ids_def
proof (intro allI impI)
  fix st x st'
  assume inv: "ids_inv lo st" and r: "new_function m st = Inr (x, st')"
  let ?st = "st\<lparr>next_object := Suc (next_object st)\<rparr>"
  obtain b where b: "m ?st = Inr (b, st')" "x = (next_object st, b)"
    using r by (auto simp: new_function_def ebind_Inr_iff)
  from assms[unfolded builds_body_def, rule_format, of "Suc (next_object st)" ?st b st'] b(1) inv
  show "ids_inv lo st' \<and> (case x of (i, b) \<Rightarrow> lo \<le> i \<and> within (Suc i) b)"
    by (auto simp: ids_inv_def b(2))
qed

lemma keeps_ids_state:
  assumes "\<And>st. keeps_ids lo Q (m st)" "\<And>st. ids_inv lo st \<Longrightarrow> ids_inv lo (f st)"
  shows "keeps_ids lo Q (\<lambda>st. m st (f st))"
  using assms unfolding keeps_ids_def by blast

lemma keeps_ids_anonymous [ids_rules]: "builds_body m \<Longrightarrow> keeps_ids lo (\<lambda>_. True) (anonymous args m)"
  unfolding anonymous_def Let_def
  by (rule keeps_ids_state) (auto intro!: ids_rules within_function simp: ids_inv_def)

lemma keeps_ids_json [ids_rules]: "(\<And>name. keeps_ids lo (\<lambda>_. True) (fill name)) \<Longrightarrow> keeps_ids lo (\<lambda>_. True) (json fill)"
  unfolding json_def Let_def
  by (rule keeps_ids_state) (auto intro!: ids_rules simp: ids_inv_def)

lemma keeps_ids_for_in [ids_rules]:
  assumes "keeps_ids lo (\<lambda>_. True) me" "keeps_ids lo (within lo) mb"
  shows "keeps_ids lo (within_node lo) (for_in x me mb)"
  unfolding for_in_def Let_def
proof (rule keeps_ids_bind_any, goal_cases)
  case 1
  show ?case by (auto intro!: ids_rules)
next
  case (2 u)
  show ?case
  proof (rule keeps_ids_state, goal_cases)
    case (1 st)
    show ?case
      by (rule keeps_ids_bind_any, rule keeps_ids_push1, simp, rule keeps_ids_bind_any, rule assms(1),
          rule keeps_ids_bind[OF assms(2)], rule keeps_ids_bind_any, rule keeps_ids_needed,
          rule keeps_ids_return) simp
  qed (simp add: ids_inv_def)
qed

lemma keeps_ids_for_loop [ids_rules]:
  assumes "keeps_ids lo (\<lambda>_. True) ms" "keeps_ids lo (within lo) mb"
    "keeps_ids lo (\<lambda>_. True) mc" "keeps_ids lo (\<lambda>_. True) mi"
  shows "keeps_ids lo (within_node lo) (for_loop ms mb mc mi)"
  unfolding for_loop_def
  by (rule keeps_ids_bind_any, rule assms(1), rule keeps_ids_bind[OF assms(2)], rule keeps_ids_bind_any,
      rule assms(3), rule keeps_ids_bind_any, rule assms(4), rule keeps_ids_return) simp

lemma keeps_ids_while [ids_rules]:
  "keeps_ids lo (\<lambda>_. True) mc \<Longrightarrow> keeps_ids lo (within lo) mb \<Longrightarrow> keeps_ids lo (within_node lo) (while_loop mc mb)"
  unfolding while_loop_def by (auto intro!: ids_rules)

lemma keeps_ids_conditional [ids_rules]:
  "keeps_ids lo (\<lambda>_. True) mc \<Longrightarrow> keeps_ids lo (within lo) mb \<Longrightarrow> keeps_ids lo (within_node lo) (conditional mc mb None)"
  "keeps_ids lo (\<lambda>_. True) mc \<Longrightarrow> keeps_ids lo (within lo) mb \<Longrightarrow> keeps_ids lo (within lo) me \<Longrightarrow>
    keeps_ids lo (within_node lo) (conditional mc mb (Some me))"
  unfolding conditional_def by (auto intro!: ids_rules)

lemma keeps_ids_one [ids_rules]:
  "keeps_ids lo (within_node lo) m \<Longrightarrow> keeps_ids lo (within lo) (one_stmt (Statement r b c) m)"
  unfolding one_stmt_def by (rule keeps_ids_bind, assumption) (rule keeps_ids_return, simp)

lemma keeps_ids_expression_node [ids_rules]:
  "keeps_ids lo (\<lambda>_. True) m \<Longrightarrow> keeps_ids lo (within_node lo) (expression_node m)"
  unfolding expression_node_def by (auto intro!: ids_rules)

lemma keeps_ids_pieces [ids_rules]:
  "keeps_ids lo (\<lambda>_. True) m1 \<Longrightarrow> keeps_ids lo (\<lambda>_. True) m2 \<Longrightarrow> keeps_ids lo (\<lambda>_. True) (binary bop m1 m2)"
  "keeps_ids lo (\<lambda>_. True) m1 \<Longrightarrow> keeps_ids lo (\<lambda>_. True) m2 \<Longrightarrow> keeps_ids lo (\<lambda>_. True) (bop_binary bop m1 m2)"
  "keeps_ids lo (\<lambda>_. True) m1 \<Longrightarrow> keeps_ids lo (\<lambda>_. True) ms \<Longrightarrow> keeps_ids lo (\<lambda>_. True) (method_call m1 ms)"
  "keeps_ids lo (\<lambda>_. True) (doHandleJsonPair name k v)"
  unfolding binary_def bop_binary_def method_call_def doHandleJsonPair_def by (auto intro!: ids_rules)

lemma visit_keeps_ids:
  assumes rw: "\<And>bop a b lo. keeps_ids lo (\<lambda>_. True) (rw bop a b)"
  shows "keeps_ids lo (\<lambda>_. True) (visitExpression rw e)"
    and "keeps_ids lo (\<lambda>_. True) (visitMethodCall rw e)"
    and "keeps_ids lo (\<lambda>_. True) (visitExpressionList rw es)"
    and "keeps_ids lo (\<lambda>_. True) (visitOptional rw eo)"
    and "keeps_ids lo (\<lambda>_. True) (visitAtom rw a)"
    and "keeps_ids lo (\<lambda>_. True) (visitJsonObject rw ps name)"
    and "keeps_ids lo (\<lambda>_. True) (visitJsonPair rw p name)"
    and "keeps_ids lo (\<lambda>_. True) (visitJsonArray rw es i name)"
    and "keeps_ids lo (\<lambda>_. True) (visitAnonymousFunction rw f)"
    and "builds_body (visitBodyOrExpression rw be)"
    and "keeps_ids lo (\<lambda>_. True) (visitStatements rw ss)"
    and "keeps_ids lo (within lo) (visitStatement rw s)"
    and "keeps_ids lo (within lo) (visitBodyOrStatement rw bs)"
    and "keeps_ids lo (\<lambda>vs. within lo (map plain_stmt vs)) (visitVar rw v)"
    and "keeps_ids lo (\<lambda>vs. within lo (map plain_stmt vs)) (visitVarParts rw ds priv md)"
    and "keeps_ids lo (\<lambda>_. True) (visitVarDeclaration rw d)"
  apply (induction e and e and es and eo and a and ps and p and es and f and be and ss and s and bs and v and ds and d
    arbitrary: lo and lo and lo and lo and lo and lo name and lo name and lo i name and lo and lo and lo and lo and lo and lo and lo priv md and lo
    rule: visit_induct)
  apply (simp_all only: visit_simps)
  apply (auto intro!: rw ids_rules builds_enclosed within_function split: option.splits)
  done

lemma rewrite_keeps_ids: "keeps_ids lo (\<lambda>_. True) (rewrite getText parse fuel bop a b)"
  by (induction fuel arbitrary: bop a b lo) (auto intro!: ids_rules visit_keeps_ids(1))

lemma generate_ids:
  assumes "generate getText parse fuel cls = Inr d"
  shows "own_ids_body (cls_body d) \<and> cls_id d \<notin> nested_ids_body (cls_body d)"
proof -
  let ?rw = "rewrite getText parse fuel"
  obtain c st where c: "visitClassDeclaration ?rw cls gstate_init = Inr (c, st)"
    and d: "d = c\<lparr>cls_body := cls_body c @ [static_constructor (static_body st)]\<rparr>"
    using assms by (auto simp: generate_def ebind_Inr_iff)
  have v: "keeps_ids 2 (\<lambda>c. within 2 (cls_body c) \<and> cls_id c = 1) (visitClassDeclaration ?rw cls)"
    unfolding visitClassDeclaration_def visitArguments_def
    by (auto intro!: ids_rules visit_keeps_ids rewrite_keeps_ids split: option.splits)
  have "ids_inv 2 gstate_init" by (simp add: ids_inv_def gstate_init_def no_functions_def)
  with v c have i: "within 2 (cls_body c)" "cls_id c = 1" "no_functions (static_body st)"
    unfolding keeps_ids_def ids_inv_def by blast+
  from i(1) have "1 \<notin> nested_ids_body (cls_body c)" by (auto simp: within_def)
  with i show ?thesis by (simp add: d static_constructor_def within_def no_functions_def)
qed


section \<open>The sources that have a syntax tree\<close>

text \<open>
  \<open>ready e rd\<close>: no null pointer is needed: there is no shift operator where a value is, \<open>new\<close> is followed by a
  call or another operand, every while loop has a condition and every for-in loop a variable; and \<open>rd\<close>
  holds of the operands of every logical operator. There are no json literals, whose temporary gets its name
  from a string that no longer exists.
\<close>

type_synonym rewritable = "string \<Rightarrow> expression_ctx \<Rightarrow> expression_ctx \<Rightarrow> bool"

fun ready :: "expression_ctx \<Rightarrow> rewritable \<Rightarrow> bool"
  and new_ready :: "expression_ctx \<Rightarrow> rewritable \<Rightarrow> bool"
  and list_ready :: "expression_ctx list \<Rightarrow> rewritable \<Rightarrow> bool"
  and optional_ready :: "expression_ctx option \<Rightarrow> rewritable \<Rightarrow> bool"
  and atom_ready :: "atom_ctx \<Rightarrow> rewritable \<Rightarrow> bool"
  and anonymous_ready :: "anonymous_ctx \<Rightarrow> rewritable \<Rightarrow> bool"
  and body_or_expression_ready :: "body_or_expression_ctx \<Rightarrow> rewritable \<Rightarrow> bool"
  and statement_ready :: "statement_ctx \<Rightarrow> rewritable \<Rightarrow> bool"
  and statements_ready :: "statement_ctx list \<Rightarrow> rewritable \<Rightarrow> bool"
  and for_init_ready :: "for_init_ctx \<Rightarrow> rewritable \<Rightarrow> bool"
  and body_or_statement_ready :: "body_or_statement_ctx \<Rightarrow> rewritable \<Rightarrow> bool"
  and var_ready :: "var_ctx \<Rightarrow> rewritable \<Rightarrow> bool"
  and parts_ready :: "var_part_ctx list \<Rightarrow> rewritable \<Rightarrow> bool"
  and part_ready :: "var_part_ctx \<Rightarrow> rewritable \<Rightarrow> bool" where
  "ready (New_object e) = new_ready e"
| "ready (Paren_expression e) = ready e"
| "ready (Atom_expression a) = atom_ready a"
| "ready (Bop_expression a bop b) =
     (\<lambda>rd. if bop = ''and'' \<or> bop = ''or'' then rd bop a b
          else ready a rd \<and> ready b rd)"
| "ready (Array_indexer a b) = (\<lambda>rd. ready a rd \<and> ready b rd)"
| "ready (Call_expression c es) = (\<lambda>rd. ready c rd \<and> list_ready es rd)"
| "ready (Postfix_expression e p) = ready e"
| "ready (Prefix_expression p e) = ready e"
| "ready (Shift_expression a p b) = (\<lambda>rd. False)"
| "ready (Anonymous_function f) = anonymous_ready f"
| "new_ready (Call_expression c es) = (\<lambda>rd. ready c rd \<and> list_ready es rd)"
| "new_ready (Bop_expression a bop b) = ready a"
| "new_ready (Array_indexer a b) = ready a"
| "new_ready (Postfix_expression a p) = ready a"
| "new_ready (Prefix_expression p a) = ready a"
| "new_ready (Shift_expression a p b) = ready a"
| "new_ready (New_object e) = (\<lambda>rd. False)"
| "new_ready (Paren_expression e) = (\<lambda>rd. False)"
| "new_ready (Atom_expression a) = (\<lambda>rd. False)"
| "new_ready (Anonymous_function f) = (\<lambda>rd. False)"
| "list_ready [] = (\<lambda>rd. True)"
| "list_ready (e # es) = (\<lambda>rd. ready e rd \<and> list_ready es rd)"
| "optional_ready None = (\<lambda>rd. True)"
| "optional_ready (Some e) = ready e"
| "atom_ready (Json_object_atom ps) = (\<lambda>rd. False)"
| "atom_ready (Json_array_atom es) = (\<lambda>rd. False)"
| "atom_ready (String_atom s) = (\<lambda>rd. True)"
| "atom_ready (Decimal_atom s) = (\<lambda>rd. True)"
| "atom_ready (Int_atom s) = (\<lambda>rd. True)"
| "atom_ready (Identifier_atom s) = (\<lambda>rd. True)"
| "atom_ready False_atom = (\<lambda>rd. True)"
| "atom_ready True_atom = (\<lambda>rd. True)"
| "atom_ready Null_atom = (\<lambda>rd. True)"
| "anonymous_ready (Func_anonymous as b) = statements_ready b"
| "anonymous_ready (Arrow_arguments as b) = body_or_expression_ready b"
| "anonymous_ready (Arrow_identifier a b) = body_or_expression_ready b"
| "body_or_expression_ready (Arrow_body b) = statements_ready b"
| "body_or_expression_ready (Arrow_expression e) = ready e"
| "statement_ready Semicolon_statement = (\<lambda>rd. True)"
| "statement_ready (Body_statement b) = statements_ready b"
| "statement_ready (Var_statement v) = var_ready v"
| "statement_ready (Function_statement p k w nm as b) = statements_ready b"
| "statement_ready (Expression_statement e) = ready e"
| "statement_ready (For_loop a c i b) = (\<lambda>rd. for_init_ready a rd \<and> optional_ready c rd \<and>
     optional_ready i rd \<and> body_or_statement_ready b rd)"
| "statement_ready (While_loop None b) = (\<lambda>rd. False)"
| "statement_ready (While_loop (Some e) b) = (\<lambda>rd. ready e rd \<and> body_or_statement_ready b rd)"
| "statement_ready (For_in_loop x e b) = (\<lambda>rd. x \<noteq> None \<and> ready e rd \<and> body_or_statement_ready b rd)"
| "statement_ready (If_statement e b None) = (\<lambda>rd. ready e rd \<and> body_or_statement_ready b rd)"
| "statement_ready (If_statement e b (Some eb)) =
     (\<lambda>rd. ready e rd \<and> body_or_statement_ready b rd \<and> body_or_statement_ready eb rd)"
| "statement_ready (Try_catch tb x cb None) = (\<lambda>rd. statements_ready tb rd \<and> statements_ready cb rd)"
| "statement_ready (Try_catch tb x cb (Some fb)) =
     (\<lambda>rd. statements_ready tb rd \<and> statements_ready cb rd \<and> statements_ready fb rd)"
| "statement_ready (Throw_statement e) = ready e"
| "statement_ready Break_statement = (\<lambda>rd. True)"
| "statement_ready Continue_statement = (\<lambda>rd. True)"
| "statement_ready (Return_statement e) = ready e"
| "statements_ready [] = (\<lambda>rd. True)"
| "statements_ready (s # ss) = (\<lambda>rd. statement_ready s rd \<and> statements_ready ss rd)"
| "for_init_ready No_init = (\<lambda>rd. True)"
| "for_init_ready (Expression_init e) = ready e"
| "for_init_ready (Var_init v) = var_ready v"
| "body_or_statement_ready (Braces b) = statements_ready b"
| "body_or_statement_ready (No_braces s) = statement_ready s"
| "var_ready (Var_ctx p k ps) = parts_ready ps"
| "parts_ready [] = (\<lambda>rd. True)"
| "parts_ready (p # ps) = (\<lambda>rd. part_ready p rd \<and> parts_ready ps rd)"
| "part_ready (Var_part x None) = (\<lambda>rd. True)"
| "part_ready (Var_part x (Some e)) = ready e"

text \<open>
  A logical operator is ready if the tree the parser makes of its rewritten text is, whose own logical
  operators are rewritten in turn, \<open>fuel\<close> deep at most.
\<close>

fun rewrite_ready :: "(expression_ctx \<Rightarrow> string) \<Rightarrow> (string \<Rightarrow> expression_ctx) \<Rightarrow> nat \<Rightarrow> rewritable" where
  "rewrite_ready getText parse 0 bop a b = False"
| "rewrite_ready getText parse (Suc fuel) bop a b =
     ready (parse (if bop = ''and'' then and_template (getText a) (getText b) else or_template (getText a) (getText b)))
       (rewrite_ready getText parse fuel)"

definition gives :: "('a \<Rightarrow> bool) \<Rightarrow> 'a gen \<Rightarrow> bool" where
  "gives Q m \<longleftrightarrow> (\<forall>st. \<exists>x st'. m st = Inr (x, st') \<and> Q x)"

abbreviation succeeds :: "'a gen \<Rightarrow> bool" where
  "succeeds \<equiv> gives (\<lambda>_. True)"

definition present :: "'a option \<Rightarrow> bool" where
  "present x \<longleftrightarrow> x \<noteq> None"

lemma present_Some [simp]: "present (Some x)"
  by (simp add: present_def)

abbreviation gives_expr :: "expr option gen \<Rightarrow> bool" where
  "gives_expr \<equiv> gives present"

named_theorems give_rules \<open>visitors return, and expressions are not null\<close>

lemma gives_return [give_rules]: "Q x \<Longrightarrow> gives Q (greturn x)"
  by (simp add: gives_def greturn_def)

lemma gives_bind:
  assumes "gives P m" "\<And>x. P x \<Longrightarrow> gives Q (f x)"
  shows "gives Q (gbind m f)"
  unfolding gives_def
proof
  fix st
  obtain x st1 where "m st = Inr (x, st1)" "P x" using assms(1) unfolding gives_def by blast
  moreover obtain y st2 where "f x st1 = Inr (y, st2)" "Q y" using assms(2)[OF calculation(2)] unfolding gives_def by blast
  ultimately show "\<exists>y st2. gbind m f st = Inr (y, st2) \<and> Q y" by (simp add: gbind_def)
qed

lemmas gives_binds [give_rules] =
  gives_bind[of present]
  gives_bind[of "\<lambda>_. True" m for m :: "expr gen"]
  gives_bind[of "\<lambda>_. True" m for m :: "expr list gen"]
  gives_bind[of "\<lambda>_. True" m for m :: "unit gen"]
  gives_bind[of "\<lambda>_. True" m for m :: "string list gen"]
  gives_bind[of "\<lambda>_. True" m for m :: "(string \<times> expr) gen"]
  gives_bind[of "\<lambda>_. True" m for m :: "stmt list gen"]
  gives_bind[of "\<lambda>_. True" m for m :: "(nat \<times> stmt list) gen"]
  gives_bind[of "\<lambda>_. True" m for m :: "ast gen"]
  gives_bind[of "\<lambda>_. True" m for m :: "ast list gen"]

lemma gives_any: "gives P m \<Longrightarrow> succeeds m"
  unfolding gives_def by blast

lemma gives_needed [give_rules]: "present x \<Longrightarrow> succeeds (needed x)"
  by (auto simp: needed_def present_def intro: give_rules)

lemma gives_simple [give_rules]: "succeeds (push_back s)" "succeeds (push_all ss)" "succeeds (addStaticVar x v)"
  by (simp_all add: gives_def push_back_def push_all_def addStaticVar_def)

lemma gives_enclosed [give_rules]: "succeeds m \<Longrightarrow> succeeds (enclosed m)"
  unfolding gives_def enclosed_def by (metis (mono_tags, lifting) case_prod_conv ebind.simps(2))

lemma gives_function [give_rules]: "succeeds m \<Longrightarrow> succeeds (new_function m)"
  unfolding gives_def new_function_def by (metis (mono_tags, lifting) case_prod_conv ebind.simps(2))

lemma gives_state: "(\<And>st. gives Q (m st)) \<Longrightarrow> gives Q (\<lambda>st. m st (f st))"
  by (simp add: gives_def)

lemma gives_pieces [give_rules]:
  "gives_expr m1 \<Longrightarrow> gives_expr m2 \<Longrightarrow> gives_expr (binary bop m1 m2)"
  "gives_expr m1 \<Longrightarrow> gives_expr m2 \<Longrightarrow> gives_expr (bop_binary bop m1 m2)"
  "gives_expr m1 \<Longrightarrow> succeeds ms \<Longrightarrow> gives_expr (method_call m1 ms)"
  "present k \<Longrightarrow> present v \<Longrightarrow> succeeds (doHandleJsonPair name k v)"
  "succeeds n \<Longrightarrow> succeeds (one_stmt mk n)"
  "gives_expr m1 \<Longrightarrow> succeeds (expression_node m1)"
  unfolding binary_def bop_binary_def method_call_def doHandleJsonPair_def one_stmt_def expression_node_def
  by (auto intro!: give_rules)

lemma gives_for_loop [give_rules]:
  assumes "succeeds m1" "succeeds b" "succeeds m2" "succeeds m3"
  shows "succeeds (for_loop m1 b m2 m3)"
  unfolding for_loop_def by (intro gives_bind[OF assms(1)] gives_bind[OF assms(2)] gives_bind[OF assms(3)]
      gives_bind[OF assms(4)] gives_return) simp

lemma gives_while [give_rules]: "gives_expr mc \<Longrightarrow> succeeds mb \<Longrightarrow> succeeds (while_loop mc mb)"
  unfolding while_loop_def by (auto intro!: give_rules)

lemma gives_conditional [give_rules]:
  "gives_expr mc \<Longrightarrow> succeeds mb \<Longrightarrow> succeeds (conditional mc mb None)"
  "gives_expr mc \<Longrightarrow> succeeds mb \<Longrightarrow> succeeds me \<Longrightarrow> succeeds (conditional mc mb (Some me))"
  unfolding conditional_def by (auto intro!: give_rules)

lemma gives_anonymous [give_rules]: "succeeds b \<Longrightarrow> gives_expr (anonymous args b)"
  unfolding anonymous_def Let_def by (rule gives_state) (auto intro!: give_rules)

lemma gives_json [give_rules]: "(\<And>name. succeeds (fill name)) \<Longrightarrow> gives_expr (json fill)"
  unfolding json_def Let_def by (rule gives_state) (auto intro!: give_rules)

lemma gives_for_in [give_rules]: "gives_expr m \<Longrightarrow> succeeds b \<Longrightarrow> succeeds (for_in x m b)"
  unfolding for_in_def Let_def
  by (rule gives_binds, rule give_rules, rule gives_state) (auto intro!: give_rules)

lemma visit_gives:
  assumes rw: "\<And>bop a b. rd bop a b \<Longrightarrow> gives_expr (rw bop a b)"
  shows "ready e rd \<Longrightarrow> gives_expr (visitExpression rw e)"
    and "new_ready e rd \<Longrightarrow> gives_expr (visitMethodCall rw e)"
    and "list_ready es rd \<Longrightarrow> succeeds (visitExpressionList rw es)"
    and "optional_ready eo rd \<Longrightarrow> succeeds (visitOptional rw eo)"
    and "atom_ready a rd \<Longrightarrow> gives_expr (visitAtom rw a)"
    and "(ps :: json_pair_ctx list) = ps"
    and "(p :: json_pair_ctx) = p"
    and "(es :: expression_ctx list) = es"
    and "anonymous_ready f rd \<Longrightarrow> gives_expr (visitAnonymousFunction rw f)"
    and "body_or_expression_ready be rd \<Longrightarrow> succeeds (visitBodyOrExpression rw be)"
    and "statements_ready ss rd \<Longrightarrow> succeeds (visitStatements rw ss)"
    and "statement_ready s rd \<Longrightarrow> succeeds (visitStatement rw s)"
    and "body_or_statement_ready bs rd \<Longrightarrow> succeeds (visitBodyOrStatement rw bs)"
    and "var_ready v rd \<Longrightarrow> succeeds (visitVar rw v)"
    and "parts_ready ds rd \<Longrightarrow> succeeds (visitVarParts rw ds priv md)"
    and "part_ready d rd \<Longrightarrow> succeeds (visitVarDeclaration rw d)"
  apply (induction e and e and es and eo and a and ps and p and es and f and be and ss and s and bs and v and ds and d
    arbitrary: and and and and and and and and and and and and and and priv md and
    rule: visit_induct)
  apply (simp_all only: visit_simps)
  apply (auto intro!: give_rules split: option.splits if_splits intro: gives_any rw)
  done

lemma rewrite_gives:
  "rewrite_ready getText parse n bop a b \<Longrightarrow> gives_expr (rewrite getText parse n bop a b)"
proof (induction n arbitrary: a b bop)
  case (Suc n)
  from visit_gives(1)[of "rewrite_ready getText parse n" "rewrite getText parse n", OF Suc.IH] Suc.prems
  show ?case by simp
qed simp

text \<open>A class written without parentheses has no argument list to visit.\<close>

lemma class_without_parentheses: "class_arguments cls = None \<Longrightarrow> generate getText parse fuel cls \<noteq> Inr d"
  by (auto simp: generate_def visitClassDeclaration_def visitArguments_def gbind_def gfail_def ebind_Inr_iff)

section \<open>Plain expressions\<close>

text \<open>
  The expressions without sugar (json, anonymous functions, logical operators, shifts, \<open>new\<close>), as the
  tree one reads off the source.
\<close>

fun tree_of :: "expression_ctx \<Rightarrow> expr option"
  and trees_of :: "expression_ctx list \<Rightarrow> expr list option" where
  "tree_of (Paren_expression e) = tree_of e"
| "tree_of (Atom_expression a) =
     (case a of Identifier_atom s \<Rightarrow> Some (Terminal TYPE_IDENTIFIER s)
      | String_atom s \<Rightarrow> Some (Terminal TYPE_STRING (butlast (tl s)))
      | Decimal_atom s \<Rightarrow> Some (Terminal TYPE_NUMBER s) | Int_atom s \<Rightarrow> Some (Terminal TYPE_NUMBER s)
      | False_atom \<Rightarrow> Some (Terminal TYPE_NUMBER ''0'') | Null_atom \<Rightarrow> Some (Terminal TYPE_NUMBER ''0'')
      | True_atom \<Rightarrow> Some (Terminal TYPE_NUMBER ''1'') | _ \<Rightarrow> None)"
| "tree_of (Bop_expression a bop b) =
     (if bop = ''and'' \<or> bop = ''or'' then None
      else case (tree_of a, tree_of b) of
        (Some x, Some y) \<Rightarrow> Some (Binary bop x
           (case y of Terminal TYPE_IDENTIFIER s \<Rightarrow> if bop = ''.'' then Terminal TYPE_STRING s else y | _ \<Rightarrow> y))
      | _ \<Rightarrow> None)"
| "tree_of (Array_indexer a b) =
     (case (tree_of a, tree_of b) of (Some x, Some y) \<Rightarrow> Some (Binary ''.'' x y) | _ \<Rightarrow> None)"
| "tree_of (Prefix_expression p e) = map_option (Prefix p) (tree_of e)"
| "tree_of (Postfix_expression e p) = map_option (Postfix p) (tree_of e)"
| "tree_of (Call_expression c es) =
     (case (tree_of c, trees_of es) of (Some x, Some ys) \<Rightarrow> Some (Method_call x ys) | _ \<Rightarrow> None)"
| "tree_of _ = None"
| "trees_of [] = Some []"
| "trees_of (e # es) = (case (tree_of e, trees_of es) of (Some x, Some ys) \<Rightarrow> Some (x # ys) | _ \<Rightarrow> None)"

lemma gbind_return [simp]: "gbind (greturn x) f = f x"
  by (simp add: gbind_def greturn_def)

lemma needed_Some [simp]: "needed (Some x) = greturn x"
  by (simp add: needed_def)

lemmas visitor_defs = while_loop_def conditional_def binary_def bop_binary_def method_call_def key_operand_def one_stmt_def expression_node_def
  terminal_identifier_def terminal_number_def terminal_string_def

lemma plain_expressions:
  "tree_of e = Some x \<Longrightarrow> visitExpression rw e = greturn (Some x)"
  "trees_of es = Some xs \<Longrightarrow> visitExpressionList rw es = greturn xs"
  by (induction e and es arbitrary: x and xs rule: tree_of_trees_of.induct)
     (auto simp: visit_simps visitor_defs split: option.splits atom_ctx.splits expr.splits ttype.splits if_splits)

section \<open>A sample class\<close>

text \<open>
  \<open>class T() { function f(a, b) { while (a) b = 1; return a and b; } }\<close>; a parser that reads the text its
  \<open>and\<close> becomes, and any other as an identifier.
\<close>

abbreviation ident_ctx :: "string \<Rightarrow> expression_ctx" where
  "ident_ctx s \<equiv> Atom_expression (Identifier_atom s)"

definition sample_source :: class_ctx where
  "sample_source = \<lparr>import_statements = [], class_identifier = ''T'', class_arguments = Some [],
     extended_class = None, class_body = [Function_statement False No_modifier True ''f'' [''a'', ''b'']
       [While_loop (Some (ident_ctx ''a'')) (No_braces (Expression_statement
          (Bop_expression (ident_ctx ''b'') ''='' (Atom_expression (Int_atom ''1''))))),
        Return_statement (Bop_expression (ident_ctx ''a'') ''and'' (ident_ctx ''b''))]]\<rparr>"

fun sample_text :: "expression_ctx \<Rightarrow> string" where
  "sample_text (Bop_expression a bop b) = sample_text a @ bop @ sample_text b"
| "sample_text (Atom_expression (Identifier_atom s)) = s"
| "sample_text _ = []"

definition and_tree :: expression_ctx where
  "and_tree = Call_expression (Paren_expression (Anonymous_function (Arrow_arguments [] (Arrow_body
     [If_statement (ident_ctx ''a'') (Braces [If_statement (ident_ctx ''b'')
        (Braces [Return_statement (Atom_expression (Int_atom ''1''))]) None]) None,
      Return_statement (Atom_expression (Int_atom ''0''))])))) []"

definition sample_parse :: "string \<Rightarrow> expression_ctx" where
  "sample_parse t = (if t = and_template ''a'' ''b'' then and_tree else ident_ctx t)"

definition sample_generated :: class_decl where
  "sample_generated = \<lparr>cls_id = 1, cls_name = ''T'', cls_args = [], cls_body =
     [plain_stmt (Function_node (Func 2 ''f'' [''a'', ''b'']
        [plain_stmt (Loop_node None None (Some (Terminal TYPE_IDENTIFIER ''a''))
           [plain_stmt (Expr_node (Binary ''='' (Terminal TYPE_IDENTIFIER ''b'') (Terminal TYPE_NUMBER ''1'')))]),
         plain_stmt (Function_node (Func 3 ''$anonymous_1'' []
           [plain_stmt (Conditional_node (Terminal TYPE_IDENTIFIER ''a'')
              [plain_stmt (Conditional_node (Terminal TYPE_IDENTIFIER ''b'')
                 [Statement True False False (Expr_node (Terminal TYPE_NUMBER ''1''))] None)] None),
            Statement True False False (Expr_node (Terminal TYPE_NUMBER ''0''))] False False False)),
         Statement True False False (Expr_node (Method_call (Terminal TYPE_IDENTIFIER ''$anonymous_1'') []))]
        False False False)),
      static_constructor []], importsMap = []\<rparr>"

lemma sample_generates: "generate sample_text sample_parse 1 sample_source = Inr sample_generated"
proof -
  have d: "dec_string 1 = ''1''" by (subst dec_string.simps) code_simp
  show ?thesis
    by (simp add: generate_def visitClassDeclaration_def visitArguments_def sample_source_def visit_simps visitor_defs
        sample_parse_def and_tree_def anonymous_def new_function_def enclosed_def gbind_def greturn_def push_back_def push_all_def
        needed_def gstate_init_def importsMap_of_def Let_def d[simplified] sample_generated_def)
qed

section \<open>Properties\<close>

text \<open>
  C36: the classes AstGenerator builds compile. Functions are new objects: no function contains itself as an
  object, and none is the class. So, if moreover every expression of the class has code (\<open>supported\<close>), every
  break is in a loop of its function and no finally block returns, the compiler returns on the class, for all
  large enough budgets the same. (The names of json temporaries are taken to be intact.)
\<close>

theorem generated_class_compiles:
  assumes "generate getText parse fuel cls = Inr d"
  shows "own_ids_body (cls_body d) \<and> cls_id d \<notin> nested_ids_body (cls_body d) \<and>
    (ok_body False True (cls_body d) \<longrightarrow> (\<exists>n p t. \<forall>m \<ge> n. compile m d = Inr (p, t)))"
  using compile_settles[of d] generate_ids[OF assms] by (auto simp: ok_class_def settles_def)

theorem generated_class_compiles_witness:
  "generate sample_text sample_parse 1 sample_source = Inr sample_generated \<and>
   (\<exists>n p t. \<forall>m \<ge> n. compile m sample_generated = Inr (p, t))"
proof -
  have "ok_body False True (cls_body sample_generated)"
    by (simp add: sample_generated_def static_constructor_def toOpcode_def)
  with generated_class_compiles[OF sample_generates] sample_generates show ?thesis by blast
qed

text \<open>
  C37: AstGenerator returns. A class with an argument list whose source never needs a null pointer and has
  no json literal is generated: the visitors return on every statement and expression, on the functions and
  statements they put in place of sugar, and on whatever the parser makes of the rewritten logical
  operators, as long as that, too, needs no null pointer and rewriting nests at most \<open>fuel\<close> deep. Nothing is
  assumed of the parser on any other text.
\<close>

theorem generator_returns:
  assumes "statements_ready (class_body cls) (rewrite_ready getText parse fuel)" "class_arguments cls \<noteq> None"
  shows "\<exists>d. generate getText parse fuel cls = Inr d"
proof -
  have "succeeds (visitClassDeclaration (rewrite getText parse fuel) cls)"
    unfolding visitClassDeclaration_def visitArguments_def
    using visit_gives(11)[of "rewrite_ready getText parse fuel" "rewrite getText parse fuel", OF rewrite_gives assms(1)]
      assms(2)
    by (auto intro!: give_rules split: option.splits)
  then obtain c st where "visitClassDeclaration (rewrite getText parse fuel) cls gstate_init = Inr (c, st)"
    unfolding gives_def by blast
  then show ?thesis by (simp add: generate_def)
qed

theorem generator_returns_witness:
  "\<exists>d. generate sample_text sample_parse 1 sample_source = Inr d"
  by (rule generator_returns) (simp_all add: sample_source_def sample_parse_def and_tree_def)

text \<open>
  C38: different sources, one translation. The operands of logical operators become text without white
  space, so \<open>a and b and e\<close> is translated as if it read the variable \<open>aandb\<close>; \<open>new\<close> keeps only the first
  operand of what follows, so \<open>new f(x) + e\<close> is a call of the new object; and a for loop without a
  condition takes its step for the condition.
\<close>

theorem sources_confused:
  assumes "\<And>x bop y. getText (Bop_expression x bop y) = getText x @ bop @ getText y"
    and "\<And>s. getText (Atom_expression (Identifier_atom s)) = s"
  shows "visitExpression (rewrite getText parse n) (Bop_expression (Bop_expression
       (Atom_expression (Identifier_atom a)) ''and'' (Atom_expression (Identifier_atom b))) ''and'' e) =
     visitExpression (rewrite getText parse n)
       (Bop_expression (Atom_expression (Identifier_atom (a @ ''and'' @ b))) ''and'' e) \<and>
   visitExpression rw (New_object (Bop_expression (Call_expression f es) bop e)) =
     visitExpression rw (Call_expression (Call_expression f es) []) \<and>
   visitStatement rw (For_loop (Var_init v) None (Some step) body) =
     visitStatement rw (For_loop (Var_init v) (Some step) None body)"
proof -
  have "rewrite getText parse n bop (Bop_expression (Atom_expression (Identifier_atom a)) ''and''
      (Atom_expression (Identifier_atom b))) e =
    rewrite getText parse n bop (Atom_expression (Identifier_atom (a @ ''and'' @ b))) e" for bop
    by (cases n) (simp_all add: assms)
  then show ?thesis by (simp add: visit_simps)
qed

theorem sources_confused_witness:
  "\<forall>n. visitExpression (rewrite sample_text (\<lambda>_. and_tree) n) (Bop_expression (Bop_expression
       (ident_ctx ''x'') ''and'' (ident_ctx ''y'')) ''and'' (ident_ctx ''z'')) =
     visitExpression (rewrite sample_text (\<lambda>_. and_tree) n)
       (Bop_expression (ident_ctx ''xandy'') ''and'' (ident_ctx ''z''))"
  using sources_confused[of sample_text "\<lambda>_. and_tree" _ "''x''" "''y''" "ident_ctx ''z''"] by simp

text \<open>
  A loop without braces lets its body's sugar escape. With braces the object of a json literal
  is made in the body, once for every iteration; without them the statement that makes it is put in front of
  the loop, and all iterations share the object.
\<close>

theorem braceless_loop_shares_object:
  assumes "tree_of c = Some x" 
  shows "visitStatement rw (While_loop (Some c) (Braces [Expression_statement
           (Bop_expression (Atom_expression (Identifier_atom v)) ''='' (Atom_expression (Json_object_atom [])))])) st =
         Inr ([plain_stmt (Loop_node None None (Some x)
                [plain_stmt (Var_node (''$tempJson'' @ dec_string (jsonObjectCount st + 1)) 
                   (Method_call (terminal_identifier ''Object'') []) False False False),
                 plain_stmt (Expr_node (Binary ''='' (terminal_identifier v)
                   (terminal_identifier (''$tempJson'' @ dec_string (jsonObjectCount st + 1)))))])],
              st\<lparr>jsonObjectCount := jsonObjectCount st + 1\<rparr>) \<and>
         visitStatement rw (While_loop (Some c) (No_braces (Expression_statement
           (Bop_expression (Atom_expression (Identifier_atom v)) ''='' (Atom_expression (Json_object_atom [])))))) st =
         Inr ([plain_stmt (Loop_node None None (Some x)
                [plain_stmt (Expr_node (Binary ''='' (terminal_identifier v)
                   (terminal_identifier (''$tempJson'' @ dec_string (jsonObjectCount st + 1)))))])],
              st\<lparr>jsonObjectCount := jsonObjectCount st + 1,
                 here := here st @ [plain_stmt (Var_node (''$tempJson'' @ dec_string (jsonObjectCount st + 1)) 
                   (Method_call (terminal_identifier ''Object'') []) False False False)]\<rparr>)"
  by (simp add: visit_simps plain_expressions(1)[OF assms] visitor_defs json_def Let_def gbind_def greturn_def
      push_back_def push_all_def enclosed_def)

theorem braceless_loop_shares_object_witness:
  "\<exists>st1. visitStatement (rewrite sample_text (\<lambda>_. and_tree) 0) (While_loop (Some (ident_ctx ''a'')) (No_braces (Expression_statement
      (Bop_expression (ident_ctx ''b'') ''='' (Atom_expression (Json_object_atom [])))))) gstate_init =
    Inr ([plain_stmt (Loop_node None None (Some (Terminal TYPE_IDENTIFIER ''a''))
      [plain_stmt (Expr_node (Binary ''='' (terminal_identifier ''b'')
        (terminal_identifier (''$tempJson'' @ dec_string (jsonObjectCount gstate_init + 1)))))])], st1)"
proof -
  have "tree_of (ident_ctx ''a'') = Some (Terminal TYPE_IDENTIFIER ''a'')" by simp
  from braceless_loop_shares_object[OF this] show ?thesis by blast
qed

end
