(* ===== verification/Driver.thy ===== *)
theory Driver
  imports GeneratedClasses Assembler Interpreter
begin

text \<open>
  src/src/main.cpp and \<open>load_class_code\<close> of src/src/interpreter/object.c: from the command line to
  the run of a class or to a written class file. Files are a function from paths to their bytes.
  What the program takes from outside is the record \<open>toolchain\<close>: the parser (\<open>parseClass\<close> for a file,
  \<open>parseExpression\<close> for a rewritten text), ANTLR's \<open>getText\<close>, the addresses and left-over memory the
  assembler sees, and the budgets of the two phases that recurse.
\<close>

section \<open>Compiling a file\<close>

record toolchain =
  parseClass :: "byte list \<Rightarrow> class_ctx"
  parseExpression :: "string \<Rightarrow> expression_ctx"
  getText :: "expression_ctx \<Rightarrow> string"
  gen_fuel :: nat
  comp_fuel :: nat
  text_address :: "operand \<Rightarrow> uint_t"
  left_over :: "byte list"
  first_gc :: nat

type_synonym files = "string \<Rightarrow> byte list option"

text \<open>A stream on a file that cannot be opened is empty.\<close>

definition compile_file :: "toolchain \<Rightarrow> files \<Rightarrow> string \<Rightarrow> fault + byte list" where
  "compile_file tc fs filename =
     ebind (generate (getText tc) (parseExpression tc) (gen_fuel tc)
             (parseClass tc (case fs filename of None \<Rightarrow> [] | Some bytes \<Rightarrow> bytes))) (\<lambda>cls.
     ebind (compile (comp_fuel tc) cls) (\<lambda>(p, tabs). assemble (text_address tc) (left_over tc) tabs p))"

section \<open>Finding a class\<close>

text \<open>\<open>snprintf(file_to_load, size, ...)\<close> writes at most \<open>size - 1\<close> characters and a NUL.\<close>

definition snprintf_path :: "nat \<Rightarrow> string \<Rightarrow> string \<Rightarrow> string \<Rightarrow> string" where
  "snprintf_path n path name ending = take (n - 1) (path @ ''/'' @ name @ ending)"

definition load_class_code :: "toolchain \<Rightarrow> files \<Rightarrow> string \<Rightarrow> string \<Rightarrow> fault + byte list" where
  "load_class_code tc fs class_path cname =
     (let n = length cname + length class_path + 5 in
      case fs (snprintf_path n class_path cname ''.zcl'') of
        Some bytes \<Rightarrow> Inr bytes
      | None \<Rightarrow>
          (case fs (snprintf_path n class_path cname ''.zs'') of
             None \<Rightarrow> Inl (Exit_Error (''cannot find class or variable '' @ cname))
           | Some src \<Rightarrow> compile_file tc fs (snprintf_path n class_path cname ''.zs'')))"

section \<open>main\<close>

text \<open>
  What a call of the program ends with: a written file, or the machine after the run. \<open>argv\<close> holds the
  program's name first; without arguments \<open>filename\<close> is a null pointer. Cutting three characters off
  a shorter file name writes before the block.
\<close>

datatype main_result = Written string "byte list" | Finished machine

definition class_name_of :: "string \<Rightarrow> fault + string" where
  "class_name_of filename =
     (if length filename < 3 then Inl Out_Of_Bounds else Inr (take (length filename - 3) filename))"

definition run_script :: "toolchain \<Rightarrow> files \<Rightarrow> nat \<Rightarrow> string \<Rightarrow> string option \<Rightarrow> fault + main_result" where
  "run_script tc fs n filename cp =
     (let file_path = (case cp of None \<Rightarrow> filename | Some p \<Rightarrow> p @ ''/'' @ filename);
          load = load_class_code tc fs (case cp of None \<Rightarrow> ''.'' | Some p \<Rightarrow> p) in
      ebind (compile_file tc fs file_path) (\<lambda>bytes.
      ebind (class_name_of filename) (\<lambda>name.
      ebind (run_main load n (first_gc tc) name bytes) (\<lambda>m. Inr (Finished m)))))"

definition main :: "toolchain \<Rightarrow> files \<Rightarrow> nat \<Rightarrow> string list \<Rightarrow> fault + main_result" where
  "main tc fs n argv =
     (case argv of
        [p0, flag, filename, out] \<Rightarrow>
          ebind (compile_file tc fs filename) (\<lambda>bytes. Inr (Written out bytes))
      | [p0, filename, cp] \<Rightarrow> run_script tc fs n filename (Some cp)
      | p0 # filename # rest \<Rightarrow> run_script tc fs n filename None
      | _ \<Rightarrow> Inl Null_Deref)"

section \<open>Compiled classes are not found\<close>

lemma snprintf_zcl:
  "snprintf_path (length name + length path + 5) path name ''.zcl'' = path @ ''/'' @ name @ ''.zc''"
proof -
  have "path @ ''/'' @ name @ ''.zcl'' = (path @ ''/'' @ name @ ''.zc'') @ ''l''" by simp
  moreover have "length name + length path + 5 - 1 = length (path @ ''/'' @ name @ ''.zc'')" by simp
  ultimately show ?thesis unfolding snprintf_path_def by (metis append_eq_conv_conj)
qed

lemma snprintf_zs:
  "snprintf_path (length name + length path + 5) path name ''.zs'' = path @ ''/'' @ name @ ''.zs''"
  by (simp add: snprintf_path_def)

text \<open>
  C39: the loader does not see compiled classes. The buffer is one character short, so that it looks for
  \<open>name.zc\<close>: whatever \<open>name.zcl\<close> holds, the class that is loaded is the same, the compiled source.
\<close>

theorem compiled_class_ignored:
  "load_class_code tc (fs(path @ ''/'' @ name @ ''.zcl'' := any)) path name = 
   load_class_code tc (fs(path @ ''/'' @ name @ ''.zcl'' := None)) path name"
  by (simp add: load_class_code_def snprintf_zcl snprintf_zs Let_def compile_file_def split: option.split)

end
