(* ===== verification/Blocks.thy ===== *)
theory Blocks
  imports Interpreter Assembler
begin

text \<open>
  Straight-line code on numbers, from the instructions the compiler emits to the interpreter's dispatch:
  \<open>reg_step\<close> says what an instruction does to the locals of the current context; an instruction that is
  encoded in the byte stream and linked is dispatched as \<open>reg_step\<close> says; and a block of such instructions
  inside a program that Assembler encoded is executed where it stands in the file.
\<close>

section \<open>Instructions on locals\<close>

definition is_num :: "z_reg \<Rightarrow> bool" where
  "is_num v \<longleftrightarrow> rtype v = RT_NUMBER"

lemma is_num_reg [simp]: "is_num (num_reg w)" "val (num_reg w) = w"
  by (simp_all add: is_num_def num_reg_def)

text \<open>The value of an operation on two numbers; division by zero throws.\<close>

definition number_op :: "opcode \<Rightarrow> uint_t \<Rightarrow> uint_t \<Rightarrow> uint_t option" where
  "number_op c x y =
     (if c = ADD then Some (f64_add x y)
      else if c = SUB then Some (f64_sub x y)
      else if c = MUL then Some (f64_mul x y)
      else if c = DIV then if f64_eq y 0 then None else Some (f64_div x y)
      else if c = MOD then Some (f64_mod x y)
      else if c = CMP_EQUAL then Some (f64_of_bool (f64_eq x y))
      else if c = CMP_N_EQUAL then Some (f64_of_bool (f64_ne x y))
      else if c = CMP_LESS then Some (f64_of_bool (f64_lt x y))
      else if c = CMP_LESS_OR_EQUAL then Some (f64_of_bool (f64_le x y))
      else if c = CMP_GREATER then Some (f64_of_bool (f64_gt x y))
      else if c = CMP_GREATER_OR_EQUAL then Some (f64_of_bool (f64_ge x y))
      else None)"

fun reg_step :: "z_instruction \<Rightarrow> z_reg list \<Rightarrow> z_reg list option" where
  "reg_step i ls =
     (case (r0 i, r1 i, r2 i) of
        (Num a, Str d, _) \<Rightarrow>
          (case number_word d of
             Inr w \<Rightarrow> if opc i = MOV_NUMBER \<and> a < length ls then Some (ls[a := num_reg w]) else None
           | Inl _ \<Rightarrow> None)
      | (Num a, Num b, Num d) \<Rightarrow>
          if opc i = MOV then (if a < length ls \<and> b < length ls then Some (ls[a := ls ! b]) else None)
          else if a < length ls \<and> b < length ls \<and> d < length ls \<and> is_num (ls ! a) \<and> is_num (ls ! b)
          then map_option (\<lambda>w. ls[d := num_reg w]) (number_op (opc i) (val (ls ! a)) (val (ls ! b)))
          else None
      | _ \<Rightarrow> None)"

fun reg_steps :: "z_instruction list \<Rightarrow> z_reg list \<Rightarrow> z_reg list option" where
  "reg_steps [] ls = Some ls"
| "reg_steps (i # is) ls = Option.bind (reg_step i ls) (reg_steps is)"

declare reg_step.simps [simp del]

lemma reg_steps_append: "reg_steps (is @ js) ls = Option.bind (reg_steps is ls) (reg_steps js)"
  by (induction "is" arbitrary: ls) (auto split: bind_splits)

lemma reg_step_length: "reg_step i ls = Some ls' \<Longrightarrow> length ls' = length ls"
  by (auto simp: reg_step.simps split: operand.splits sum.splits if_splits)

lemma reg_steps_length: "reg_steps is ls = Some ls' \<Longrightarrow> length ls' = length ls"
  by (induction "is" arbitrary: ls) (auto simp: bind_eq_Some_conv dest: reg_step_length)

section \<open>The interpreter takes the step\<close>

text \<open>The machine \<open>m\<close> with other locals in the context \<open>x\<close> at \<open>c\<close>.\<close>

definition with_locals :: "uint_t \<Rightarrow> ctx \<Rightarrow> z_reg list \<Rightarrow> machine \<Rightarrow> machine" where
  "with_locals c x ls m = put_ctx c (x\<lparr>locals := Some ls\<rparr>) m"

lemma get_ctx_with_locals: "get_ctx c m = Inr y \<Longrightarrow> get_ctx c (with_locals c x ls m) = Inr (x\<lparr>locals := Some ls\<rparr>)"
  by (auto simp: with_locals_def get_ctx_def put_ctx_def put_object_def get_object_def split: option.splits)

lemma put_put_ctx: "put_ctx c y (put_ctx c x m) = put_ctx c y m"
  by (cases "heap m c") (simp_all add: put_ctx_def put_object_def)

lemma get_reg_with_locals:
  "get_ctx c m = Inr y \<Longrightarrow> i < length ls \<Longrightarrow> get_reg c i (with_locals c x ls m) = Inr (ls ! i)"
  by (simp add: get_reg_def get_ctx_with_locals)

lemma set_reg_with_locals:
  "get_ctx c m = Inr y \<Longrightarrow> i < length ls \<Longrightarrow>
   set_reg c i v (with_locals c x ls m) = Inr (with_locals c x (ls[i := v]) m)"
  by (simp add: set_reg_def get_ctx_with_locals) (simp add: with_locals_def put_put_ctx)

lemma get_state_with_locals: "get_state s (with_locals c x ls m) = get_state s m"
  by (simp add: with_locals_def get_state_def put_ctx_def put_object_def)

definition encoded_at :: "(operand \<Rightarrow> uint_t) \<Rightarrow> byte list \<Rightarrow> nat \<Rightarrow> z_instruction \<Rightarrow> bool" where
  "encoded_at addr b a i \<longleftrightarrow> (\<exists>e. encode_instr addr i = Inr e \<and> take 32 (drop a b) = e)"

lemma operand_word_reg: "n < 2 ^ 64 \<Longrightarrow> unat (operand_word addr (Num n)) = n"
  by (simp add: unsigned_of_nat take_bit_nat_eq_self)


lemma goes_on:
  assumes "get_state s m = Inr st" "get_ctx (cur r) m = Inr y"
  shows "operand_at k s r (with_locals (cur r) x ls m) = read_word (byte_stream st) (ip r + k)"
  using assms by (simp add: operand_at_def get_state_with_locals)

lemma reads_register:
  assumes "get_state s m = Inr st" "get_ctx (cur r) m = Inr y"
    "read_word (byte_stream st) (ip r + k) = Inr (word_of_nat i)" "i < length ls" "length ls \<le> 2 ^ 64"
  shows "reg_in k s r (with_locals (cur r) x ls m) = Inr (ls ! i)"
    "reg_out k v s r (with_locals (cur r) x ls m) = Inr (with_locals (cur r) x (ls[i := v]) m)"
proof -
  have "unat (word_of_nat i :: uint_t) = i" using assms(4,5) by (simp add: unsigned_of_nat take_bit_nat_eq_self)
  then show "reg_in k s r (with_locals (cur r) x ls m) = Inr (ls ! i)"
    "reg_out k v s r (with_locals (cur r) x ls m) = Inr (with_locals (cur r) x (ls[i := v]) m)"
    using assms by (simp_all add: reg_in_def reg_out_def goes_on get_reg_with_locals set_reg_with_locals)
qed

lemma mov_number_taken:
  assumes "get_state s m = Inr st" "get_ctx (cur r) m = Inr y" "encoded_at addr (byte_stream st) (ip r) i"
    "r0 i = Num a" "r1 i = Str d" "number_word d = Inr w" "opc i = MOV_NUMBER" "a < length ls" "length ls \<le> 2 ^ 64"
  shows "op_mov_number s r (with_locals (cur r) x ls m) = Inr (goto_next r, with_locals (cur r) x (ls[a := num_reg w]) m)"
proof -
  obtain e where e: "encode_instr addr i = Inr e" "take 32 (drop (ip r) (byte_stream st)) = e"
    using assms(3) by (auto simp: encoded_at_def)
  note words = encoded_words[OF e]
  have "read_word (byte_stream st) (ip r + 16) = Inr w"
    using words(3) assms(4-7) by (simp add: middle_word_def takes_number_def)
  moreover have "read_word (byte_stream st) (ip r + 8) = Inr (word_of_nat a)" using words(2) assms(4) by simp
  ultimately show ?thesis
    using reads_register(2)[OF assms(1,2) _ assms(8,9)] assms(1,2)
    by (simp add: op_mov_number_def goes_on next_after_def)
qed

lemma mov_taken:
  assumes "get_state s m = Inr st" "get_ctx (cur r) m = Inr y" "encoded_at addr (byte_stream st) (ip r) i"
    "r0 i = Num a" "r1 i = Num b" "opc i = MOV" "a < length ls" "b < length ls" "length ls \<le> 2 ^ 64"
  shows "op_mov s r (with_locals (cur r) x ls m) = Inr (goto_next r, with_locals (cur r) x (ls[a := ls ! b]) m)"
proof -
  obtain e where e: "encode_instr addr i = Inr e" "take 32 (drop (ip r) (byte_stream st)) = e"
    using assms(3) by (auto simp: encoded_at_def)
  note words = encoded_words[OF e]
  have "read_word (byte_stream st) (ip r + 16) = Inr (word_of_nat b)"
    using words(3) assms(4-6) by (simp add: middle_word_def takes_number_def less_eq_opcode_def)
  moreover have "read_word (byte_stream st) (ip r + 8) = Inr (word_of_nat a)" using words(2) assms(4) by simp
  ultimately show ?thesis
    using reads_register(1)[OF assms(1,2) _ assms(8,9)] reads_register(2)[OF assms(1,2) _ assms(7,9)]
    by (simp add: op_mov_def next_after_def)
qed

lemma number_op_taken:
  assumes st: "get_state s m = Inr st" "get_ctx (cur r) m = Inr y" and enc: "encoded_at addr (byte_stream st) (ip r) i"
    and ops: "r0 i = Num a" "r1 i = Num b" "r2 i = Num d"
    and len: "a < length ls" "b < length ls" "d < length ls" "length ls \<le> 2 ^ 64"
    and num: "is_num (ls ! a)" "is_num (ls ! b)" "number_op (opc i) (val (ls ! a)) (val (ls ! b)) = Some w"
  shows "exec_instr load runner (opc i) s r (with_locals (cur r) x ls m) =
    Inr (goto_next r, with_locals (cur r) x (ls[d := num_reg w]) m)"
proof -
  obtain e where e: "encode_instr addr i = Inr e" "take 32 (drop (ip r) (byte_stream st)) = e"
    using enc by (auto simp: encoded_at_def)
  note words = encoded_words[OF e]
  have nt: "\<not> takes_number (opc i)"
    using num(3) by (auto simp: number_op_def takes_number_def less_eq_opcode_def split: if_splits)
  have w: "read_word (byte_stream st) (ip r + 8) = Inr (word_of_nat a)"
    "read_word (byte_stream st) (ip r + 16) = Inr (word_of_nat b)"
    "read_word (byte_stream st) (ip r + 24) = Inr (word_of_nat d)"
    using words(2-4) ops nt by (simp_all add: middle_word_def)
  note io = reads_register(1)[OF st w(1) len(1,4)] reads_register(1)[OF st w(2) len(2,4)]
    reads_register(2)[OF st w(3) len(3,4)]
  show ?thesis
    using num by (auto simp: number_op_def exec_instr_def op_add_def op_sub_def op_mul_def op_div_def op_mod_def
        op_arith_def op_cmp_def io next_after_def is_num_def split: if_splits)
qed

lemma step_taken:
  assumes st: "get_state s m = Inr st" "get_ctx (cur r) m = Inr y" and enc: "encoded_at addr (byte_stream st) (ip r) i"
    and "is_linked (linked r) (ip r)" "reg_step i ls = Some ls'" "length ls \<le> 2 ^ 64"
  shows "dispatch load runner s (Goto r) (with_locals (cur r) x ls m) = Inr (goto_next r, with_locals (cur r) x ls' m)"
proof -
  obtain e where e: "encode_instr addr i = Inr e" "take 32 (drop (ip r) (byte_stream st)) = e"
    using enc by (auto simp: encoded_at_def)
  have "operand_at 0 s r (with_locals (cur r) x ls m) = Inr (word_of_nat (opcode_num (opc i)))"
    using encoded_words(1)[OF e] goes_on[OF st, of 0 x ls] by simp
  then have d: "dispatch load runner s (Goto r) (with_locals (cur r) x ls m) =
      exec_instr load runner (opc i) s r (with_locals (cur r) x ls m)"
    using assms(4) by (simp add: dispatch_def)
  from assms(5) consider (number) a d w where "r0 i = Num a" "r1 i = Str d" "number_word d = Inr w"
      "opc i = MOV_NUMBER" "a < length ls" "ls' = ls[a := num_reg w]"
    | (op) a b d w where "r0 i = Num a" "r1 i = Num b" "r2 i = Num d" "a < length ls" "b < length ls" "d < length ls"
      "is_num (ls ! a)" "is_num (ls ! b)" "number_op (opc i) (val (ls ! a)) (val (ls ! b)) = Some w"
      "ls' = ls[d := num_reg w]"
    | (mov) a b where "r0 i = Num a" "r1 i = Num b" "opc i = MOV" "a < length ls" "b < length ls" "ls' = ls[a := ls ! b]"
    by (auto simp: reg_step.simps split: operand.splits sum.splits if_splits)
  then show ?thesis
  proof cases
    case number
    from mov_number_taken[OF st enc number(1-5) assms(6)] number show ?thesis by (simp add: d exec_instr_def)
  next
    case op
    from number_op_taken[OF st enc op(1-6) assms(6) op(7-9)] op(10) show ?thesis by (simp add: d)
  next
    case mov
    from mov_taken[OF st enc mov(1-5) assms(6)] mov show ?thesis by (simp add: d exec_instr_def)
  qed
qed


text \<open>A block of instructions, as part of any run that has enough instructions left.\<close>

lemma block_taken:
  assumes "get_state s m = Inr st" "get_ctx (cur r) m = Inr y"
    and "\<forall>k < length is. encoded_at addr (byte_stream st) (a + 32 * k) (is ! k) \<and> is_linked (linked r) (a + 32 * k)"
    and "reg_steps is ls = Some ls'" "length ls \<le> 2 ^ 64"
  shows "exec load (length is + n) s (Goto (r\<lparr>ip := a\<rparr>)) (with_locals (cur r) x ls m) =
    exec load n s (Goto (r\<lparr>ip := a + 32 * length is\<rparr>)) (with_locals (cur r) x ls' m)"
  using assms(3-5)
proof (induction "is" arbitrary: a ls)
  case Nil
  then show ?case by simp
next
  case (Cons i js)
  obtain ls1 where l: "reg_step i ls = Some ls1" "reg_steps js ls1 = Some ls'"
    using Cons.prems(2) by (auto simp: bind_eq_Some_conv)
  let ?r = "r\<lparr>ip := a\<rparr>"
  have d: "dispatch load runner s (Goto ?r) (with_locals (cur r) x ls m) =
      Inr (Goto (r\<lparr>ip := a + 32\<rparr>), with_locals (cur r) x ls1 m)" for runner
    using step_taken[of s m st ?r y addr i ls ls1 load runner x] assms(1,2) Cons.prems(1,3) l(1)
    by (fastforce simp: goto_next_def)
  have "\<forall>k < length js. encoded_at addr (byte_stream st) (a + 32 + 32 * k) (js ! k) \<and> is_linked (linked r) (a + 32 + 32 * k)"
  proof (intro allI impI)
    fix k assume "k < length js"
    with Cons.prems(1) have "encoded_at addr (byte_stream st) (a + 32 * Suc k) ((i # js) ! Suc k) \<and>
      is_linked (linked r) (a + 32 * Suc k)" by (metis Suc_less_eq length_Cons)
    then show "encoded_at addr (byte_stream st) (a + 32 + 32 * k) (js ! k) \<and> is_linked (linked r) (a + 32 + 32 * k)"
      by (simp add: add.assoc)
  qed
  from Cons.IH[OF this l(2)] reg_step_length[OF l(1)] Cons.prems(3)
  show ?case by (simp add: d add.assoc)
qed

section \<open>From the assembled file to the value\<close>

lemma reals_append: "reals (xs @ ys) (length xs + k) = reals xs (length xs) + reals ys k"
  by (simp add: reals_def)

lemma reals_all: "\<forall>i \<in> set xs. is_real i \<Longrightarrow> k \<le> length xs \<Longrightarrow> reals xs k = k"
  by (simp add: reals_def filter_id_conv) (metis in_set_takeD filter_id_conv length_take min.absorb2)

lemma assembled_plain:
  assumes "assemble addr junk tabs p = Inr b" "6 \<le> length junk" "i < length p" "is_real (p ! i)"
    "opc (p ! i) \<notin> {IMPORT_CLS, MOV_STR, GET_FIELD_IMMEDIATE, FFRAME}" "label_operand (p ! i) = None"
  shows "encoded_at addr b (length b - 32 * reals p (length p) + 32 * reals p i) (p ! i)"
proof -
  obtain p' c lm where p': "constants_pass tabs p (word_bytes 0 @ take 8 (cstr '' '' @ junk)) = Inr (p', c)"
    and c: "length b = length c + 32 * reals p (length p)"
    and code: "\<forall>i < length p. is_real (p ! i) \<longrightarrow> (\<exists>i' e. link_instr lm (p' ! i) = Inr i' \<and>
       encode_instr addr i' = Inr e \<and> take 32 (drop (length c + 32 * reals p i) b) = e)"
    by (rule assemble_parts[OF assms(1,2)])
  have "p' ! i = p ! i" using constants_pass_same(2)[OF p' assms(3)] assms(5) by simp
  then show ?thesis using code assms(3,4,6) c by (force simp: encoded_at_def link_instr_plain)
qed

lemma reg_step_plain:
  assumes "reg_step i ls = Some ls'"
  shows "is_real i" "opc i \<notin> {IMPORT_CLS, MOV_STR, GET_FIELD_IMMEDIATE, FFRAME}" "label_operand i = None"
proof -
  have "opc i = MOV_NUMBER \<or> opc i = MOV \<or> (\<exists>x y. number_op (opc i) x y \<noteq> None)"
    using assms by (auto simp: reg_step.simps split: operand.splits sum.splits if_splits)
  then have "opc i \<in> {MOV_NUMBER, MOV, ADD, SUB, MUL, DIV, MOD, CMP_EQUAL, CMP_N_EQUAL, CMP_LESS, CMP_LESS_OR_EQUAL,
      CMP_GREATER, CMP_GREATER_OR_EQUAL}"
    by (auto simp: number_op_def split: if_splits)
  then show "is_real i" "opc i \<notin> {IMPORT_CLS, MOV_STR, GET_FIELD_IMMEDIATE, FFRAME}" "label_operand i = None"
    by (auto simp: is_real_def label_operand_def less_eq_opcode_def)
qed

lemma reg_steps_plain:
  assumes "reg_steps is ls = Some ls'" "i \<in> set is"
  shows "\<exists>xs ys. reg_step i xs = Some ys"
  using assms by (induction "is" arbitrary: ls) (auto simp: bind_eq_Some_conv)

text \<open>The block of a program that is assembled stands in the file, instruction after instruction.\<close>

lemma block_assembled:
  assumes "assemble addr junk tabs (pre @ is @ post) = Inr b" "6 \<le> length junk" "reg_steps is ls = Some ls'"
    "k < length is"
  shows "encoded_at addr b (length b - 32 * reals (is @ post) (length (is @ post)) + 32 * k) (is ! k)"
proof -
  let ?p = "pre @ is @ post"
  obtain xs ys where "reg_step (is ! k) xs = Some ys" using reg_steps_plain[OF assms(3)] assms(4) by force
  note plain = reg_step_plain[OF this]
  have nth: "?p ! (length pre + k) = is ! k" using assms(4) by (simp add: nth_append)
  have "\<forall>i \<in> set is. is_real i" using reg_steps_plain[OF assms(3)] reg_step_plain(1) by blast
  then have "reals is k = k" using assms(4) by (simp add: reals_all)
  then have off: "reals ?p (length pre + k) = reals pre (length pre) + k" "reals (is @ post) k = k"
    using reals_append[of pre "is @ post" k] assms(4) by (simp_all add: reals_def)
  have len: "reals ?p (length ?p) = reals pre (length pre) + reals (is @ post) (length (is @ post))"
    using reals_append[of pre "is @ post" "length (is @ post)"] by simp
  have "32 * reals ?p (length ?p) \<le> length b"
    using assembled_at[OF assms(1,2)] by auto
  then have "length b - 32 * reals ?p (length ?p) + 32 * reals ?p (length pre + k) =
      length b - 32 * reals (is @ post) (length (is @ post)) + 32 * k"
    unfolding off len by simp
  with assembled_plain[OF assms(1,2), of "length pre + k"] nth plain assms(4) show ?thesis by simp
qed

section \<open>A block about to run\<close>

lemma with_own_locals: "get_ctx c m = Inr y \<Longrightarrow> locals y = Some ls \<Longrightarrow> with_locals c y ls m = m"
proof -
  assume a: "get_ctx c m = Inr y" "locals y = Some ls"
  from a(2) have y: "y\<lparr>locals := Some ls\<rparr> = y" by simp
  from a(1) obtain x where x: "heap m c = Some x" "ob x = Context y"
    by (auto simp: get_ctx_def get_object_def ebind_Inr_iff split: option.splits z_object.splits)
  then have "x\<lparr>ob := Context y\<rparr> = x" by simp
  with x have "put_ctx c y m = m" by (simp add: put_ctx_def put_object_def fun_upd_idem)
  then show "with_locals c y ls m = m" by (simp only: with_locals_def y)
qed

text \<open>
  The run \<open>r\<close> of state \<open>s\<close> in \<open>m\<close> is about to execute the block \<open>is\<close>: the state's byte stream is a
  program containing the block, as the assembler encodes it; the instruction pointer is where the
  block begins, counted from the end of the file; and the block's instructions are linked.
\<close>

definition about_to_run :: "program \<Rightarrow> nat \<Rightarrow> activation \<Rightarrow> machine \<Rightarrow> bool" where
  "about_to_run is s r m \<longleftrightarrow>
     (\<exists>addr junk (tabs :: nat \<Rightarrow> func fkind) pre post zst.
        get_state s m = Inr zst \<and> 6 \<le> length junk \<and>
        assemble addr junk tabs (pre @ is @ post) = Inr (byte_stream zst) \<and>
        ip r + 32 * reals (is @ post) (length (is @ post)) = length (byte_stream zst) \<and>
        (\<forall>k < length is. is_linked (linked r) (ip r + 32 * k)))"

text \<open>The machine and the run after the block, when it leaves the locals \<open>ls'\<close>.\<close>

definition runs_to :: "program \<Rightarrow> nat \<Rightarrow> activation \<Rightarrow> machine \<Rightarrow> ctx \<Rightarrow> z_reg list \<Rightarrow> bool" where
  "runs_to is s r m y ls' \<longleftrightarrow> (\<forall>load n. exec load (length is + n) s (Goto r) m =
     exec load n s (Goto (r\<lparr>ip := ip r + 32 * length is\<rparr>)) (put_ctx (cur r) (y\<lparr>locals := Some ls'\<rparr>) m))"

lemma block_executed:
  assumes "about_to_run is s r m" "get_ctx (cur r) m = Inr y" "locals y = Some ls" "length ls \<le> 2 ^ 64"
    and run: "reg_steps is ls = Some ls'"
  shows "runs_to is s r m y ls'"
proof -
  obtain addr junk tabs pre post zst where z: "get_state s m = Inr zst" "6 \<le> length junk"
    "assemble addr junk (tabs :: nat \<Rightarrow> func fkind) (pre @ is @ post) = Inr (byte_stream zst)"
    and ip: "ip r + 32 * reals (is @ post) (length (is @ post)) = length (byte_stream zst)"
    and linked: "\<forall>k < length is. is_linked (linked r) (ip r + 32 * k)"
    using assms(1) unfolding about_to_run_def by blast
  have "ip r = length (byte_stream zst) - 32 * reals (is @ post) (length (is @ post))" using ip by simp
  then have "\<forall>k < length is. encoded_at addr (byte_stream zst) (ip r + 32 * k) (is ! k) \<and> is_linked (linked r) (ip r + 32 * k)"
    using block_assembled[OF z(3,2) run] linked by simp
  from block_taken[OF z(1) assms(2) this run assms(4), of _ _ y] show ?thesis
    by (simp add: runs_to_def with_own_locals[OF assms(2,3)]) (simp add: with_locals_def)
qed

section \<open>Number literals\<close>

lemma dec_string_digits: "dec_string n \<noteq> [] \<and> (\<forall>c \<in> set (dec_string n). is_digit c)"
proof (induction n rule: dec_string.induct)
  case (1 n)
  have d: "is_digit (char_of (48 + k))" if "k < 10" for k :: nat
    using that by (simp add: is_digit_def)
  show ?case
  proof (cases "n < 10")
    case True
    then show ?thesis using d by (subst dec_string.simps, subst (2) dec_string.simps) simp
  next
    case False
    with 1 d[of "n mod 10"] show ?thesis by (subst dec_string.simps, subst (2) dec_string.simps) auto
  qed
qed

lemma digits_not_special:
  assumes "\<forall>c \<in> set s. is_digit c"
  shows "\<not> special_float s" "take_sign s = (False, s)" "dropWhile is_space s = s"
proof -
  have l: "is_digit c \<Longrightarrow> lower c = c" for c by (auto simp: is_digit_def lower_def)
  have n: "\<not> is_digit (CHR ''i'')" "\<not> is_digit (CHR ''n'')" "\<not> is_digit (CHR ''x'')" "\<not> is_digit (CHR ''-'')"
    "\<not> is_digit (CHR ''+'')" by (simp_all add: is_digit_def)
  have m: "map lower (take k s) = take k s" for k
    using assms l by (auto intro!: map_idI dest: in_set_takeD)
  have i: "take k s = c # cs \<Longrightarrow> is_digit c" for k c cs
    using assms by (metis in_set_takeD list.set_intros(1))
  have x: "take 2 s = [a, c] \<Longrightarrow> is_digit c" for a c
    using assms by (metis in_set_takeD list.set_intros)
  show "\<not> special_float s" unfolding special_float_def m using i x n by blast
  show "take_sign s = (False, s)" unfolding take_sign_def using i n by auto
  show "dropWhile is_space s = s"
  proof (cases s)
    case (Cons c cs)
    then have "is_digit c" using assms by simp
    then have "\<not> is_space c" by (auto simp: is_digit_def is_space_def)
    with Cons show ?thesis by simp
  qed simp
qed

lemma dec_string_while:
  "takeWhile is_digit (dec_string n) = dec_string n" "dropWhile is_digit (dec_string n) = []"
  using dec_string_digits[of n] by (simp_all add: takeWhile_eq_all_conv dropWhile_eq_Nil_conv)

lemma atof_dec: "atof (dec_string n) = Some (f64_of_int (int n))"
proof -
  have "f64_make False (mag_round (n * one_units) 1) = f64_of_int (int n)"
    by (simp add: f64_of_int_def f64_round_def nat_mult_distrib mult_less_0_iff)
  then show ?thesis
    using dec_string_digits[of n] digits_not_special[of "dec_string n"]
    by (simp add: atof_def Let_def exponent_of_def dec_value_string dec_string_while)
qed

lemma number_word_dec: "number_word (dec_string n) = Inr (f64_of_int (int n))"
proof -
  have t: "\<not> is_digit (CHR ''t'')" "\<not> is_digit (CHR ''f'')" by (simp_all add: is_digit_def)
  then have "dec_string n \<noteq> ''true''" "dec_string n \<noteq> ''false''"
    using dec_string_digits[of n] by (metis list.set_intros(1))+
  then show ?thesis by (simp add: number_word_def atof_dec)
qed

lemma one_string: "dec_string 1 = ''1''"
  by (subst dec_string.simps) code_simp

section \<open>A small machine\<close>

text \<open>A machine whose one state has the bytes \<open>b\<close> and whose current context has the locals \<open>ls\<close>.\<close>

definition small_ctx :: "z_reg list \<Rightarrow> ctx" where
  "small_ctx ls = empty_ctx\<lparr>locals := Some ls\<rparr>"

definition small_machine :: "z_reg list \<Rightarrow> byte list \<Rightarrow> machine" where
  "small_machine ls b = (initial_machine 100)\<lparr>heap := [64 \<mapsto> \<lparr>obj_version = 0, ob = Context (small_ctx ls)\<rparr>],
     states := [\<lparr>current_context = 64, root_context = 64, byte_stream = b, class_name = ''A'',
     exception_details = None, synchronized_variables = 0, return_code = False, instruction_pointer = 0,
     return_value = None, stack_ptr = 1, stack_start = 0, is_running = False, removed_as_a_root = False\<rparr>]\<rparr>"

lemma small_machine_simps [simp]:
  "get_ctx 64 (small_machine ls b) = Inr (small_ctx ls)" "locals (small_ctx ls) = Some ls"
  "get_state 0 (small_machine ls b) = Inr \<lparr>current_context = 64, root_context = 64, byte_stream = b, class_name = ''A'',
     exception_details = None, synchronized_variables = 0, return_code = False, instruction_pointer = 0,
     return_value = None, stack_ptr = 1, stack_start = 0, is_running = False, removed_as_a_root = False\<rparr>"
  by (simp_all add: small_machine_def small_ctx_def get_ctx_def get_object_def get_state_def)

end
