(* ===== verification/Arithmetic.thy ===== *)
theory Arithmetic
  imports Blocks ExprCompiler
begin

text \<open>
  Arithmetic expressions, from the source to the value: the code ExprCompiler emits for them, encoded by
  Assembler and run by Interpreter, computes their value (\<open>arith_value\<close>: doubles; \<open>int_value\<close>: the integers a
  double holds exactly) and disturbs no register in use (\<open>live\<close>). Assignments to local variables follow.
\<close>

section \<open>The code of an expression\<close>

text \<open>
  The value of an arithmetic expression: number literals, locals that hold numbers, and the operators
  with an instruction on numbers.
\<close>

fun arith_value :: "func fkind \<Rightarrow> z_reg list \<Rightarrow> expr \<Rightarrow> uint_t option" where
  "arith_value fk ls (Terminal TYPE_NUMBER d) = (case number_word d of Inr w \<Rightarrow> Some w | Inl _ \<Rightarrow> None)"
| "arith_value fk ls (Terminal TYPE_IDENTIFIER x) =
     (let i = lookupRegister x fk in
      if i \<noteq> 0 \<and> i < length ls \<and> is_num (ls ! i) then Some (val (ls ! i)) else None)"
| "arith_value fk ls (Binary op l r) =
     (case (arith_value fk ls l, arith_value fk ls r, toOpcode op) of
        (Some u, Some v, Inr c) \<Rightarrow> number_op c u v
      | _ \<Rightarrow> None)"
| "arith_value fk ls _ = None"

text \<open>The registers code must not disturb: the symbols and the temporaries in use.\<close>

definition live :: "func fkind \<Rightarrow> nat set" where
  "live fk = {1..fk_nsyms fk} \<union> fk_used fk"

definition same_on :: "nat set \<Rightarrow> z_reg list \<Rightarrow> z_reg list \<Rightarrow> bool" where
  "same_on S xs ys \<longleftrightarrow> length xs = length ys \<and> (\<forall>i \<in> S. xs ! i = ys ! i)"

lemma same_on_trans: "same_on S xs ys \<Longrightarrow> same_on T ys zs \<Longrightarrow> U \<subseteq> S \<Longrightarrow> U \<subseteq> T \<Longrightarrow> same_on U xs zs"
  unfolding same_on_def by (metis subsetD)

lemma same_on_update: "d \<notin> S \<Longrightarrow> same_on S ls (ls[d := v])"
  unfolding same_on_def by (metis length_list_update nth_list_update_neq)

lemma lookup_symbol:
  fixes fk :: "func fkind"
  shows "frame_ok fk \<Longrightarrow> lookupRegister x fk \<noteq> 0 \<Longrightarrow> lookupRegister x fk \<in> {1..fk_nsyms fk}"
  using lookup_le_symbols[of "\<lparr>code = [], frame = fk\<rparr>" x] by (simp add: lookup_def)

lemma arith_value_same:
  "frame_ok fk \<Longrightarrow> same_on {1..fk_nsyms fk} ls ls' \<Longrightarrow> arith_value fk ls' e = arith_value fk ls e"
proof (induction fk ls e rule: arith_value.induct)
  case (2 fk ls x)
  then show ?case using lookup_symbol[of fk x] by (auto simp: same_on_def Let_def)
qed auto

lemma arith_value_frame:
  "symbolTable fk' = symbolTable fk \<Longrightarrow> arith_value fk' ls e = arith_value fk ls e"
  by (induction fk ls e rule: arith_value.induct) (auto simp: lookupRegister_def)

lemma new_temp_live:
  assumes "frame_ok (frame st)" "new_temp st = Inr (r, s)"
  shows "r \<notin> live (frame st)" "live (frame s) = insert r (live (frame st))" "fk_nsyms (frame st) < r"
    "symbolTable (frame s) = symbolTable (frame st)" "code s = code st" "frame_ok (frame s)" "r \<le> top_reg s"
proof -
  have wf: "fk_wf (frame st)" using assms(1) by (simp add: frame_ok_def)
  obtain q where q: "getTemporary (frame st) = Inr (q, rt_set q False (frame st))" "fk_nsyms (frame st) < q"
    "q \<notin> fk_used (frame st)" using getTemporary_spec[OF wf] by blast
  with assms(2) have s: "q = r" "s = st\<lparr>frame := rt_set r False (frame st)\<rparr>" by (auto simp: new_temp_def)
  show "r \<notin> live (frame st)" "live (frame s) = insert r (live (frame st))" "fk_nsyms (frame st) < r"
    "symbolTable (frame s) = symbolTable (frame st)" "code s = code st"
    using q s by (auto simp: live_def rt_set_used)
  show "frame_ok (frame s)" "r \<le> top_reg s"
    using new_temp_ok[OF assms(1)] assms(2) by (auto simp: extends_def)
qed

lemma release_live:
  assumes "frame_ok (frame st)"
  shows "live (frame (release r st)) = live (frame st) - (if fk_nsyms (frame st) < r then {r} else {})"
    "fk_nsyms (frame (release r st)) = fk_nsyms (frame st)"
proof -
  have "fk_wf (frame st)" using assms by (simp add: frame_ok_def)
  from fk.free_law[OF this, of r] fk_used_range[OF this]
  show "live (frame (release r st)) = live (frame st) - (if fk_nsyms (frame st) < r then {r} else {})"
    "fk_nsyms (frame (release r st)) = fk_nsyms (frame st)"
    by (auto simp: live_def release_def split: if_splits)
qed

text \<open>
  What is true of a compiled operand: the code appended runs, leaves the value in the register
  returned and disturbs nothing but the destination asked for; a register that is neither a symbol
  nor this destination is a temporary that was free.
\<close>

definition computes :: "nat \<Rightarrow> cstate \<Rightarrow> z_reg list \<Rightarrow> uint_t \<Rightarrow> nat \<Rightarrow> cstate \<Rightarrow> z_reg list \<Rightarrow> bool" where
  "computes dst st ls v reg st' ls' \<longleftrightarrow>
     (\<exists>is. code st' = code st @ is \<and> reg_steps is ls = Some ls') \<and>
     0 < reg \<and> reg < length ls \<and> is_num (ls' ! reg) \<and> val (ls' ! reg) = v \<and> same_on (live (frame st) - {dst}) ls ls' \<and>
     (if reg \<le> fk_nsyms (frame st) \<or> reg = dst then live (frame st') = live (frame st)
      else reg \<notin> live (frame st) \<and> live (frame st') = insert reg (live (frame st)))"

lemma dest_live:
  assumes "frame_ok (frame st)" "dst = 0 \<or> dst \<in> live (frame st) \<and> dst \<le> top_reg st" "dest_or_temp dst st = Inr (r, s)"
  shows "code s = code st" "frame_ok (frame s)" "symbolTable (frame s) = symbolTable (frame st)" "r \<le> top_reg s"
    "live (frame s) = insert r (live (frame st))" "dst = 0 \<Longrightarrow> r \<notin> live (frame st) \<and> fk_nsyms (frame st) < r"
    "dst \<noteq> 0 \<Longrightarrow> r = dst" "0 < r"
proof -
  have "code s = code st \<and> frame_ok (frame s) \<and> symbolTable (frame s) = symbolTable (frame st) \<and> r \<le> top_reg s \<and>
      live (frame s) = insert r (live (frame st)) \<and> (dst = 0 \<longrightarrow> r \<notin> live (frame st) \<and> fk_nsyms (frame st) < r) \<and>
      (dst \<noteq> 0 \<longrightarrow> r = dst)"
  proof (cases "dst = 0")
    case True
    with assms(3) have "new_temp st = Inr (r, s)" by (simp add: dest_or_temp_def)
    from new_temp_live[OF assms(1) this] True show ?thesis by simp
  next
    case False
    with assms(3) have "s = st" "r = dst" by (simp_all add: dest_or_temp_def)
    with assms(1,2) False show ?thesis by (simp add: insert_absorb)
  qed
  then show "code s = code st" "frame_ok (frame s)" "symbolTable (frame s) = symbolTable (frame st)" "r \<le> top_reg s"
    "live (frame s) = insert r (live (frame st))" "dst = 0 \<Longrightarrow> r \<notin> live (frame st) \<and> fk_nsyms (frame st) < r"
    "dst \<noteq> 0 \<Longrightarrow> r = dst" by simp_all
  show "0 < r" by (rule dest_pos[OF assms(3)])
qed

lemma fresh_not_symbol: "r \<notin> live fk \<Longrightarrow> 0 < r \<Longrightarrow> fk_nsyms fk < r"
  by (auto simp: live_def)

text \<open>A value written to the destination, as the last instruction of an expression's code.\<close>

lemma write_computes:
  assumes "frame_ok (frame st)" "dst = 0 \<or> dst \<in> live (frame st) \<and> dst \<le> top_reg st" "dest_or_temp dst st = Inr (reg, s)"
    "reg < length ls"
    "reg_step (instruction_new c a b d) ls = Some (ls[reg := num_reg v])"
  shows "computes dst st ls v reg (emit c a b d s) (ls[reg := num_reg v])"
proof -
  note l = dest_live[OF assms(1-3)]
  have "reg_steps [instruction_new c a b d] ls = Some (ls[reg := num_reg v])" using assms(5) by simp
  moreover have "same_on (live (frame st) - {dst}) ls (ls[reg := num_reg v])"
    using l(6,7) by (intro same_on_update) blast
  moreover have "if reg \<le> fk_nsyms (frame st) \<or> reg = dst then live (frame s) = live (frame st)
      else reg \<notin> live (frame st) \<and> live (frame s) = insert reg (live (frame st))"
  proof (cases "dst = 0")
    case True
    with l(5,6,8) show ?thesis by simp
  next
    case False
    with l(5,7) assms(2) show ?thesis by (simp add: insert_absorb)
  qed
  ultimately show ?thesis using l(1,8) assms(4) by (simp add: computes_def)
qed

lemma number_computes:
  assumes "compileTerminal TYPE_NUMBER d dst False st = Inr (reg, st')" "frame_ok (frame st)"
    "dst = 0 \<or> dst \<in> live (frame st) \<and> dst \<le> top_reg st" "number_word d = Inr v" "top_reg st' < length ls"
  shows "computes dst st ls v reg st' (ls[reg := num_reg v])"
proof -
  obtain s where s: "dest_or_temp dst st = Inr (reg, s)" "st' = emit MOV_NUMBER (Num reg) (Str d) null_op s"
    using assms(1) by (auto simp: compileTerminal_def ebind_Inr_iff)
  have "reg < length ls" using dest_live(4)[OF assms(2,3) s(1)] assms(5) s(2) by simp
  moreover have "reg_step (instruction_new MOV_NUMBER (Num reg) (Str d) null_op) ls = Some (ls[reg := num_reg v])"
    using calculation assms(4) by (simp add: reg_step.simps instruction_new_def)
  ultimately show ?thesis unfolding s(2) by (rule write_computes[OF assms(2,3) s(1)])
qed

lemma local_computes:
  assumes "compileTerminal TYPE_IDENTIFIER x dst False st = Inr (reg, st')" "frame_ok (frame st)"
    "arith_value (frame st) ls (Terminal TYPE_IDENTIFIER x) = Some v"
  shows "computes dst st ls v reg st' ls"
proof -
  have i: "lookup x st \<noteq> 0" "lookup x st < length ls" "is_num (ls ! lookup x st)" "val (ls ! lookup x st) = v"
    using assms(3) by (simp_all add: lookup_def Let_def split: if_splits)
  then have r: "reg = lookup x st" "st' = st"
    using assms(1) by (auto simp: compileTerminal_def compileIdentifierImmediate_def simp del: neq0_conv)
  have "lookup x st \<le> fk_nsyms (frame st)" by (rule lookup_le_symbols[OF assms(2)])
  moreover have "\<exists>is. code st = code st @ is \<and> reg_steps is ls = Some ls" by (rule exI[of _ "[]"]) simp
  ultimately show ?thesis using i by (simp add: computes_def same_on_def r)
qed

text \<open>The operands' registers: symbols, or temporaries that were free and are freed again.\<close>

lemma zero_not_live: "frame_ok fk \<Longrightarrow> 0 \<notin> live fk"
  using fk_used_range[of fk] by (fastforce simp: live_def frame_ok_def)

lemma operand_live:
  assumes "computes 0 st ls u reg st' ls'"
  shows "reg \<in> live (frame st')" "fk_nsyms (frame st) < reg \<Longrightarrow> reg \<notin> live (frame st)"
    "live (frame st') = live (frame st) \<union> (if fk_nsyms (frame st) < reg then {reg} else {})"
proof -
  have c: "if reg \<le> fk_nsyms (frame st) then live (frame st') = live (frame st)
      else reg \<notin> live (frame st) \<and> live (frame st') = insert reg (live (frame st))" and "0 < reg"
    using assms by (auto simp: computes_def split: if_splits)
  then show "reg \<in> live (frame st')" by (cases "reg \<le> fk_nsyms (frame st)") (auto simp: live_def)
  show "fk_nsyms (frame st) < reg \<Longrightarrow> reg \<notin> live (frame st)" using c by simp
  show "live (frame st') = live (frame st) \<union> (if fk_nsyms (frame st) < reg then {reg} else {})"
    using c by (cases "reg \<le> fk_nsyms (frame st)") auto
qed

lemma freed_operands:
  assumes "L1 = L \<union> (if n < a then {a} else {})" "L2 = L1 \<union> (if n < b then {b} else {})"
    "n < a \<Longrightarrow> a \<notin> L" "n < b \<Longrightarrow> b \<notin> L1" "a \<in> L1" "b \<in> L2" "q \<notin> L2 \<and> n < q \<or> q \<in> L"
  shows "insert q L2 - (if b \<noteq> q \<and> n < b then {b} else {}) - (if n < a then {a} else {}) = insert q L"
  using assms by (auto split: if_splits)

lemma nsyms_symbols: "symbolTable fk = symbolTable fk' \<Longrightarrow> fk_nsyms fk = fk_nsyms fk'"
  by (simp add: fk_nsyms_def)

lemma released_operands:
  assumes "frame_ok (frame s)"
  shows "live (frame (release a (if b \<noteq> q then release b s else s))) =
    live (frame s) - (if b \<noteq> q \<and> fk_nsyms (frame s) < b then {b} else {}) - (if fk_nsyms (frame s) < a then {a} else {})"
  using release_live[OF assms, of b] release_live[OF assms, of a]
    release_live(1)[OF frame_ok_release[OF assms, of b], of a] by auto

lemma compiled_extends:
  assumes "compileExpression dst lk e st = Inr (r, s)" "frame_ok (frame st)" "dst \<le> top_reg st"
  shows "extends st s" "frame_ok (frame s)" "r \<le> top_reg s" "top_reg st \<le> top_reg s"
    "symbolTable (frame s) = symbolTable (frame st)"
  using delivers_all(1)[OF assms(3), of e lk] assms(1,2) by (auto simp: delivers_def extends_def)

lemma computes_blocks:
  assumes "computes d1 st ls u a st1 ls1" "computes d2 st1 ls1 w b st2 ls2" "computes d3 st2 ls2 v c st3 ls3"
  shows "\<exists>is. code st3 = code st @ is \<and> reg_steps is ls = Some ls3"
proof -
  obtain xs ys zs where "code st1 = code st @ xs" "reg_steps xs ls = Some ls1" "code st2 = code st1 @ ys"
    "reg_steps ys ls1 = Some ls2" "code st3 = code st2 @ zs" "reg_steps zs ls2 = Some ls3"
    using assms by (auto simp: computes_def)
  then have "code st3 = code st @ (xs @ ys @ zs)" "reg_steps (xs @ ys @ zs) ls = Some ls3"
    by (simp_all add: reg_steps_append)
  then show ?thesis by blast
qed

lemma operation_computes:
  assumes ok: "frame_ok (frame st)" "frame_ok (frame st1)" "frame_ok (frame st2)"
    and sym: "fk_nsyms (frame st1) = fk_nsyms (frame st)" "fk_nsyms (frame st2) = fk_nsyms (frame st)"
    and dst: "dst = 0 \<or> dst \<in> live (frame st) \<and> dst \<le> top_reg st2"
    and l: "computes 0 st ls u lr st1 ls1" and r: "computes 0 st1 ls1 w rr st2 ls2"
    and d: "dest_or_temp dst st2 = Inr (q, s)" and v: "number_op c u w = Some v" and top: "top_reg s < length ls"
  shows "computes dst st ls v q
    (release lr (if rr \<noteq> q then release rr (emit c (Num lr) (Num rr) (Num q) s) else emit c (Num lr) (Num rr) (Num q) s))
    (ls2[q := num_reg v])"
proof -
  let ?s = "emit c (Num lr) (Num rr) (Num q) s"
  note L = operand_live[OF l] and R = operand_live[OF r, unfolded sym(1)]
  have dst2: "dst = 0 \<or> dst \<in> live (frame st2) \<and> dst \<le> top_reg st2" using dst L(3) R(3) by blast
  note D = dest_live[OF ok(3) dst2 d]
  note zero = zero_not_live[OF ok(1)] zero_not_live[OF ok(2)]
  have len: "length ls1 = length ls" "length ls2 = length ls" using l r by (auto simp: computes_def same_on_def)
  have keep: "ls2 ! lr = ls1 ! lr" using r L(1) zero(2) by (auto simp: computes_def same_on_def)
  have q: "q < length ls2" using D(4) top len by simp
  have "c \<noteq> MOV" using v by (auto simp: number_op_def)
  then have "reg_step (instruction_new c (Num lr) (Num rr) (Num q)) ls2 = Some (ls2[q := num_reg v])"
    using l r v q len keep by (simp add: computes_def reg_step.simps instruction_new_def)
  from write_computes[OF ok(3) dst2 d q this]
  have w: "computes dst st2 ls2 v q ?s (ls2[q := num_reg v])" .
  have "same_on (live (frame st) - {dst}) ls ls1" using l zero(1) by (auto simp: computes_def same_on_def)
  moreover have "same_on (live (frame st1) - {0}) ls1 ls2" "same_on (live (frame st2) - {dst}) ls2 (ls2[q := num_reg v])"
    using r w by (simp_all add: computes_def)
  ultimately have same: "same_on (live (frame st) - {dst}) ls (ls2[q := num_reg v])"
    using L(3) R(3) zero by (fastforce simp: same_on_def)
  have "q \<notin> live (frame st2) \<and> fk_nsyms (frame st) < q \<or> q \<in> live (frame st)" using D(6,7) dst sym(2) by metis
  then have freed: "insert q (live (frame st2)) - (if rr \<noteq> q \<and> fk_nsyms (frame st) < rr then {rr} else {})
      - (if fk_nsyms (frame st) < lr then {lr} else {}) = insert q (live (frame st))"
    by (intro freed_operands[OF L(3) R(3) L(2) R(2) L(1) R(1)])
  have "frame_ok (frame ?s)" "live (frame ?s) = insert q (live (frame st2))" "fk_nsyms (frame ?s) = fk_nsyms (frame st)"
    using D(2,3,5) sym(2) by (simp_all add: fk_nsyms_def)
  with released_operands[of ?s lr rr q] freed
  have lv: "live (frame (release lr (if rr \<noteq> q then release rr ?s else ?s))) = insert q (live (frame st))" by simp
  have new: "if q \<le> fk_nsyms (frame st) \<or> q = dst then insert q (live (frame st)) = live (frame st)
      else q \<notin> live (frame st) \<and> insert q (live (frame st)) = insert q (live (frame st))"
    using D(6,7,8) dst dst2 L(3) R(3) sym(2) by (cases "dst = 0") (auto simp: insert_absorb)
  have run: "\<exists>is. code (release lr (if rr \<noteq> q then release rr ?s else ?s)) = code st @ is \<and>
      reg_steps is ls = Some (ls2[q := num_reg v])" using computes_blocks[OF l r w] by (cases "rr = q") simp_all
  show ?thesis using run same lv new q len D(8) by (simp add: computes_def)
qed

lemma arith_binary:
  assumes "arith_value fk ls (Binary op l r) = Some v"
  obtains u w c where "arith_value fk ls l = Some u" "arith_value fk ls r = Some w" "toOpcode op = Inr c"
    "number_op c u w = Some v" "op \<noteq> ''=''" "op \<noteq> ''.''"
  using assms that by (auto simp: toOpcode_def number_op_def split: option.splits sum.splits if_splits)

text \<open>By induction on the expression: the code compiled for an arithmetic expression computes its value.\<close>

lemma compiled_value:
  assumes "compileExpression dst False e st = Inr (reg, st')" "frame_ok (frame st)"
    "dst = 0 \<or> dst \<in> live (frame st) \<and> dst \<le> top_reg st" "arith_value (frame st) ls e = Some v" "top_reg st' < length ls"
  shows "\<exists>ls'. computes dst st ls v reg st' ls'"
  using assms
proof (induction e arbitrary: dst st reg st' ls v)
  case (Terminal ty d)
  show ?case
  proof (cases ty)
    case TYPE_NUMBER
    have "number_word d = Inr v" using Terminal.prems(4) TYPE_NUMBER by (simp split: sum.splits)
    from number_computes[OF _ Terminal.prems(2,3) this Terminal.prems(5)] Terminal.prems(1) TYPE_NUMBER
    show ?thesis by auto
  next
    case TYPE_IDENTIFIER
    from local_computes[OF _ Terminal.prems(2), of d dst] Terminal.prems(1,4) TYPE_IDENTIFIER
    show ?thesis by auto
  qed (use Terminal.prems(4) in simp)
next
  case (Binary op l r)
  obtain u w c where vals: "arith_value (frame st) ls l = Some u" "arith_value (frame st) ls r = Some w"
    "toOpcode op = Inr c" "number_op c u w = Some v" "op \<noteq> ''=''" "op \<noteq> ''.''"
    using arith_binary[OF Binary.prems(4)] .
  from Binary.prems(1) vals(5,6) obtain lr st1 rr st2 s where comp:
    "compileExpression 0 False l st = Inr (lr, st1)" "compileExpression 0 False r st1 = Inr (rr, st2)"
    "dest_or_temp dst st2 = Inr (reg, s)"
    "st' = release lr (if rr \<noteq> reg then release rr (emit c (Num lr) (Num rr) (Num reg) s)
                       else emit c (Num lr) (Num rr) (Num reg) s)"
    using vals(3) by (auto simp: ebind_Inr_iff)
  note X = compiled_extends[OF comp(1) Binary.prems(2)] 
  note Y = compiled_extends[OF comp(2) X(2)]
  have dst: "dst = 0 \<or> dst \<in> live (frame st) \<and> dst \<le> top_reg st2" using Binary.prems(3) X(4) Y(4) by auto
  have sym: "fk_nsyms (frame st1) = fk_nsyms (frame st)" "fk_nsyms (frame st2) = fk_nsyms (frame st)"
    using X(5) Y(5) by (simp_all add: fk_nsyms_def)
  have s: "frame_ok (frame s)" "top_reg st2 \<le> top_reg s" using comp(3) X(2) Y(2) new_temp_ok[of st2] dst
    by (auto simp: dest_or_temp_def extends_def split: if_splits)
  have "top_reg st' = top_reg s" using s(1) by (auto simp: comp(4) release_top frame_ok_release)
  then have top: "top_reg s < length ls" "top_reg st2 < length ls" "top_reg st1 < length ls"
    using Binary.prems(5) s(2) Y(4) by auto
  obtain ls1 where l: "computes 0 st ls u lr st1 ls1"
    using Binary.IH(1)[OF comp(1) Binary.prems(2) _ vals(1) top(3)] by auto
  have "same_on {1..fk_nsyms (frame st)} ls ls1" and len: "length ls1 = length ls"
    using l by (auto simp: computes_def same_on_def live_def)
  then have "arith_value (frame st1) ls1 r = Some w"
    using arith_value_same[OF Binary.prems(2)] arith_value_frame[OF X(5)] vals(2) by simp
  then obtain ls2 where r: "computes 0 st1 ls1 w rr st2 ls2"
    using Binary.IH(2)[OF comp(2) X(2)] top(2) len by fastforce
  show ?case
    unfolding comp(4) using operation_computes[OF Binary.prems(2) X(2) Y(2) sym dst l r comp(3) vals(4) top(1)] by blast
qed simp_all

lemma expression_executed:
  assumes "compileExpression 0 False e st = Inr (reg, st')" "code st' = code st @ is" "frame_ok (frame st)"
    and "arith_value (frame st) ls e = Some v"
    and "about_to_run is s r m" "get_ctx (cur r) m = Inr y" "locals y = Some ls" "fk_top (frame st') < length ls"
      "length ls \<le> 2 ^ 64"
  shows "\<exists>ls'. runs_to is s r m y ls' \<and> rtype (ls' ! reg) = RT_NUMBER \<and> val (ls' ! reg) = v \<and>
    (\<forall>i \<in> live (frame st). ls' ! i = ls ! i)"
proof -
  obtain ls' where c: "computes 0 st ls v reg st' ls'" using compiled_value[OF assms(1,3) _ assms(4,8)] by auto
  then have run: "reg_steps is ls = Some ls'" using assms(2) by (auto simp: computes_def)
  have "\<forall>i \<in> live (frame st). ls' ! i = ls ! i" using c zero_not_live[OF assms(3)] by (auto simp: computes_def same_on_def)
  then show ?thesis using c block_executed[OF assms(5-7,9) run]
    by (intro exI[of _ ls']) (simp add: computes_def is_num_def)
qed

section \<open>Integers\<close>

text \<open>
  The integer an expression stands for, when no step leaves the integers a double holds exactly. A
  product with a factor 0 is left out: it may be the number -0.
\<close>

fun int_value :: "(string \<Rightarrow> int option) \<Rightarrow> expr \<Rightarrow> int option" where
  "int_value env (Terminal TYPE_NUMBER d) =
     (if d = dec_string (dec_value d) \<and> small_int (int (dec_value d)) then Some (int (dec_value d)) else None)"
| "int_value env (Terminal TYPE_IDENTIFIER x) = env x"
| "int_value env (Binary op l r) =
     (case (int_value env l, int_value env r) of
        (Some i, Some j) \<Rightarrow>
          if op = ''+'' \<and> small_int (i + j) then Some (i + j)
          else if op = ''-'' \<and> small_int (i - j) then Some (i - j)
          else if op = ''*'' \<and> small_int (i * j) \<and> i \<noteq> 0 \<and> j \<noteq> 0 then Some (i * j)
          else if op = ''<'' then Some (if i < j then 1 else 0)
          else if op = ''<='' then Some (if i \<le> j then 1 else 0)
          else if op = ''=='' then Some (if i = j then 1 else 0)
          else None
      | _ \<Rightarrow> None)"
| "int_value env _ = None"

lemma number_op_int:
  assumes "small_int i" "small_int j"
  shows "small_int (i + j) \<Longrightarrow> number_op ADD (f64_of_int i) (f64_of_int j) = Some (f64_of_int (i + j))"
    "small_int (i - j) \<Longrightarrow> number_op SUB (f64_of_int i) (f64_of_int j) = Some (f64_of_int (i - j))"
    "small_int (i * j) \<Longrightarrow> i \<noteq> 0 \<Longrightarrow> j \<noteq> 0 \<Longrightarrow> number_op MUL (f64_of_int i) (f64_of_int j) = Some (f64_of_int (i * j))"
    "number_op CMP_LESS (f64_of_int i) (f64_of_int j) = Some (f64_of_int (if i < j then 1 else 0))"
    "number_op CMP_LESS_OR_EQUAL (f64_of_int i) (f64_of_int j) = Some (f64_of_int (if i \<le> j then 1 else 0))"
    "number_op CMP_EQUAL (f64_of_int i) (f64_of_int j) = Some (f64_of_int (if i = j then 1 else 0))"
  using assms by (simp_all add: number_op_def f64_add_int f64_sub_int f64_mul_int f64_compare_int f64_of_bool_def)

lemma integer_binary:
  assumes "small_int i" "small_int j" "int_value env (Binary op l r) = Some k" "int_value env l = Some i" "int_value env r = Some j"
  shows "small_int k \<and> (\<exists>c. toOpcode op = Inr c \<and> number_op c (f64_of_int i) (f64_of_int j) = Some (f64_of_int k))"
proof -
  have small: "small_int 1" "small_int 0" by (simp_all add: small_int_def)
  from assms(3-5) consider "op = ''+''" "small_int (i + j)" "k = i + j" | "op = ''-''" "small_int (i - j)" "k = i - j"
    | "op = ''*''" "small_int (i * j)" "k = i * j" "i \<noteq> 0" "j \<noteq> 0" | "op = ''<''" "k = (if i < j then 1 else 0)"
    | "op = ''<=''" "k = (if i \<le> j then 1 else 0)" | "op = ''==''" "k = (if i = j then 1 else 0)"
    by (auto split: if_splits)
  then show ?thesis using number_op_int[OF assms(1,2)] small by cases (auto simp: toOpcode_def)
qed

lemma integer_value:
  assumes "\<forall>x i. env x = Some i \<longrightarrow> small_int i \<and> lookupRegister x fk \<noteq> 0 \<and> lookupRegister x fk < length ls \<and>
      ls ! lookupRegister x fk = num_reg (f64_of_int i)"
    and "int_value env e = Some k"
  shows "small_int k \<and> arith_value fk ls e = Some (f64_of_int k)"
  using assms(2)
proof (induction e arbitrary: k)
  case (Terminal ty d)
  show ?case
  proof (cases ty)
    case TYPE_NUMBER
    with Terminal have d: "d = dec_string (dec_value d)" "small_int k" "k = int (dec_value d)" by (auto split: if_splits)
    then have "number_word d = Inr (f64_of_int k)" using number_word_dec by metis
    with d TYPE_NUMBER show ?thesis by simp
  next
    case TYPE_IDENTIFIER
    with Terminal assms(1) show ?thesis by (auto simp: Let_def simp del: neq0_conv)
  qed (use Terminal in simp)
next
  case (Binary op l r)
  obtain i j where v: "int_value env l = Some i" "int_value env r = Some j"
    using Binary.prems by (auto split: option.splits)
  note ij = Binary.IH(1)[OF v(1)] Binary.IH(2)[OF v(2)]
  from integer_binary[OF _ _ Binary.prems v] ij show ?case by auto
qed simp_all

section \<open>Assignments to locals\<close>

lemma dest_returned:
  assumes "compileExpression dst False e st = Inr (reg, st')" "dst \<noteq> 0" "arith_value fk ls e = Some v"
    "\<forall>x. e \<noteq> Terminal TYPE_IDENTIFIER x"
  shows "reg = dst"
proof (cases e)
  case (Terminal ty d)
  with assms show ?thesis by (cases ty) (auto simp: compileTerminal_def dest_or_temp_def)
next
  case (Binary op l r)
  with assms(3) have "op \<noteq> ''=''" by (auto simp: toOpcode_def split: option.splits)
  with assms(1,2) Binary show ?thesis by (auto simp: ebind_Inr_iff dest_or_temp_def split: if_splits)
qed (use assms(3) in simp_all)

text \<open>
  The code of an assignment is the code of its right side into the local's register; the register the
  compiler returns for the assignment itself is not written.
\<close>

lemma assignment_parts:
  assumes "compileExpression dst False (Binary ''='' (Terminal TYPE_IDENTIFIER x) e) st = Inr (reg, st')"
    "lookup x st \<noteq> 0"
  obtains q st1 where "compileExpression (lookup x st) False e st = Inr (q, st1)" "code st' = code st1"
    "top_reg st1 \<le> top_reg st' \<or> \<not> frame_ok (frame st1)" "dst \<noteq> 0 \<Longrightarrow> reg = dst"
proof -
  have "compileTerminal TYPE_IDENTIFIER x 0 False st = Inr (lookup x st, st)"
    using assms(2) by (simp add: compileTerminal_def compileIdentifierImmediate_def)
  then obtain q st1 s where c: "compileExpression (lookup x st) False e st = Inr (q, st1)" "dest_or_temp dst st1 = Inr (reg, s)"
    "st' = release (lookup x st) (if q \<noteq> reg then release q s else s)"
    using assms by (auto simp: ebind_Inr_iff)
  have "code s = code st1 \<and> (frame_ok (frame st1) \<longrightarrow> frame_ok (frame s) \<and> top_reg st1 \<le> top_reg s)"
  proof (cases "dst = 0")
    case True
    then have n: "new_temp st1 = Inr (reg, s)" using c(2) by (simp add: dest_or_temp_def)
    then have "code s = code st1" by (auto simp: new_temp_def ebind_Inr_iff)
    moreover have "frame_ok (frame st1) \<Longrightarrow> extends st1 s" using new_temp_ok[of st1] n by auto
    ultimately show ?thesis using extends_frame extends_top by blast
  next
    case False
    then show ?thesis using c(2) by (simp add: dest_or_temp_def)
  qed
  then have "code st' = code st1" "top_reg st1 \<le> top_reg st' \<or> \<not> frame_ok (frame st1)"
    by (auto simp: c(3) release_top frame_ok_release)
  moreover have "dst \<noteq> 0 \<Longrightarrow> reg = dst" using c(2) by (simp add: dest_or_temp_def)
  ultimately show ?thesis using that c(1) by blast
qed

lemma assignment_executed:
  assumes "compileExpression (lookup x st) False e st = Inr (q, st1)" "code st1 = code st @ is" "frame_ok (frame st)"
    and "lookup x st \<noteq> 0" "\<forall>z. e \<noteq> Terminal TYPE_IDENTIFIER z" "arith_value (frame st) ls e = Some v"
    and "about_to_run is s r m" "get_ctx (cur r) m = Inr y" "locals y = Some ls" "top_reg st1 < length ls" "length ls \<le> 2 ^ 64"
  shows "\<exists>ls'. runs_to is s r m y ls' \<and> rtype (ls' ! lookup x st) = RT_NUMBER \<and> val (ls' ! lookup x st) = v \<and>
    (\<forall>i \<in> live (frame st) - {lookup x st}. ls' ! i = ls ! i)"
proof -
  have "lookup x st \<in> live (frame st)" "lookup x st \<le> top_reg st"
    using lookup_symbol[OF assms(3), of x] assms(4) lookup_le[OF assms(3), of x] by (auto simp: lookup_def live_def)
  then obtain ls' where c: "computes (lookup x st) st ls v q st1 ls'"
    using compiled_value[OF assms(1,3) _ assms(6,10)] by auto
  have "q = lookup x st" by (rule dest_returned[OF assms(1,4,6,5)])
  moreover have "reg_steps is ls = Some ls'" using c assms(2) by (auto simp: computes_def)
  ultimately show ?thesis using c block_executed[OF assms(7-9,11)]
    by (intro exI[of _ ls']) (simp add: computes_def is_num_def same_on_def)
qed

section \<open>A sample to run\<close>

definition square_expr :: expr where
  "square_expr = Binary ''-'' (Binary ''*'' (Terminal TYPE_IDENTIFIER ''x'') (Terminal TYPE_IDENTIFIER ''x''))
     (Terminal TYPE_NUMBER ''1'')"

definition square_code :: program where
  "square_code = [instruction_new MUL (Num 3) (Num 3) (Num 5), instruction_new MOV_NUMBER (Num 6) (Str ''1'') null_op,
     instruction_new SUB (Num 5) (Num 6) (Num 7)]"

definition chain_expr :: expr where
  "chain_expr = Binary ''='' (Terminal TYPE_IDENTIFIER ''x'') (Binary ''='' (Terminal TYPE_IDENTIFIER ''y'') square_expr)"

definition chain_code :: program where
  "chain_code = [instruction_new MUL (Num 3) (Num 3) (Num 5), instruction_new MOV_NUMBER (Num 6) (Str ''1'') null_op,
     instruction_new SUB (Num 5) (Num 6) (Num 4)]"

lemma square_compiled:
  obtains st' where "compileExpression 0 False square_expr sample_state = Inr (7, st')" "code st' = square_code"
    "fk_top (frame st') = 7"
proof -
  have "case compileExpression 0 False square_expr sample_state of
      Inr (q, s) \<Rightarrow> q = 7 \<and> code s = square_code \<and> fk_top (frame s) = 7 | Inl _ \<Rightarrow> False"
    by code_simp
  then show ?thesis using that by (auto split: sum.splits)
qed

lemma square_int:
  "int_value [''x'' \<mapsto> 5] square_expr = Some 24"
  "\<forall>x i. [''x'' \<mapsto> 5 :: int] x = Some i \<longrightarrow> small_int i \<and> lookup x sample_state \<noteq> 0 \<and>
     lookup x sample_state < length (replicate 8 (num_reg (f64_of_int 5))) \<and>
     replicate 8 (num_reg (f64_of_int 5)) ! lookup x sample_state = num_reg (f64_of_int i)"
  using one_string
  by (simp_all add: square_expr_def dec_value_def small_int_def sample_state_def lookup_def lookupRegister_def)

lemma square_value: "arith_value (frame sample_state) (replicate 8 (num_reg (f64_of_int 5))) square_expr = Some (f64_of_int 24)"
  using integer_value square_int unfolding lookup_def by blast

abbreviation fives :: "z_reg list" where
  "fives \<equiv> replicate 8 (num_reg (f64_of_int 5))"

definition block_activation :: "program \<Rightarrow> byte list \<Rightarrow> activation" where
  "block_activation is b = \<lparr>cur = 64, ip = length b - 32 * length is, linked = [(length b - 32 * length is, length b)],
     object_to_search_on = 0\<rparr>"

lemma fives_ready:
  assumes "list_all asm_ok is" "\<forall>i \<in> set is. is_real i"
  shows "\<exists>b. about_to_run is 0 (block_activation is b) (small_machine fives b)"
proof -
  let ?tabs = "\<lambda>_. fkind_new :: func fkind"
  obtain b where b: "assemble (\<lambda>_. 0) (replicate 6 0) ?tabs is = Inr b" using assemble_total[OF assms(1)] by blast
  have r: "reals is (length is) = length is" using assms(2) by (simp add: reals_all)
  have "32 * length is \<le> length b" using assembled_at[OF b] r by auto
  moreover have "is_linked [(length b - 32 * length is, length b)] (length b - 32 * length is + 32 * k)"
    if "k < length is" for k using that calculation by (auto simp: is_linked_def)
  ultimately have "about_to_run is 0 (block_activation is b) (small_machine fives b)"
    unfolding about_to_run_def using b r
    by (intro exI[of _ "\<lambda>_. 0"] exI[of _ "replicate 6 0"] exI[of _ ?tabs] exI[of _ "[]"])
      (simp add: block_activation_def)
  then show ?thesis by blast
qed

lemma sample_ready:
  "\<exists>b. about_to_run square_code 0 (block_activation square_code b) (small_machine fives b)"
  "\<exists>b. about_to_run chain_code 0 (block_activation chain_code b) (small_machine fives b)"
proof -
  have "number_word ''1'' = Inr (f64_of_int 1)" "atof ''1'' \<noteq> None"
    using number_word_dec[of 1, unfolded one_string] atof_dec[of 1, unfolded one_string] by simp_all
  then have "list_all asm_ok square_code" "list_all asm_ok chain_code"
    by (simp_all add: square_code_def chain_code_def asm_ok_def link_ok_def takes_number_def less_eq_opcode_def is_number_def)
  moreover have "\<forall>i \<in> set square_code. is_real i" "\<forall>i \<in> set chain_code. is_real i"
    by (simp_all add: square_code_def chain_code_def is_real_def)
  ultimately show "\<exists>b. about_to_run square_code 0 (block_activation square_code b) (small_machine fives b)"
    "\<exists>b. about_to_run chain_code 0 (block_activation chain_code b) (small_machine fives b)"
    using fives_ready by blast+
qed

lemma fives_locals:
  "get_ctx (cur (block_activation is b)) (small_machine fives b) = Inr (small_ctx fives)" "locals (small_ctx fives) = Some fives"
  by (simp_all add: block_activation_def)

lemma chain_compiled:
  obtains q st' where "compileExpression 0 False chain_expr sample_state = Inr (q, st')" "code st' = code sample_state @ chain_code"
    "fk_top (frame st') < length (replicate 8 (num_reg (f64_of_int 5)))"
proof -
  have "case compileExpression 0 False chain_expr sample_state of
      Inr (q, s) \<Rightarrow> code s = chain_code \<and> fk_top (frame s) < 8 | Inl _ \<Rightarrow> False"
    by code_simp
  then show ?thesis using that by (auto simp: sample_state_def split: sum.splits)
qed

lemma assign_compiled:
  obtains q st' where "compileExpression 0 False (Binary ''='' (Terminal TYPE_IDENTIFIER ''y'') square_expr) sample_state = Inr (q, st')"
    "code st' = code sample_state @ chain_code" "fk_top (frame st') < length (replicate 8 (num_reg (f64_of_int 5)))"
proof -
  have "case compileExpression 0 False (Binary ''='' (Terminal TYPE_IDENTIFIER ''y'') square_expr) sample_state of
      Inr (q, s) \<Rightarrow> code s = chain_code \<and> fk_top (frame s) < 8 | Inl _ \<Rightarrow> False"
    by code_simp
  then show ?thesis using that by (auto simp: sample_state_def split: sum.splits)
qed

lemma sample_lookup:
  "lookup ''x'' sample_state = 3" "lookup ''y'' sample_state = 4" "\<forall>z. square_expr \<noteq> Terminal TYPE_IDENTIFIER z"
  "length (replicate 8 (num_reg (f64_of_int 5))) \<le> 2 ^ 64" "fk_nsyms (frame sample_state) = 4"
  by (simp_all add: sample_state_def lookup_def lookupRegister_def square_expr_def fk_nsyms_def)

section \<open>The theorems\<close>

text \<open>
  C4: an arithmetic expression, compiled anywhere in a function, assembled as a part of any program
  and run, computes its value: from the first of its instructions the interpreter reaches the one
  after its last in exactly as many steps as there are instructions; the register the compiler
  returned then holds the value of the expression as the operations on doubles define it, and every
  symbol and every temporary in use has the value it had.
\<close>

theorem arithmetic_code:
  assumes "compileExpression 0 False e st = Inr (reg, st')" "code st' = code st @ is" "frame_ok (frame st)"
    and "arith_value (frame st) ls e = Some v"
    and "about_to_run is s r m" "get_ctx (cur r) m = Inr y" "locals y = Some ls" "fk_top (frame st') < length ls"
      "length ls \<le> 2 ^ 64"
  shows "\<exists>ls'. (\<forall>load n. exec load (length is + n) s (Goto r) m =
      exec load n s (Goto (r\<lparr>ip := ip r + 32 * length is\<rparr>)) (put_ctx (cur r) (y\<lparr>locals := Some ls'\<rparr>) m)) \<and>
    rtype (ls' ! reg) = RT_NUMBER \<and> val (ls' ! reg) = v \<and> (\<forall>i \<in> live (frame st). ls' ! i = ls ! i)"
  using expression_executed[OF assms] by (simp only: runs_to_def)

theorem arithmetic_code_witness:
  "\<exists>b ls'. (\<forall>load n. exec load (3 + n) 0 (Goto (block_activation square_code b)) (small_machine fives b) =
      exec load n 0 (Goto ((block_activation square_code b)\<lparr>ip := ip (block_activation square_code b) + 96\<rparr>))
        (put_ctx 64 ((small_ctx fives)\<lparr>locals := Some ls'\<rparr>) (small_machine fives b))) \<and>
    val (ls' ! 7) = f64_of_int 24 \<and> ls' ! 3 = num_reg (f64_of_int 5)"
proof -
  obtain st' where c: "compileExpression 0 False square_expr sample_state = Inr (7, st')" "code st' = square_code"
    "fk_top (frame st') = 7" by (rule square_compiled)
  obtain b where b: "about_to_run square_code 0 (block_activation square_code b) (small_machine fives b)"
    using sample_ready(1) by blast
  have f: "code st' = code sample_state @ square_code" "fk_top (frame st') < length (replicate 8 (num_reg (f64_of_int 5)))"
    "length (replicate 8 (num_reg (f64_of_int 5))) \<le> 2 ^ 64" "3 \<in> live (frame sample_state)" "length square_code = 3"
    "cur (block_activation square_code b) = 64"
    using c by (simp_all add: sample_state_def live_def fk_nsyms_def square_code_def block_activation_def)
  from arithmetic_code[OF c(1) f(1) sample_frame_ok square_value b fives_locals f(2,3)] f(4-6)
  show ?thesis by (intro exI[of _ b]) force
qed

text \<open>
  C5: on integers the program computes with integers: when no intermediate result of sums, differences,
  products of factors other than zero and comparisons leaves the range from -2^53 to 2^53, running the code of the expression puts
  the integer it stands for into the register, as a double that is exactly this integer.
\<close>

theorem integer_arithmetic:
  assumes "compileExpression 0 False e st = Inr (reg, st')" "code st' = code st @ is" "frame_ok (frame st)"
    and "\<forall>x i. env x = Some i \<longrightarrow> small_int i \<and> lookup x st \<noteq> 0 \<and> lookup x st < length ls \<and>
      ls ! lookup x st = num_reg (f64_of_int i)"
    and "int_value env e = Some k"
    and "about_to_run is s r m" "get_ctx (cur r) m = Inr y" "locals y = Some ls" "fk_top (frame st') < length ls"
      "length ls \<le> 2 ^ 64"
  shows "\<exists>ls'. runs_to is s r m y ls' \<and> val (ls' ! reg) = f64_of_int k \<and> f64_trunc (val (ls' ! reg)) = Some k \<and>
    \<bar>k\<bar> \<le> 2 ^ 53"
proof -
  have v: "small_int k" "arith_value (frame st) ls e = Some (f64_of_int k)"
    using integer_value[OF _ assms(5)] assms(4) by (auto simp: lookup_def)
  from expression_executed[OF assms(1-3) v(2) assms(6-10)] f64_trunc_int[OF v(1)] v(1)
  show ?thesis by (auto simp: small_int_def)
qed

theorem integer_arithmetic_witness:
  "\<exists>b ls'. runs_to square_code 0 (block_activation square_code b) (small_machine fives b) (small_ctx fives) ls' \<and>
    f64_trunc (val (ls' ! 7)) = Some 24"
proof -
  obtain st' where c: "compileExpression 0 False square_expr sample_state = Inr (7, st')" "code st' = square_code"
    "fk_top (frame st') = 7" by (rule square_compiled)
  obtain b where b: "about_to_run square_code 0 (block_activation square_code b) (small_machine fives b)"
    using sample_ready(1) by blast
  have f: "code st' = code sample_state @ square_code" "fk_top (frame st') < length (replicate 8 (num_reg (f64_of_int 5)))"
    "length (replicate 8 (num_reg (f64_of_int 5))) \<le> 2 ^ 64"
    using c by (simp_all add: sample_state_def)
  from integer_arithmetic[OF c(1) f(1) sample_frame_ok square_int(2,1) b fives_locals f(2,3)] show ?thesis by blast
qed

text \<open>
  An assignment of an arithmetic expression that is not a bare identifier to a local variable: running
  its code puts the value into the variable and changes no other symbol and no temporary in use.
\<close>

lemma assignment_code:
  assumes "compileExpression 0 False (Binary ''='' (Terminal TYPE_IDENTIFIER x) e) st = Inr (reg, st')"
    and "code st' = code st @ is" "frame_ok (frame st)" "lookup x st \<noteq> 0" "\<forall>z. e \<noteq> Terminal TYPE_IDENTIFIER z"
    and "arith_value (frame st) ls e = Some v"
    and "about_to_run is s r m" "get_ctx (cur r) m = Inr y" "locals y = Some ls" "fk_top (frame st') < length ls"
      "length ls \<le> 2 ^ 64"
  shows "\<exists>ls'. runs_to is s r m y ls' \<and> rtype (ls' ! lookup x st) = RT_NUMBER \<and> val (ls' ! lookup x st) = v \<and>
    (\<forall>i \<in> live (frame st) - {lookup x st}. ls' ! i = ls ! i)"
proof -
  obtain q st1 where c: "compileExpression (lookup x st) False e st = Inr (q, st1)" "code st' = code st1"
    "top_reg st1 \<le> top_reg st' \<or> \<not> frame_ok (frame st1)" using assignment_parts[OF assms(1,4)] by metis
  have "top_reg st1 < length ls" using compiled_extends(2)[OF c(1) assms(3) lookup_le[OF assms(3)]] c(3) assms(10) by simp
  moreover have "code st1 = code st @ is" using c(2) assms(2) by simp
  ultimately show ?thesis using assignment_executed[OF c(1) _ assms(3-9)] assms(11) by blast
qed

lemma assignment_code_witness:
  "\<exists>b ls'. runs_to chain_code 0 (block_activation chain_code b) (small_machine fives b) (small_ctx fives) ls' \<and>
    val (ls' ! 4) = f64_of_int 24 \<and> ls' ! 3 = num_reg (f64_of_int 5)"
proof -
  obtain b where b: "about_to_run chain_code 0 (block_activation chain_code b) (small_machine fives b)"
    using sample_ready(2) by blast
  obtain q st' where c: "compileExpression 0 False (Binary ''='' (Terminal TYPE_IDENTIFIER ''y'') square_expr) sample_state = Inr (q, st')"
    "code st' = code sample_state @ chain_code" "fk_top (frame st') < length (replicate 8 (num_reg (f64_of_int 5)))"
    by (rule assign_compiled)
  have "lookup ''y'' sample_state \<noteq> 0" "3 \<in> live (frame sample_state) - {lookup ''y'' sample_state}"
    by (simp_all add: sample_lookup live_def)
  with assignment_code[OF c(1,2) sample_frame_ok _ sample_lookup(3) square_value b fives_locals c(3) sample_lookup(4)]
  show ?thesis by (intro exI[of _ b]) (force simp: sample_lookup)
qed

text \<open>
  C34: \<open>a = b = e\<close> on two different local variables, where \<open>e\<close> is an arithmetic expression on numbers and locals
  and not a bare identifier, assigns the value of \<open>e\<close> to \<open>b\<close> and leaves \<open>a\<close> as it was: the register the inner
  assignment returns as its value is the destination it was asked for, which it does not write. (For a bare
  identifier \<open>e\<close> that names a local, nothing is emitted and neither is assigned.)
\<close>

theorem chained_assignment:
  assumes "compileExpression 0 False (Binary ''='' (Terminal TYPE_IDENTIFIER x)
      (Binary ''='' (Terminal TYPE_IDENTIFIER z) e)) st = Inr (reg, st')"
    and "code st' = code st @ is" "frame_ok (frame st)" "lookup x st \<noteq> 0" "lookup z st \<noteq> 0" "lookup x st \<noteq> lookup z st"
    and "\<forall>z. e \<noteq> Terminal TYPE_IDENTIFIER z" "arith_value (frame st) ls e = Some v"
    and "about_to_run is s r m" "get_ctx (cur r) m = Inr y" "locals y = Some ls" "fk_top (frame st') < length ls"
      "length ls \<le> 2 ^ 64"
  shows "\<exists>ls'. runs_to is s r m y ls' \<and> val (ls' ! lookup z st) = v \<and> ls' ! lookup x st = ls ! lookup x st"
proof -
  obtain q st1 where c: "compileExpression (lookup x st) False (Binary ''='' (Terminal TYPE_IDENTIFIER z) e) st = Inr (q, st1)"
    "code st' = code st1" "top_reg st1 \<le> top_reg st' \<or> \<not> frame_ok (frame st1)"
    using assignment_parts[OF assms(1,4)] by metis
  obtain p st2 where d: "compileExpression (lookup z st) False e st = Inr (p, st2)" "code st1 = code st2"
    "top_reg st2 \<le> top_reg st1 \<or> \<not> frame_ok (frame st2)" using assignment_parts[OF c(1) assms(5)] by metis
  note ok = compiled_extends(2)[OF c(1) assms(3) lookup_le[OF assms(3)]]
    compiled_extends(2)[OF d(1) assms(3) lookup_le[OF assms(3)]]
  have "top_reg st2 < length ls" using ok c(3) d(3) assms(12) by simp
  moreover have "code st2 = code st @ is" using c(2) d(2) assms(2) by simp
  moreover have "lookup x st \<in> live (frame st) - {lookup z st}"
    using lookup_symbol[OF assms(3), of x] assms(4,6) by (auto simp: lookup_def live_def)
  ultimately show ?thesis using assignment_executed[OF d(1) _ assms(3,5,7-11)] assms(13) by blast
qed

theorem chained_assignment_witness:
  "\<exists>b ls'. runs_to chain_code 0 (block_activation chain_code b) (small_machine fives b) (small_ctx fives) ls' \<and>
    val (ls' ! 4) = f64_of_int 24 \<and> ls' ! 3 = num_reg (f64_of_int 5)"
proof -
  obtain b where b: "about_to_run chain_code 0 (block_activation chain_code b) (small_machine fives b)"
    using sample_ready(2) by blast
  obtain q st' where c: "compileExpression 0 False chain_expr sample_state = Inr (q, st')"
    "code st' = code sample_state @ chain_code" "fk_top (frame st') < length (replicate 8 (num_reg (f64_of_int 5)))"
    by (rule chain_compiled)
  have "lookup ''x'' sample_state \<noteq> 0" "lookup ''y'' sample_state \<noteq> 0" "lookup ''x'' sample_state \<noteq> lookup ''y'' sample_state"
    by (simp_all add: sample_lookup)
  from chained_assignment[OF c(1)[unfolded chain_expr_def] c(2) sample_frame_ok this sample_lookup(3) square_value b
      fives_locals c(3) sample_lookup(4)]
  show ?thesis by (force simp: sample_lookup)
qed

end
