(* ===== verification/Fusion.thy ===== *)
theory Fusion
  imports Blocks Optimizer
begin

text \<open>
  What the optimiser's rewritings do on the machine: a compare and the conditional jump on its result are
  replaced by one jump, a number and the jump that compares with it by a jump with an immediate. Here the
  instructions, before and after, are executed from the bytes Assembler makes of them.
\<close>

section \<open>Executing one encoded instruction\<close>

text \<open>The instruction \<open>i\<close> is the one the run \<open>r\<close> of state \<open>s\<close> is at.\<close>

definition at_instr :: "nat \<Rightarrow> activation \<Rightarrow> machine \<Rightarrow> z_instruction \<Rightarrow> bool" where
  "at_instr s r m i \<longleftrightarrow> (\<exists>st addr. get_state s m = Inr st \<and> encoded_at addr (byte_stream st) (ip r) i)"

text \<open>The current context has the locals \<open>ls\<close>.\<close>

definition has_locals :: "activation \<Rightarrow> machine \<Rightarrow> z_reg list \<Rightarrow> bool" where
  "has_locals r m ls \<longleftrightarrow> (\<exists>y. get_ctx (cur r) m = Inr y \<and> locals y = Some ls) \<and> length ls \<le> 2 ^ 64"

definition stores :: "activation \<Rightarrow> machine \<Rightarrow> z_reg list \<Rightarrow> machine \<Rightarrow> bool" where
  "stores r m ls n \<longleftrightarrow> (\<exists>y. get_ctx (cur r) m = Inr y \<and> n = put_ctx (cur r) (y\<lparr>locals := Some ls\<rparr>) m)"

text \<open>Where execution continues after a jump that is taken if \<open>c\<close>.\<close>

definition jumps_if :: "bool \<Rightarrow> nat \<Rightarrow> activation \<Rightarrow> outcome" where
  "jumps_if c p r = (if c then goto_addr (word_of_nat p) r else goto_next r)"

definition compares :: "opcode \<Rightarrow> uint_t \<Rightarrow> uint_t \<Rightarrow> bool" where
  "compares c =
     (if c \<in> {CMP_EQUAL, JMP_EQUAL} then f64_eq else if c \<in> {CMP_N_EQUAL, JMP_N_EQUAL} then f64_ne
      else if c \<in> {CMP_LESS, JMP_LESS, JMP_LESS_I} then f64_lt
      else if c \<in> {CMP_LESS_OR_EQUAL, JMP_LESS_OR_EQUAL, JMP_LESS_OR_EQUAL_I} then f64_le
      else if c \<in> {CMP_GREATER, JMP_GREATER, JMP_GREATER_I} then f64_gt
      else if c \<in> {CMP_GREATER_OR_EQUAL, JMP_GREATER_OR_EQUAL, JMP_GREATER_OR_EQUAL_I} then f64_ge
      else if c = JMP_EQUAL_I then (=) else (\<noteq>))"

definition jump_opcodes :: "opcode set" where
  "jump_opcodes = {JMP_EQUAL, JMP_N_EQUAL, JMP_LESS, JMP_LESS_OR_EQUAL, JMP_GREATER, JMP_GREATER_OR_EQUAL}"

definition jump_i_opcodes :: "opcode set" where
  "jump_i_opcodes = {JMP_EQUAL_I, JMP_N_EQUAL_I, JMP_LESS_I, JMP_LESS_OR_EQUAL_I, JMP_GREATER_I, JMP_GREATER_OR_EQUAL_I}"

lemma locals_at:
  assumes "has_locals r m ls"
  obtains y where "get_ctx (cur r) m = Inr y" "locals y = Some ls" "length ls \<le> 2 ^ 64" "with_locals (cur r) y ls m = m"
  using assms with_own_locals unfolding has_locals_def by blast

lemma words_at:
  assumes "at_instr s r m i"
  obtains st addr where "get_state s m = Inr st"
    "op_r0 s r m = Inr (operand_word addr (r0 i))" "op_r2 s r m = Inr (operand_word addr (r2 i))"
    "\<not> takes_number (opc i) \<Longrightarrow> op_r1 s r m = Inr (operand_word addr (r1 i))"
    "\<And>d w. takes_number (opc i) \<Longrightarrow> r1 i = Str d \<Longrightarrow> number_word d = Inr w \<Longrightarrow> op_r1 s r m = Inr w"
proof -
  obtain st addr e where e: "get_state s m = Inr st" "encode_instr addr i = Inr e" "take 32 (drop (ip r) (byte_stream st)) = e"
    using assms by (auto simp: at_instr_def encoded_at_def)
  note w = encoded_words[OF e(2,3)]
  show ?thesis
    using e(1) w by (intro that[of st addr]) (simp_all add: operand_at_def middle_word_def)
qed

lemma register_read:
  assumes "has_locals r m ls" "operand_at k s r m = Inr (word_of_nat a)" "a < length ls"
  shows "reg_in k s r m = Inr (ls ! a)"
proof -
  obtain y where y: "get_ctx (cur r) m = Inr y" "locals y = Some ls" "length ls \<le> 2 ^ 64" by (rule locals_at[OF assms(1)])
  have "unat (word_of_nat a :: uint_t) = a" using assms(3) y(3) by (simp add: unsigned_of_nat take_bit_nat_eq_self)
  then show ?thesis using assms(2,3) y by (simp add: reg_in_def get_reg_def)
qed

lemma register_written:
  assumes "has_locals r m ls" "operand_at k s r m = Inr (word_of_nat a)" "a < length ls"
  shows "\<exists>n. reg_out k v s r m = Inr n \<and> stores r m (ls[a := v]) n"
proof -
  obtain y where y: "get_ctx (cur r) m = Inr y" "locals y = Some ls" "length ls \<le> 2 ^ 64" by (rule locals_at[OF assms(1)])
  have "unat (word_of_nat a :: uint_t) = a" using assms(3) y(3) by (simp add: unsigned_of_nat take_bit_nat_eq_self)
  then show ?thesis using assms(2,3) y by (simp add: reg_out_def set_reg_def stores_def)
qed

lemma stored:
  assumes "stores r m ls n"
  shows "get_state s n = get_state s m" "length ls \<le> 2 ^ 64 \<Longrightarrow> has_locals (r\<lparr>ip := a\<rparr>) n ls"
    "at_instr s q n i = at_instr s q m i"
proof -
  obtain y where y: "get_ctx (cur r) m = Inr y" "n = put_ctx (cur r) (y\<lparr>locals := Some ls\<rparr>) m"
    using assms by (auto simp: stores_def)
  show st: "get_state s n = get_state s m" for s by (simp add: y(2) get_state_def put_ctx_def put_object_def)
  show "at_instr s q n i = at_instr s q m i" by (simp add: at_instr_def st)
  show "length ls \<le> 2 ^ 64 \<Longrightarrow> has_locals (r\<lparr>ip := a\<rparr>) n ls"
    using get_ctx_with_locals[OF y(1), of y ls] by (simp add: has_locals_def y(2) with_locals_def)
qed

lemma compare_executed:
  assumes "at_instr s r m i" "has_locals r m ls" "is_cmp (opc i)" "r0 i = Num a" "r1 i = Num b" "r2 i = Num t"
    "a < length ls" "b < length ls" "t < length ls"
  shows "\<exists>n. exec_instr load runner (opc i) s r m = Inr (goto_next r, n) \<and>
    stores r m (ls[t := num_reg (f64_of_bool (compares (opc i) (val (ls ! a)) (val (ls ! b))))]) n"
proof -
  have nt: "\<not> takes_number (opc i)" using assms(3) by (auto simp: is_cmp_cases takes_number_def less_eq_opcode_def)
  obtain addr where w: "op_r0 s r m = Inr (operand_word addr (r0 i))" "op_r2 s r m = Inr (operand_word addr (r2 i))"
    "op_r1 s r m = Inr (operand_word addr (r1 i))" using words_at[OF assms(1)] nt by metis
  note rw = register_read[OF assms(2) _ assms(7)] register_read[OF assms(2) _ assms(8)] register_written[OF assms(2) _ assms(9)]
  obtain n where n: "reg_out 24 (num_reg (f64_of_bool (compares (opc i) (val (ls ! a)) (val (ls ! b))))) s r m = Inr n"
    "stores r m (ls[t := num_reg (f64_of_bool (compares (opc i) (val (ls ! a)) (val (ls ! b))))]) n"
    using rw(3)[of 24 s "num_reg (f64_of_bool (compares (opc i) (val (ls ! a)) (val (ls ! b))))"] w(2) assms(6) by auto
  have "exec_instr load runner (opc i) = op_cmp (compares (opc i))"
    using assms(3) by (auto simp: is_cmp_cases exec_instr_def compares_def)
  then show ?thesis using n rw(1,2) w assms(4,5) by (simp add: op_cmp_def op_arith_def next_after_def)
qed

lemma test_executed:
  assumes "at_instr s r m j" "has_locals r m ls" "opc j \<in> {JMP_TRUE, JMP_NOT_TRUE}" "r0 j = Num t" "r1 j = Num p" "t < length ls"
  shows "exec_instr load runner (opc j) s r m = Inr (jumps_if ((val (ls ! t) \<noteq> 0) = (opc j = JMP_TRUE)) p r, m)"
proof -
  have nt: "\<not> takes_number (opc j)" using assms(3) by (auto simp: takes_number_def less_eq_opcode_def)
  obtain addr where w: "op_r0 s r m = Inr (operand_word addr (r0 j))" "op_r1 s r m = Inr (operand_word addr (r1 j))"
    using words_at[OF assms(1)] nt by metis
  have "exec_instr load runner (opc j) = op_jmp_if (opc j = JMP_TRUE)" using assms(3) by (auto simp: exec_instr_def)
  then show ?thesis using register_read[OF assms(2) _ assms(6)] w assms(4,5)
    by (simp add: op_jmp_if_def jumps_if_def)
qed

lemma jump_executed:
  assumes "at_instr s r m k" "has_locals r m ls" "opc k \<in> jump_opcodes" "r0 k = Num a" "r1 k = Num b" "r2 k = Num p"
    "a < length ls" "b < length ls"
  shows "exec_instr load runner (opc k) s r m = Inr (jumps_if (compares (opc k) (val (ls ! a)) (val (ls ! b))) p r, m)"
proof -
  have nt: "\<not> takes_number (opc k)" using assms(3) by (auto simp: jump_opcodes_def takes_number_def less_eq_opcode_def)
  obtain addr where w: "op_r0 s r m = Inr (operand_word addr (r0 k))" "op_r2 s r m = Inr (operand_word addr (r2 k))"
    "op_r1 s r m = Inr (operand_word addr (r1 k))" using words_at[OF assms(1)] nt by metis
  have "exec_instr load runner (opc k) = op_jmp_cmp (compares (opc k))"
    using assms(3) by (auto simp: jump_opcodes_def exec_instr_def compares_def)
  then show ?thesis using register_read[OF assms(2) _ assms(7)] register_read[OF assms(2) _ assms(8)] w assms(4-6)
    by (simp add: op_jmp_cmp_def jumps_if_def)
qed

lemma immediate_executed:
  assumes "at_instr s r m k" "has_locals r m ls" "opc k \<in> jump_i_opcodes" "r0 k = Num a" "r1 k = Str d" "number_word d = Inr w"
    "r2 k = Num p" "a < length ls"
  shows "exec_instr load runner (opc k) s r m = Inr (jumps_if (compares (opc k) (val (ls ! a)) w) p r, m)"
proof -
  have nt: "takes_number (opc k)" using assms(3) by (auto simp: jump_i_opcodes_def takes_number_def less_eq_opcode_def)
  obtain addr where v: "op_r0 s r m = Inr (operand_word addr (r0 k))" "op_r2 s r m = Inr (operand_word addr (r2 k))"
    "op_r1 s r m = Inr w" using words_at[OF assms(1)] nt assms(5,6) by metis
  have "exec_instr load runner (opc k) = op_jmp_imm (compares (opc k))"
    using assms(3) by (auto simp: jump_i_opcodes_def exec_instr_def compares_def)
  then show ?thesis using register_read[OF assms(2) _ assms(8)] v assms(4,7)
    by (simp add: op_jmp_imm_def jumps_if_def)
qed

lemma number_executed:
  assumes "at_instr s r m i" "has_locals r m ls" "opc i = MOV_NUMBER" "r0 i = Num t" "r1 i = Str d" "number_word d = Inr w"
    "t < length ls"
  shows "\<exists>n. exec_instr load runner (opc i) s r m = Inr (goto_next r, n) \<and> stores r m (ls[t := num_reg w]) n"
proof -
  have nt: "takes_number (opc i)" using assms(3) by (simp add: takes_number_def)
  obtain addr where v: "op_r0 s r m = Inr (operand_word addr (r0 i))" "op_r1 s r m = Inr w"
    using words_at[OF assms(1)] nt assms(5,6) by metis
  then show ?thesis using register_written[OF assms(2) _ assms(7), of 8 s "num_reg w"] assms(3,4)
    by (auto simp: exec_instr_def op_mov_number_def next_after_def)
qed

section \<open>The rewritings\<close>

lemma fused_compares:
  assumes "is_cmp c" "\<not> is_nan x" "\<not> is_nan y"
  shows "compares (fuse_jump c neg) x y \<longleftrightarrow> compares c x y \<noteq> neg"
  using assms by (auto simp: is_cmp_cases fuse_jump_def compares_def f64_eq_def f64_ne_def f64_lt_def f64_le_def f64_gt_def
      f64_ge_def)

lemma fuse_jump_opcode: "fuse_jump c neg \<in> jump_opcodes"
  by (simp add: fuse_jump_def jump_opcodes_def)

lemma immediate_compares:
  assumes "jump_immediate c = Some d" "c \<in> {JMP_EQUAL, JMP_N_EQUAL} \<longrightarrow> (f64_eq x y \<longleftrightarrow> x = y)"
  shows "compares d x y = compares c x y" "d \<in> jump_i_opcodes" "c \<in> jump_opcodes"
proof -
  show "d \<in> jump_i_opcodes" "c \<in> jump_opcodes"
    using assms(1) by (rule jump_immediate_SomeE; simp add: jump_i_opcodes_def jump_opcodes_def)+
  show "compares d x y = compares c x y"
    by (insert assms(2), rule jump_immediate_SomeE[OF assms(1)]) (simp_all add: compares_def f64_ne_def)
qed

text \<open>The rewritten instruction, with the label where its own file has it.\<close>

lemma fused_instruction:
  assumes "opt_iter i (Some j) = Some (Some k, True)" "is_cmp (opc i)" "opc j \<in> {JMP_TRUE, JMP_NOT_TRUE}"
    "r2 i = Num t" "r1 j = Str l"
  shows "k = i\<lparr>opc := fuse_jump (opc i) (opc j = JMP_NOT_TRUE), r2 := Str l\<rparr>"
  using assms by (auto simp: opt_iter_def is_cmp_cases less_eq_opcode_def split: if_splits)

lemma jump_linked:
  assumes "link_instr lm j = Inr k" "opc j \<in> jump_opcodes \<union> jump_i_opcodes" "r2 j = Str l" "lm l = Some p"
  shows "opc k = opc j" "r0 k = r0 j" "r1 k = r1 j" "r2 k = Num p"
  using assms
  by (auto simp: link_instr_def label_at_def less_eq_opcode_def jump_opcodes_def jump_i_opcodes_def split: if_splits)

lemma fused_linked:
  assumes "link_instr lm (i\<lparr>opc := fuse_jump c neg, r2 := Str l\<rparr>) = Inr k" "lm l = Some p"
  shows "opc k = fuse_jump c neg" "r0 k = r0 i" "r1 k = r1 i" "r2 k = Num p"
  using jump_linked[OF assms(1) _ _ assms(2)] fuse_jump_opcode by simp_all

lemma test_linked:
  assumes "link_instr lm j = Inr j'" "opc j \<in> {JMP_TRUE, JMP_NOT_TRUE}" "r1 j = Str l" "lm l = Some p"
  shows "opc j' = opc j" "r0 j' = r0 j" "r1 j' = Num p"
  using assms by (auto simp: link_instr_def label_at_def less_eq_opcode_def split: if_splits)

lemma immediate_instruction:
  assumes "opt_iter i (Some j) = Some (Some k, True)" "opc i = MOV_NUMBER" "jump_immediate (opc j) = Some c"
  shows "k = \<lparr>opc = c, r0 = r0 j, r1 = r1 i, r2 = r2 j\<rparr>"
  using assms by (auto simp: opt_iter_def split: if_splits)

text \<open>A number loaded into \<open>t\<close> and compared with by a jump, before and after.\<close>

lemma immediate_runs:
  assumes opt: "opt_iter i (Some j) = Some (Some k, True)" "opc i = MOV_NUMBER" "jump_immediate (opc j) = Some c"
    and ops: "r0 i = Num t" "r1 i = Str d" "number_word d = Inr w" "r0 j = Num a" "r1 j = Num t" "r2 j = Str l"
    and link: "link_instr lm j = Inr j'" "lm l = Some p" "link_instr lm' k = Inr k'" "lm' l = Some q"
    and old: "at_instr s r m i" "at_instr s (r\<lparr>ip := ip r + 32\<rparr>) m j'" "has_locals r m ls"
    and new: "at_instr s r' n k'" "has_locals r' n ls"
    and regs: "a < length ls" "t < length ls" "a \<noteq> t"
  shows "\<exists>m'. exec_instr load runner (opc i) s r m = Inr (goto_next r, m') \<and>
    exec_instr load runner (opc j) s (r\<lparr>ip := ip r + 32\<rparr>) m' =
      Inr (jumps_if (compares (opc j) (val (ls ! a)) w) p (r\<lparr>ip := ip r + 32\<rparr>), m') \<and>
    exec_instr load runner (opc k) s r' n = Inr (jumps_if (compares c (val (ls ! a)) w) q r', n) \<and>
    has_locals r m' (ls[t := num_reg w])"
proof -
  obtain m' where m': "exec_instr load runner (opc i) s r m = Inr (goto_next r, m')" "stores r m (ls[t := num_reg w]) m'"
    using number_executed[OF old(1,3) opt(2) ops(1-3) regs(2)] by blast
  have len: "length (ls[t := num_reg w]) \<le> 2 ^ 64" using old(3) by (simp add: has_locals_def)
  have c: "c \<in> jump_i_opcodes" "opc j \<in> jump_opcodes"
    using opt(3) by (auto simp: jump_immediate_def jump_i_opcodes_def jump_opcodes_def split: if_splits)
  have k: "k = \<lparr>opc = c, r0 = r0 j, r1 = r1 i, r2 = r2 j\<rparr>" by (rule immediate_instruction[OF opt])
  have J: "opc j' = opc j" "r0 j' = r0 j" "r1 j' = r1 j" "r2 j' = Num p"
    using jump_linked[OF link(1) _ ops(6) link(2)] c(2) by simp_all
  have K: "opc k' = c" "r0 k' = r0 j" "r1 k' = r1 i" "r2 k' = Num q"
    using jump_linked[OF link(3) _ _ link(4)] c(1) ops(6) by (simp_all add: k)
  have at: "at_instr s (r\<lparr>ip := ip r + 32\<rparr>) m' j'" using old(2) stored(3)[OF m'(2)] by simp
  have "exec_instr load runner (opc j') s (r\<lparr>ip := ip r + 32\<rparr>) m' =
      Inr (jumps_if (compares (opc j') (val (ls[t := num_reg w] ! a)) (val (ls[t := num_reg w] ! t))) p (r\<lparr>ip := ip r + 32\<rparr>), m')"
    by (rule jump_executed[OF at stored(2)[OF m'(2) len]]) (use J c(2) ops regs in simp_all)
  moreover have "exec_instr load runner (opc k') s r' n = Inr (jumps_if (compares (opc k') (val (ls ! a)) w) q r', n)"
    by (rule immediate_executed[OF new]) (use K c(1) ops regs in simp_all)
  moreover have "has_locals r m' (ls[t := num_reg w])" using stored(2)[OF m'(2) len, of "ip r"] by simp
  ultimately show ?thesis using m'(1) regs J(1) K(1) by (simp add: num_reg_def k)
qed

section \<open>Samples\<close>

definition at_start :: "nat \<Rightarrow> activation" where
  "at_start a = \<lparr>cur = 64, ip = a, linked = [], object_to_search_on = 0\<rparr>"

lemma at_start_simps [simp]: "at_start a\<lparr>ip := b\<rparr> = at_start b" "ip (at_start a) = a" "cur (at_start a) = 64"
  by (simp_all add: at_start_def)

lemma small_locals: "length ls \<le> 2 ^ 64 \<Longrightarrow> has_locals (at_start a) (small_machine ls b) ls"
  by (simp add: has_locals_def)

definition number_there :: "z_instruction \<Rightarrow> bool" where
  "number_there i \<longleftrightarrow> (takes_number (opc i) \<longrightarrow> is_number (r1 i))"

lemma encodes:
  assumes "number_there i"
  shows "\<exists>e. encode_instr (\<lambda>_. 0) i = Inr e"
proof (cases "takes_number (opc i)")
  case True
  then obtain x where x: "r1 i = Str x" "is_number (Str x)"
    using assms by (cases "r1 i") (auto simp: number_there_def is_number_def)
  then obtain w where "number_word x = Inr w" using number_word_total by blast
  with x(1) show ?thesis by (simp add: encode_instr_def middle_word_def)
qed (simp add: encode_instr_def middle_word_def)

lemma encoded_pair:
  assumes "number_there i" "number_there j"
  obtains b where "\<And>ls. at_instr 0 (at_start 0) (small_machine ls b) i" "\<And>ls. at_instr 0 (at_start 32) (small_machine ls b) j"
proof -
  obtain e f where e: "encode_instr (\<lambda>_. 0) i = Inr e" "encode_instr (\<lambda>_. 0) j = Inr f"
    using encodes assms by metis
  then have "length e = 32" "length f = 32" using encode_instr_length by blast+
  then have "take 32 (drop 0 (e @ f)) = e" "take 32 (drop 32 (e @ f)) = f" by simp_all
  then show ?thesis using e that[of "e @ f"] by (fastforce simp: at_instr_def encoded_at_def)
qed

text \<open>Locals 3 and 4 hold 5 and 1; local 5 is the register of the compare. Local 6 is -0.\<close>

definition sample_locals :: "z_reg list" where
  "sample_locals = [zero_reg, zero_reg, zero_reg, num_reg (f64_of_int 5), num_reg (f64_of_int 1), zero_reg, num_reg (f64_neg 0)]"

lemma sample_locals: "length sample_locals = 7" "length sample_locals \<le> 2 ^ 64" "val (sample_locals ! 6) = f64_neg 0"
  "val (sample_locals ! 3) = f64_of_int 5" "val (sample_locals ! 4) = f64_of_int 1"
  by (simp_all add: sample_locals_def num_reg_def)

lemma small_no_nan: "\<not> is_nan (f64_of_int 5)" "\<not> is_nan (f64_of_int 1)"
  using denotes_of_int[of 5] denotes_of_int[of 1] by (simp_all add: small_int_def denotes_def)

lemma minus_zero: "f64_neg 0 = 0x8000000000000000" "f64_eq (f64_neg 0) 0"
  by (simp_all add: f64_eq_def f64_neg_def f64_make_def is_negative_def magnitude_def is_nan_def INF_mag_def f64_val_def
      mag_val_def)

lemma zero_literal: "number_word ''0'' = Inr 0" "is_number (Str ''0'')"
proof -
  have "dec_string 0 = ''0''" by (subst dec_string.simps) code_simp
  then show "number_word ''0'' = Inr 0" "is_number (Str ''0'')"
    using number_word_dec[of 0] atof_dec[of 0] by (simp_all add: denotes_0 is_number_def)
qed

lemma one_literal: "number_word ''1'' = Inr (f64_of_int 1)" "is_number (Str ''1'')"
  using number_word_dec[of 1, unfolded one_string] atof_dec[of 1, unfolded one_string] by (simp_all add: is_number_def)

section \<open>The theorems\<close>

text \<open>
  C21: the optimiser replaces a compare into register \<open>t\<close> and the conditional jump on \<open>t\<close> by one jump. On
  numbers (NaN apart) the new code jumps exactly when the old code did, each to where its own file has
  the label, and the program continues with the same locals but for \<open>t\<close>: the new code does not write it.
\<close>

theorem fused_jump_agrees:
  assumes opt: "opt_iter i (Some j) = Some (Some k, True)" "is_cmp (opc i)" "opc j \<in> {JMP_TRUE, JMP_NOT_TRUE}"
    and ops: "r0 i = Num a" "r1 i = Num b" "r2 i = Num t" "r0 j = Num t" "r1 j = Str l"
    and link: "link_instr lm j = Inr j'" "lm l = Some p" "link_instr lm' k = Inr k'" "lm' l = Some q"
    and old: "at_instr s r m i" "at_instr s (r\<lparr>ip := ip r + 32\<rparr>) m j'" "has_locals r m ls"
    and new: "at_instr s r' n k'" "has_locals r' n ls"
    and regs: "a < length ls" "b < length ls" "t < length ls" "\<not> is_nan (val (ls ! a))" "\<not> is_nan (val (ls ! b))"
  shows "\<exists>c m'. exec_instr load runner (opc i) s r m = Inr (goto_next r, m') \<and>
    exec_instr load runner (opc j) s (r\<lparr>ip := ip r + 32\<rparr>) m' = Inr (jumps_if c p (r\<lparr>ip := ip r + 32\<rparr>), m') \<and>
    exec_instr load runner (opc k) s r' n = Inr (jumps_if c q r', n) \<and>
    has_locals r m' (ls[t := num_reg (f64_of_bool (compares (opc i) (val (ls ! a)) (val (ls ! b))))])"
proof -
  let ?v = "compares (opc i) (val (ls ! a)) (val (ls ! b))"
  obtain m' where m': "exec_instr load runner (opc i) s r m = Inr (goto_next r, m')"
    "stores r m (ls[t := num_reg (f64_of_bool ?v)]) m'"
    using compare_executed[OF old(1,3) opt(2) ops(1-3) regs(1-3)] by blast
  have len: "length (ls[t := num_reg (f64_of_bool ?v)]) \<le> 2 ^ 64" using old(3) by (simp add: has_locals_def)
  note J = test_linked[OF link(1) opt(3) ops(5) link(2)]
  note loc = stored(2)[OF m'(2) len]
  have at: "at_instr s (r\<lparr>ip := ip r + 32\<rparr>) m' j'" using old(2) stored(3)[OF m'(2)] by simp
  have "exec_instr load runner (opc j') s (r\<lparr>ip := ip r + 32\<rparr>) m' =
      Inr (jumps_if ((val (ls[t := num_reg (f64_of_bool ?v)] ! t) \<noteq> 0) = (opc j' = JMP_TRUE)) p (r\<lparr>ip := ip r + 32\<rparr>), m')"
    by (rule test_executed[OF at loc]) (use J opt(3) ops(4) regs(3) in simp_all)
  moreover have "(val (ls[t := num_reg (f64_of_bool ?v)] ! t) \<noteq> 0) = ?v" using regs(3) by (simp add: num_reg_def f64_bool)
  ultimately have test: "exec_instr load runner (opc j) s (r\<lparr>ip := ip r + 32\<rparr>) m' =
      Inr (jumps_if (?v = (opc j = JMP_TRUE)) p (r\<lparr>ip := ip r + 32\<rparr>), m')" by (simp only: J(1))
  have k: "k = i\<lparr>opc := fuse_jump (opc i) (opc j = JMP_NOT_TRUE), r2 := Str l\<rparr>"
    by (rule fused_instruction[OF opt(1-3) ops(3,5)])
  note K = fused_linked[OF link(3)[unfolded k] link(4)]
  have "exec_instr load runner (opc k') s r' n =
      Inr (jumps_if (compares (opc k') (val (ls ! a)) (val (ls ! b))) q r', n)"
    by (rule jump_executed[OF new]) (use K fuse_jump_opcode ops regs in simp_all)
  moreover have "opc k' = opc k" unfolding k K(1) by simp
  moreover have "compares (opc k') (val (ls ! a)) (val (ls ! b)) = (?v = (opc j = JMP_TRUE))"
    unfolding K(1) fused_compares[OF opt(2) regs(4,5)] using opt(3) by fastforce
  ultimately have "exec_instr load runner (opc k) s r' n = Inr (jumps_if (?v = (opc j = JMP_TRUE)) q r', n)" by simp
  moreover have "has_locals r m' (ls[t := num_reg (f64_of_bool ?v)])" using stored(2)[OF m'(2) len, of "ip r"] by simp
  ultimately show ?thesis using m'(1) test by blast
qed

theorem fused_jump_agrees_witness:
  "\<exists>b b'. \<forall>load runner. \<exists>c m'.
     exec_instr load runner CMP_LESS 0 (at_start 0) (small_machine sample_locals b) = Inr (goto_next (at_start 0), m') \<and>
     exec_instr load runner JMP_NOT_TRUE 0 (at_start 32) m' = Inr (jumps_if c 96 (at_start 32), m') \<and>
     exec_instr load runner JMP_GREATER_OR_EQUAL 0 (at_start 0) (small_machine sample_locals b') =
       Inr (jumps_if c 64 (at_start 0), small_machine sample_locals b')"
proof -
  let ?i = "instruction_new CMP_LESS (Num 3) (Num 4) (Num 5)"
  let ?j = "instruction_new JMP_NOT_TRUE (Num 5) (Str ''l'') null_op"
  let ?k = "instruction_new JMP_GREATER_OR_EQUAL (Num 3) (Num 4) (Str ''l'')"
  have "number_there ?i" "number_there (?j\<lparr>r1 := Num 96\<rparr>)" "number_there (?k\<lparr>r2 := Num 64\<rparr>)"
    by (simp_all add: number_there_def takes_number_def less_eq_opcode_def)
  then obtain b b' where b: "at_instr 0 (at_start 0) (small_machine sample_locals b) ?i"
    "at_instr 0 (at_start 32) (small_machine sample_locals b) (?j\<lparr>r1 := Num 96\<rparr>)"
    "at_instr 0 (at_start 0) (small_machine sample_locals b') (?k\<lparr>r2 := Num 64\<rparr>)"
    using encoded_pair by metis
  have o1: "opt_iter ?i (Some ?j) = Some (Some ?k, True)" by code_simp
  have o2: "link_instr [''l'' \<mapsto> 96] ?j = Inr (?j\<lparr>r1 := Num 96\<rparr>)" "link_instr [''l'' \<mapsto> 64] ?k = Inr (?k\<lparr>r2 := Num 64\<rparr>)"
    by (simp_all add: link_instr_def label_at_def less_eq_opcode_def)
  have "\<exists>c m'. exec_instr load runner (opc ?i) 0 (at_start 0) (small_machine sample_locals b) = Inr (goto_next (at_start 0), m') \<and>
      exec_instr load runner (opc ?j) 0 (at_start 0\<lparr>ip := ip (at_start 0) + 32\<rparr>) m' =
        Inr (jumps_if c 96 (at_start 0\<lparr>ip := ip (at_start 0) + 32\<rparr>), m') \<and>
      exec_instr load runner (opc ?k) 0 (at_start 0) (small_machine sample_locals b') =
        Inr (jumps_if c 64 (at_start 0), small_machine sample_locals b') \<and>
      has_locals (at_start 0) m' (sample_locals[5 := num_reg (f64_of_bool (compares (opc ?i) (val (sample_locals ! 3)) (val (sample_locals ! 4))))])"
    for load runner
    by (rule fused_jump_agrees[OF o1 _ _ _ _ _ _ _ o2(1) _ o2(2)])
      (use b small_locals sample_locals small_no_nan in \<open>simp_all add: is_cmp_cases\<close>)
  then show ?thesis by - (rule exI[of _ b], rule exI[of _ b'], simp, blast?)
qed

text \<open>
  C22: likewise for a number that is loaded into \<open>t\<close> only to be compared with by a jump: the jump with an
  immediate decides as the old code did, provided that for equality the two numbers are equal exactly
  when their bits are; again \<open>t\<close> is not written.
\<close>

theorem immediate_jump_agrees:
  assumes opt: "opt_iter i (Some j) = Some (Some k, True)" "opc i = MOV_NUMBER" "jump_immediate (opc j) = Some c"
    and ops: "r0 i = Num t" "r1 i = Str d" "number_word d = Inr w" "r0 j = Num a" "r1 j = Num t" "r2 j = Str l"
    and link: "link_instr lm j = Inr j'" "lm l = Some p" "link_instr lm' k = Inr k'" "lm' l = Some q"
    and old: "at_instr s r m i" "at_instr s (r\<lparr>ip := ip r + 32\<rparr>) m j'" "has_locals r m ls"
    and new: "at_instr s r' n k'" "has_locals r' n ls"
    and regs: "a < length ls" "t < length ls" "a \<noteq> t"
    and eq: "opc j \<in> {JMP_EQUAL, JMP_N_EQUAL} \<longrightarrow> (f64_eq (val (ls ! a)) w \<longleftrightarrow> val (ls ! a) = w)"
  shows "\<exists>b m'. exec_instr load runner (opc i) s r m = Inr (goto_next r, m') \<and>
    exec_instr load runner (opc j) s (r\<lparr>ip := ip r + 32\<rparr>) m' = Inr (jumps_if b p (r\<lparr>ip := ip r + 32\<rparr>), m') \<and>
    exec_instr load runner (opc k) s r' n = Inr (jumps_if b q r', n) \<and>
    has_locals r m' (ls[t := num_reg w])"
  using immediate_runs[OF opt ops link old new regs, where load = load and runner = runner]
  unfolding immediate_compares(1)[OF opt(3) eq] by blast

theorem immediate_jump_agrees_witness:
  "\<exists>b b'. \<forall>load runner. \<exists>c m'.
     exec_instr load runner MOV_NUMBER 0 (at_start 0) (small_machine sample_locals b) = Inr (goto_next (at_start 0), m') \<and>
     exec_instr load runner JMP_LESS 0 (at_start 32) m' = Inr (jumps_if c 96 (at_start 32), m') \<and>
     exec_instr load runner JMP_LESS_I 0 (at_start 0) (small_machine sample_locals b') =
       Inr (jumps_if c 64 (at_start 0), small_machine sample_locals b')"
proof -
  let ?i = "instruction_new MOV_NUMBER (Num 5) (Str ''1'') null_op"
  let ?j = "instruction_new JMP_LESS (Num 3) (Num 5) (Str ''l'')"
  let ?k = "instruction_new JMP_LESS_I (Num 3) (Str ''1'') (Str ''l'')"
  have "number_there ?i" "number_there (?j\<lparr>r2 := Num 96\<rparr>)" "number_there (?k\<lparr>r2 := Num 64\<rparr>)"
    using one_literal(2) by (simp_all add: number_there_def takes_number_def less_eq_opcode_def)
  then obtain b b' where b: "at_instr 0 (at_start 0) (small_machine sample_locals b) ?i"
    "at_instr 0 (at_start 32) (small_machine sample_locals b) (?j\<lparr>r2 := Num 96\<rparr>)"
    "at_instr 0 (at_start 0) (small_machine sample_locals b') (?k\<lparr>r2 := Num 64\<rparr>)"
    using encoded_pair by metis
  have o1: "opt_iter ?i (Some ?j) = Some (Some ?k, True)" by code_simp
  have o2: "link_instr [''l'' \<mapsto> 96] ?j = Inr (?j\<lparr>r2 := Num 96\<rparr>)" "link_instr [''l'' \<mapsto> 64] ?k = Inr (?k\<lparr>r2 := Num 64\<rparr>)"
    by (simp_all add: link_instr_def label_at_def less_eq_opcode_def)
  have "\<exists>c m'. exec_instr load runner (opc ?i) 0 (at_start 0) (small_machine sample_locals b) = Inr (goto_next (at_start 0), m') \<and>
      exec_instr load runner (opc ?j) 0 (at_start 0\<lparr>ip := ip (at_start 0) + 32\<rparr>) m' =
        Inr (jumps_if c 96 (at_start 0\<lparr>ip := ip (at_start 0) + 32\<rparr>), m') \<and>
      exec_instr load runner (opc ?k) 0 (at_start 0) (small_machine sample_locals b') =
        Inr (jumps_if c 64 (at_start 0), small_machine sample_locals b') \<and>
      has_locals (at_start 0) m' (sample_locals[5 := num_reg (f64_of_int 1)])"
    for load runner
    by (rule immediate_jump_agrees[OF o1 _ _ _ _ one_literal(1) _ _ _ o2(1) _ o2(2), where a = 3 and t = 5 and l = "''l''"])
      (use b small_locals sample_locals in \<open>simp_all add: jump_immediate_def\<close>)
  then show ?thesis by - (rule exI[of _ b], rule exI[of _ b'], simp, blast?)
qed

text \<open>
  C23: for equality that proviso matters: when a local holds -0, the compiler's code for comparing it with the
  literal 0 jumps, and the code the optimiser makes of it does not.
\<close>

theorem minus_zero_differs:
  assumes opt: "opt_iter i (Some j) = Some (Some k, True)" "opc i = MOV_NUMBER" "opc j = JMP_EQUAL"
    and ops: "r0 i = Num t" "r1 i = Str ''0''" "r0 j = Num a" "r1 j = Num t" "r2 j = Str l"
    and link: "link_instr lm j = Inr j'" "lm l = Some p" "link_instr lm' k = Inr k'" "lm' l = Some q"
    and old: "at_instr s r m i" "at_instr s (r\<lparr>ip := ip r + 32\<rparr>) m j'" "has_locals r m ls"
    and new: "at_instr s r' n k'" "has_locals r' n ls"
    and regs: "a < length ls" "t < length ls" "a \<noteq> t" "val (ls ! a) = f64_neg 0"
  shows "\<exists>m'. exec_instr load runner (opc i) s r m = Inr (goto_next r, m') \<and>
    exec_instr load runner (opc j) s (r\<lparr>ip := ip r + 32\<rparr>) m' = Inr (goto_addr (word_of_nat p) (r\<lparr>ip := ip r + 32\<rparr>), m') \<and>
    exec_instr load runner (opc k) s r' n = Inr (goto_next r', n)"
proof -
  have c: "jump_immediate (opc j) = Some JMP_EQUAL_I" using opt(3) by (simp add: jump_immediate_def)
  have "compares (opc j) (val (ls ! a)) 0" "\<not> compares JMP_EQUAL_I (val (ls ! a)) 0"
    using opt(3) regs(4) minus_zero by (simp_all add: compares_def)
  then have "jumps_if (compares (opc j) (val (ls ! a)) 0) p (r\<lparr>ip := ip r + 32\<rparr>) = goto_addr (word_of_nat p) (r\<lparr>ip := ip r + 32\<rparr>)"
    "jumps_if (compares JMP_EQUAL_I (val (ls ! a)) 0) q r' = goto_next r'" unfolding jumps_if_def by simp_all
  with immediate_runs[OF opt(1,2) c ops(1,2) zero_literal(1) ops(3-5) link old new regs(1-3), where load = load and runner = runner]
  show ?thesis by metis
qed

theorem minus_zero_differs_witness:
  "\<exists>b b'. \<forall>load runner. \<exists>m'.
     exec_instr load runner MOV_NUMBER 0 (at_start 0) (small_machine sample_locals b) = Inr (goto_next (at_start 0), m') \<and>
     exec_instr load runner JMP_EQUAL 0 (at_start 32) m' = Inr (goto_addr 96 (at_start 32), m') \<and>
     exec_instr load runner JMP_EQUAL_I 0 (at_start 0) (small_machine sample_locals b') =
       Inr (goto_next (at_start 0), small_machine sample_locals b')"
proof -
  let ?i = "instruction_new MOV_NUMBER (Num 5) (Str ''0'') null_op"
  let ?j = "instruction_new JMP_EQUAL (Num 6) (Num 5) (Str ''l'')"
  let ?k = "instruction_new JMP_EQUAL_I (Num 6) (Str ''0'') (Str ''l'')"
  have "number_there ?i" "number_there (?j\<lparr>r2 := Num 96\<rparr>)" "number_there (?k\<lparr>r2 := Num 64\<rparr>)"
    using zero_literal(2) by (simp_all add: number_there_def takes_number_def less_eq_opcode_def)
  then obtain b b' where b: "at_instr 0 (at_start 0) (small_machine sample_locals b) ?i"
    "at_instr 0 (at_start 32) (small_machine sample_locals b) (?j\<lparr>r2 := Num 96\<rparr>)"
    "at_instr 0 (at_start 0) (small_machine sample_locals b') (?k\<lparr>r2 := Num 64\<rparr>)"
    using encoded_pair by metis
  have o1: "opt_iter ?i (Some ?j) = Some (Some ?k, True)" by code_simp
  have o2: "link_instr [''l'' \<mapsto> 96] ?j = Inr (?j\<lparr>r2 := Num 96\<rparr>)" "link_instr [''l'' \<mapsto> 64] ?k = Inr (?k\<lparr>r2 := Num 64\<rparr>)"
    by (simp_all add: link_instr_def label_at_def less_eq_opcode_def)
  have "\<exists>m'. exec_instr load runner (opc ?i) 0 (at_start 0) (small_machine sample_locals b) = Inr (goto_next (at_start 0), m') \<and>
      exec_instr load runner (opc ?j) 0 (at_start 0\<lparr>ip := ip (at_start 0) + 32\<rparr>) m' =
        Inr (goto_addr 96 (at_start 0\<lparr>ip := ip (at_start 0) + 32\<rparr>), m') \<and>
      exec_instr load runner (opc ?k) 0 (at_start 0) (small_machine sample_locals b') =
        Inr (goto_next (at_start 0), small_machine sample_locals b')"
    for load runner
    by (rule minus_zero_differs[OF o1 _ _ _ _ _ _ _ o2(1) _ o2(2), where p = 96 and q = 64 and a = 6 and t = 5 and l = "''l''", unfolded of_nat_numeral])
      (use b small_locals sample_locals in \<open>simp_all\<close>)
  then show ?thesis by - (rule exI[of _ b], rule exI[of _ b'], simp, blast?)
qed

end
