(* ===== verification/ClassFiles.thy ===== *)
theory ClassFiles
  imports CompilerTotal Blocks
begin

text \<open>
  From a class to its file: what the compiler hands to the assembler has the operands the assembler
  dereferences, so that a compiled class always becomes a class file, unless a number literal is no
  decimal number.
\<close>

definition numbers_readable :: "program \<Rightarrow> bool" where
  "numbers_readable p \<longleftrightarrow> (\<forall>i \<in> set p. takes_number (opc i) \<longrightarrow> is_number (r1 i))"

lemma text_str: "is_text x \<Longrightarrow> is_str x"
  by (cases x) (simp_all add: is_str_def)

lemma body_instr_asm:
  assumes "body_instr n i" "takes_number (opc i) \<longrightarrow> is_number (r1 i)"
  shows "asm_ok i"
proof -
  have "kinds_ok i" "opc i \<noteq> FFRAME" using assms(1) by (simp_all add: body_instr_def instr_ok_def)
  then show ?thesis using assms(2)
    by (cases "opc i") (simp_all add: text_str asm_ok_def link_ok_def kinds_ok_def takes_number_def less_eq_opcode_def)
qed

lemma frames_asm: "frames_ok n p \<Longrightarrow> numbers_readable p \<Longrightarrow> list_all asm_ok p"
proof (induction n p rule: frames_ok.induct)
  case (2 n x xs)
  have rest: "numbers_readable xs" and x: "takes_number (opc x) \<longrightarrow> is_number (r1 x)"
    using 2(4) by (simp_all add: numbers_readable_def)
  show ?case
  proof (cases "opc x = FFRAME")
    case True
    then obtain m f l where f: "r0 x = Num m" "r1 x = Fun_ptr f" "r2 x = Str l" "frames_ok m xs"
      using 2(3) frames_ok_frame by blast
    then have "asm_ok x" using True
      by (simp add: asm_ok_def link_ok_def is_str_def is_fun_def takes_number_def less_eq_opcode_def)
    moreover have "list_all asm_ok xs" using 2(1)[OF True _ f(1) _ f(2,3) f(4) rest] f by simp
    ultimately show ?thesis by simp
  next
    case False
    then show ?thesis using 2(2)[OF False _ rest] 2(3) body_instr_asm[of n x] x by simp
  qed
qed simp

lemma compiled_frames:
  assumes "compile fuel cls = Inr (p, t)"
  shows "frames_ok 0 p" "ends_in_label p"
proof -
  obtain c where c: "compileClass fuel cls (comp_init cls) = Inr c" "optimize (prog c) = Some p"
    using assms by (auto simp: compile_def ebind_Inr_iff split: option.splits)
  note code = compileClass_code[OF c(1)]
  show "frames_ok 0 p" by (rule optimize_frames[OF c(2) code(1)])
  show "ends_in_label p" using optimize_safe[OF frames_ok_opt_wf[OF code(1)] code(2)] c(2) by auto
qed

definition tiny_class :: class_decl where
  "tiny_class = \<lparr>cls_id = 0, cls_name = ''A'', cls_args = [],
     cls_body = [plain_stmt (Var_node ''i'' (Terminal TYPE_NUMBER ''1'') False False False)], importsMap = []\<rparr>"

lemma tiny_compiles: "case compile 9 tiny_class of Inl _ \<Rightarrow> False
  | Inr (p, t) \<Rightarrow> list_all (\<lambda>i. takes_number (opc i) \<longrightarrow> r1 i = Str ''1'') p"
  by code_simp

lemma tiny_file: obtains p t where "compile 9 tiny_class = Inr (p, t)" "numbers_readable p"
proof -
  obtain p t where c: "compile 9 tiny_class = Inr (p, t)" "list_all (\<lambda>i. takes_number (opc i) \<longrightarrow> r1 i = Str ''1'') p"
    using tiny_compiles by (auto split: sum.splits prod.splits)
  then have "numbers_readable p"
    using atof_dec[of 1, unfolded one_string] by (auto simp: numbers_readable_def list_all_iff is_number_def)
  with c(1) show ?thesis using that by blast
qed

text \<open>
  C3: a compiled class becomes a class file: whatever class the compiler accepts, the assembler accepts
  the optimised program, unless a number literal is no decimal number; the file begins with the address of
  the code, and every instruction is in its place behind it.
\<close>

theorem compiled_class_assembles:
  assumes "compile fuel cls = Inr (p, t)" "numbers_readable p" "6 \<le> length junk"
  shows "\<exists>b start. assemble addr junk t p = Inr b \<and> 16 \<le> start \<and> read_word b 0 = Inr (word_of_nat start) \<and>
    length b = start + 32 * reals p (length p) \<and>
    (\<forall>i < length p. is_real (p ! i) \<longrightarrow>
       read_word b (start + 32 * reals p i) = Inr (word_of_nat (opcode_num (opc (p ! i)))))"
proof -
  obtain b where b: "assemble addr junk t p = Inr b"
    using assemble_total[OF frames_asm[OF compiled_frames(1)[OF assms(1)] assms(2)]] by blast
  from assembled_at[OF b assms(3)] b show ?thesis by blast
qed

theorem compiled_class_assembles_witness:
  "\<exists>p t b. compile 9 tiny_class = Inr (p, t) \<and> assemble (\<lambda>_. 0) (replicate 6 0) t p = Inr b \<and> 16 \<le> length b"
proof -
  obtain p t where c: "compile 9 tiny_class = Inr (p, t)" "numbers_readable p" by (rule tiny_file)
  have "6 \<le> length (replicate 6 (0 :: byte))" by simp
  from compiled_class_assembles[OF c this, of "\<lambda>_. 0"] c(1) show ?thesis by fastforce
qed

end
