(* ===== verification/LabelCode.thy ===== *)
theory LabelCode
  imports Blocks
begin

text \<open>
  Programs with jumps, before and after Assembler: \<open>follows\<close> executes the instruction list the compiler
  emits, where a jump goes to the last label of its name and labels are passed over; \<open>follows_executed\<close>
  shows that the interpreter does the same on the bytes of the assembled program, instruction by
  instruction.
\<close>

section \<open>Executing a list with labels\<close>

text \<open>
  \<open>follows p i ls k j ls'\<close>: from position \<open>i\<close> with the locals \<open>ls\<close>, \<open>k\<close> instructions lead to position
  \<open>j\<close> with the locals \<open>ls'\<close>.
\<close>

definition jump_target :: "z_instruction \<Rightarrow> z_reg list \<Rightarrow> nat \<Rightarrow> nat \<Rightarrow> nat" where
  "jump_target x ls i j =
     (case r0 x of
        Num t \<Rightarrow> if (val (ls ! t) \<noteq> 0) = (opc x = JMP_TRUE) then j else i + 1
      | _ \<Rightarrow> j)"

inductive follows :: "program \<Rightarrow> nat \<Rightarrow> z_reg list \<Rightarrow> nat \<Rightarrow> nat \<Rightarrow> z_reg list \<Rightarrow> bool" for p where
  here: "follows p i ls 0 i ls"
| pass_label: "i < length p \<Longrightarrow> opc (p ! i) = LABEL \<Longrightarrow> follows p (i + 1) ls k j ls' \<Longrightarrow> follows p i ls k j ls'"
| number_step: "i < length p \<Longrightarrow> reg_step (p ! i) ls = Some ls1 \<Longrightarrow> follows p (i + 1) ls1 k j ls' \<Longrightarrow>
    follows p i ls (Suc k) j ls'"
| jump: "i < length p \<Longrightarrow> opc (p ! i) = JMP \<Longrightarrow> r0 (p ! i) = Str l \<Longrightarrow> last_label p l t \<Longrightarrow> follows p t ls k j ls' \<Longrightarrow>
    follows p i ls (Suc k) j ls'"
| test: "i < length p \<Longrightarrow> opc (p ! i) = JMP_TRUE \<or> opc (p ! i) = JMP_NOT_TRUE \<Longrightarrow> r0 (p ! i) = Num a \<Longrightarrow> a < length ls \<Longrightarrow>
    r1 (p ! i) = Str l \<Longrightarrow> last_label p l t \<Longrightarrow> follows p (jump_target (p ! i) ls i t) ls k j ls' \<Longrightarrow>
    follows p i ls (Suc k) j ls'"

lemma follows_trans: "follows p i ls k j ls' \<Longrightarrow> follows p j ls' n t ls'' \<Longrightarrow> follows p i ls (k + n) t ls''"
  by (induction rule: follows.induct) (auto intro: follows.intros)

lemma follows_length: "follows p i ls k j ls' \<Longrightarrow> length ls' = length ls"
  by (induction rule: follows.induct) (auto dest: reg_step_length)

lemma follows_label: "i < length p \<Longrightarrow> opc (p ! i) = LABEL \<Longrightarrow> follows p i ls 0 (i + 1) ls"
  by (rule pass_label[OF _ _ here])

lemma follows_block:
  assumes "reg_steps is ls = Some ls'" "i + length is \<le> length p" "\<forall>k < length is. p ! (i + k) = is ! k"
  shows "follows p i ls (length is) (i + length is) ls'"
  using assms
proof (induction "is" arbitrary: i ls)
  case Nil
  then show ?case by (simp add: here)
next
  case (Cons x xs)
  obtain ls1 where l: "reg_step x ls = Some ls1" "reg_steps xs ls1 = Some ls'"
    using Cons.prems(1) by (auto simp: bind_eq_Some_conv)
  have "\<forall>k < length xs. p ! (i + 1 + k) = xs ! k"
    using Cons.prems(3) by (metis Suc_less_eq add.assoc length_Cons nth_Cons_Suc plus_1_eq_Suc)
  then have "follows p (i + 1) ls1 (length xs) (i + 1 + length xs) ls'"
    using Cons.IH[OF l(2), of "i + 1"] Cons.prems(2) by simp
  moreover have "p ! i = x" using Cons.prems(3) by (metis add_0_right length_greater_0_conv list.distinct(1) nth_Cons_0)
  ultimately show ?case using number_step[of i p ls ls1] l(1) Cons.prems(2) by simp
qed

section \<open>On the assembled bytes\<close>

definition stream :: "nat \<Rightarrow> machine \<Rightarrow> byte list" where
  "stream s m = byte_stream (states m ! s)"

text \<open>Where the instruction at position \<open>i\<close> of the program stands in the file, labels taking no room.\<close>

definition code_address :: "program \<Rightarrow> byte list \<Rightarrow> nat \<Rightarrow> nat" where
  "code_address p b i = length b - 32 * reals p (length p) + 32 * reals p i"

text \<open>The state \<open>s\<close> runs the file of the program \<open>p\<close>, whose instructions are linked.\<close>

definition loaded :: "program \<Rightarrow> nat \<Rightarrow> activation \<Rightarrow> machine \<Rightarrow> bool" where
  "loaded p s r m \<longleftrightarrow> s < length (states m) \<and> length (stream s m) < 2 ^ 64 \<and>
     (\<exists>addr junk (tabs :: nat \<Rightarrow> func fkind). 6 \<le> length junk \<and> assemble addr junk tabs p = Inr (stream s m)) \<and>
     (\<forall>i < length p. is_real (p ! i) \<longrightarrow> is_linked (linked r) (code_address p (stream s m) i))"

lemma reals_Suc: "i < length p \<Longrightarrow> reals p (Suc i) = reals p i + (if is_real (p ! i) then 1 else 0)"
  by (simp add: reals_def take_Suc_conv_app_nth)

lemma code_address_Suc:
  "i < length p \<Longrightarrow> code_address p b (Suc i) = code_address p b i + (if is_real (p ! i) then 32 else 0)"
  by (simp add: code_address_def reals_Suc)

lemma reals_le: "reals p i \<le> reals p (length p)"
  unfolding reals_def by (metis append_take_drop_id filter_append le_add1 length_append order_refl take_all)

lemma code_address_le: "assemble addr junk tabs p = Inr b \<Longrightarrow> 6 \<le> length junk \<Longrightarrow> code_address p b i \<le> length b"
  using assembled_at[of addr junk tabs p b] reals_le[of p i] by (auto simp: code_address_def)

lemma linked_words:
  assumes "assemble addr junk tabs p = Inr b" "6 \<le> length junk" "i < length p"
    "opc (p ! i) \<in> {JMP, JMP_TRUE, JMP_NOT_TRUE}" "label_operand (p ! i) = Some (k, Str l)" "last_label p l j"
  shows "read_word b (code_address p b i) = Inr (word_of_nat (opcode_num (opc (p ! i))))"
    "read_word b (code_address p b i + k) = Inr (word_of_nat (code_address p b j))"
    "k = 16 \<Longrightarrow> read_word b (code_address p b i + 8) = Inr (operand_word addr (r0 (p ! i)))"
proof -
  obtain p' c lm where p': "constants_pass tabs p (word_bytes 0 @ take 8 (cstr '' '' @ junk)) = Inr (p', c)"
    and len: "length b = length c + 32 * reals p (length p)"
    and lm: "\<forall>l j. last_label p l j \<longrightarrow> lm l = Some (length c + 32 * reals p j)"
    and code: "\<forall>i < length p. is_real (p ! i) \<longrightarrow> (\<exists>i' e. link_instr lm (p' ! i) = Inr i' \<and>
       encode_instr addr i' = Inr e \<and> take 32 (drop (length c + 32 * reals p i) b) = e)"
    by (rule assemble_parts[OF assms(1,2)])
  have at: "code_address p b n = length c + 32 * reals p n" for n using len by (simp add: code_address_def)
  have real: "is_real (p ! i)" using assms(4) by (auto simp: is_real_def)
  have same: "p' ! i = p ! i" using constants_pass_same(2)[OF p' assms(3)] assms(4) by auto
  obtain i' e where e: "link_instr lm (p ! i) = Inr i'" "encode_instr addr i' = Inr e"
    "take 32 (drop (code_address p b i) b) = e"
    using code assms(3) real same at by fastforce
  note words = encoded_words[OF e(2,3)]
  have "lm l = Some (code_address p b j)" using lm assms(6) at by simp
  from link_instr_label[OF e(1) assms(5) this]
  have i': "opc i' = opc (p ! i)" "k = 8 \<and> r0 i' = Num (code_address p b j) \<or>
      k = 16 \<and> r0 i' = r0 (p ! i) \<and> r1 i' = Num (code_address p b j) \<and> \<not> takes_number (opc i') \<or>
      k = 24 \<and> r0 i' = r0 (p ! i) \<and> r2 i' = Num (code_address p b j)" by auto
  show "read_word b (code_address p b i) = Inr (word_of_nat (opcode_num (opc (p ! i))))" using words(1) i' by simp
  show "read_word b (code_address p b i + k) = Inr (word_of_nat (code_address p b j))"
    using words i'(2) by (auto simp: middle_word_def)
  show "k = 16 \<Longrightarrow> read_word b (code_address p b i + 8) = Inr (operand_word addr (r0 (p ! i)))"
    using words(2) i'(2) by auto
qed

text \<open>The machine with other locals in the current context runs the same file.\<close>

lemma stream_with_locals [simp]: "stream s (with_locals c x ls m) = stream s m"
  by (simp add: stream_def with_locals_def put_ctx_def put_object_def)

lemma loaded_state: "loaded p s r m \<Longrightarrow> \<exists>st. get_state s m = Inr st \<and> byte_stream st = stream s m"
  by (simp add: loaded_def get_state_def stream_def)

lemma dispatch_real:
  assumes "loaded p s r m" "get_ctx (cur r) m = Inr y" "i < length p" "is_real (p ! i)"
    and "read_word (stream s m) (code_address p (stream s m) i) = Inr (word_of_nat (opcode_num (opc (p ! i))))"
  shows "dispatch load runner s (Goto (r\<lparr>ip := code_address p (stream s m) i\<rparr>)) (with_locals (cur r) x ls m) =
    exec_instr load runner (opc (p ! i)) s (r\<lparr>ip := code_address p (stream s m) i\<rparr>) (with_locals (cur r) x ls m)"
proof -
  obtain st where st: "get_state s m = Inr st" "byte_stream st = stream s m" using loaded_state[OF assms(1)] by blast
  have "operand_at 0 s (r\<lparr>ip := code_address p (stream s m) i\<rparr>) (with_locals (cur r) x ls m) =
      Inr (word_of_nat (opcode_num (opc (p ! i))))"
    using goes_on[OF st(1), of "r\<lparr>ip := code_address p (stream s m) i\<rparr>"] assms(2,5) st(2) by simp
  then show ?thesis using assms(1,3,4) by (simp add: dispatch_def loaded_def)
qed

text \<open>One dispatch for each instruction of the list.\<close>

lemma number_step_taken:
  assumes "loaded p s r m" "get_ctx (cur r) m = Inr y" "i < length p" "reg_step (p ! i) ls = Some ls1" "length ls \<le> 2 ^ 64"
  shows "dispatch load runner s (Goto (r\<lparr>ip := code_address p (stream s m) i\<rparr>)) (with_locals (cur r) x ls m) =
    Inr (Goto (r\<lparr>ip := code_address p (stream s m) (i + 1)\<rparr>), with_locals (cur r) x ls1 m)"
proof -
  let ?r = "r\<lparr>ip := code_address p (stream s m) i\<rparr>"
  obtain st where st: "get_state s m = Inr st" "byte_stream st = stream s m" using loaded_state[OF assms(1)] by blast
  obtain addr junk tabs where a: "6 \<le> length junk" "assemble addr junk (tabs :: nat \<Rightarrow> func fkind) p = Inr (stream s m)"
    using assms(1) by (auto simp: loaded_def)
  note plain = reg_step_plain[OF assms(4)]
  have "encoded_at addr (byte_stream st) (ip ?r) (p ! i)"
    using assembled_plain[OF a(2,1) assms(3) plain] st(2) by (simp add: code_address_def)
  moreover have "is_linked (linked ?r) (ip ?r)" using assms(1,3) plain(1) by (simp add: loaded_def)
  moreover have "code_address p (stream s m) (i + 1) = code_address p (stream s m) i + 32"
    using code_address_Suc[OF assms(3)] plain(1) by simp
  ultimately show ?thesis
    using step_taken[OF st(1), of ?r y addr "p ! i" ls ls1 load runner x] assms(2,4,5) by (simp add: goto_next_def)
qed

lemma target_word:
  assumes "loaded p s r m" "i < length p" "opc (p ! i) \<in> {JMP, JMP_TRUE, JMP_NOT_TRUE}"
    "label_operand (p ! i) = Some (k, Str l)" "last_label p l j"
  obtains addr where "read_word (stream s m) (code_address p (stream s m) i) = Inr (word_of_nat (opcode_num (opc (p ! i))))"
    "read_word (stream s m) (code_address p (stream s m) i + k) = Inr (word_of_nat (code_address p (stream s m) j))"
    "k = 16 \<Longrightarrow> read_word (stream s m) (code_address p (stream s m) i + 8) = Inr (operand_word addr (r0 (p ! i)))"
    "unat (word_of_nat (code_address p (stream s m) j) :: uint_t) = code_address p (stream s m) j"
proof -
  obtain addr junk tabs where a: "6 \<le> length junk" "assemble addr junk (tabs :: nat \<Rightarrow> func fkind) p = Inr (stream s m)"
    using assms(1) by (auto simp: loaded_def)
  have "code_address p (stream s m) j < 2 ^ 64"
    using code_address_le[OF a(2,1), of j] assms(1) by (simp add: loaded_def)
  then have "unat (word_of_nat (code_address p (stream s m) j) :: uint_t) = code_address p (stream s m) j"
    by (simp add: unsigned_of_nat take_bit_nat_eq_self)
  then show ?thesis using that linked_words[OF a(2,1) assms(2-5)] by blast
qed

lemma jump_taken:
  assumes "loaded p s r m" "get_ctx (cur r) m = Inr y" "i < length p" "opc (p ! i) = JMP" "r0 (p ! i) = Str l" "last_label p l t"
  shows "dispatch load runner s (Goto (r\<lparr>ip := code_address p (stream s m) i\<rparr>)) (with_locals (cur r) x ls m) =
    Inr (Goto (r\<lparr>ip := code_address p (stream s m) t\<rparr>), with_locals (cur r) x ls m)"
proof -
  let ?r = "r\<lparr>ip := code_address p (stream s m) i\<rparr>"
  obtain st where st: "get_state s m = Inr st" "byte_stream st = stream s m" using loaded_state[OF assms(1)] by blast
  have "opc (p ! i) \<in> {JMP, JMP_TRUE, JMP_NOT_TRUE}" "label_operand (p ! i) = Some (8, Str l)"
    using assms(4,5) by (simp_all add: label_operand_def less_eq_opcode_def)
  from target_word[OF assms(1,3) this assms(6)] obtain addr where
    w: "read_word (stream s m) (code_address p (stream s m) i) = Inr (word_of_nat (opcode_num (opc (p ! i))))"
    "read_word (stream s m) (code_address p (stream s m) i + 8) = Inr (word_of_nat (code_address p (stream s m) t))"
    "unat (word_of_nat (code_address p (stream s m) t) :: uint_t) = code_address p (stream s m) t" by metis
  have "op_r0 s ?r (with_locals (cur r) x ls m) = Inr (word_of_nat (code_address p (stream s m) t))"
    using goes_on[OF st(1), of ?r y 8 x ls] assms(2) w(2) st(2) by simp
  then show ?thesis
    using dispatch_real[OF assms(1-3) _ w(1)] assms(4) w(3)
    by (simp add: is_real_def exec_instr_def op_jmp_def goto_addr_def)
qed

lemma test_taken:
  assumes "loaded p s r m" "get_ctx (cur r) m = Inr y" "i < length p" "opc (p ! i) = JMP_TRUE \<or> opc (p ! i) = JMP_NOT_TRUE"
    "r0 (p ! i) = Num a" "a < length ls" "length ls \<le> 2 ^ 64" "r1 (p ! i) = Str l" "last_label p l t"
  shows "dispatch load runner s (Goto (r\<lparr>ip := code_address p (stream s m) i\<rparr>)) (with_locals (cur r) x ls m) =
    Inr (Goto (r\<lparr>ip := code_address p (stream s m) (jump_target (p ! i) ls i t)\<rparr>), with_locals (cur r) x ls m)"
proof -
  let ?r = "r\<lparr>ip := code_address p (stream s m) i\<rparr>"
  obtain st where st: "get_state s m = Inr st" "byte_stream st = stream s m" using loaded_state[OF assms(1)] by blast
  have "opc (p ! i) \<in> {JMP, JMP_TRUE, JMP_NOT_TRUE}" "label_operand (p ! i) = Some (16, Str l)"
    using assms(4,8) by (auto simp: label_operand_def less_eq_opcode_def)
  from target_word[OF assms(1,3) this assms(9)] obtain addr where
    w: "read_word (stream s m) (code_address p (stream s m) i) = Inr (word_of_nat (opcode_num (opc (p ! i))))"
    "read_word (stream s m) (code_address p (stream s m) i + 16) = Inr (word_of_nat (code_address p (stream s m) t))"
    "read_word (stream s m) (code_address p (stream s m) i + 8) = Inr (operand_word addr (r0 (p ! i)))"
    "unat (word_of_nat (code_address p (stream s m) t) :: uint_t) = code_address p (stream s m) t" by metis
  have t: "op_r1 s ?r (with_locals (cur r) x ls m) = Inr (word_of_nat (code_address p (stream s m) t))"
    using goes_on[OF st(1), of ?r y 16 x ls] assms(2) w(2) st(2) by simp
  have v: "reg_in 8 s ?r (with_locals (cur r) x ls m) = Inr (ls ! a)"
    using reads_register(1)[OF st(1), of ?r y 8 a ls x] assms(2,5-7) w(3) st(2) by simp
  have real: "is_real (p ! i)" using assms(4) by (auto simp: is_real_def)
  have "exec_instr load runner (opc (p ! i)) = op_jmp_if (opc (p ! i) = JMP_TRUE)" using assms(4) by (auto simp: exec_instr_def)
  then show ?thesis
    using dispatch_real[OF assms(1-3) real w(1)] v t w(4) assms(5) code_address_Suc[OF assms(3)] real
    by (simp add: op_jmp_if_def goto_addr_def goto_next_def jump_target_def)
qed

text \<open>Following the list is running the file.\<close>

lemma follows_executed:
  assumes "follows p i ls k j ls'" "loaded p s r m" "get_ctx (cur r) m = Inr y" "length ls \<le> 2 ^ 64"
  shows "exec load (k + n) s (Goto (r\<lparr>ip := code_address p (stream s m) i\<rparr>)) (with_locals (cur r) x ls m) =
    exec load n s (Goto (r\<lparr>ip := code_address p (stream s m) j\<rparr>)) (with_locals (cur r) x ls' m)"
  using assms(1,4)
proof (induction rule: follows.induct)
  case (pass_label i ls k j ls')
  then have "code_address p (stream s m) (i + 1) = code_address p (stream s m) i"
    by (simp add: code_address_Suc is_real_def)
  with pass_label show ?case by simp
next
  case (number_step i ls ls1 k j ls')
  then show ?case using number_step_taken[OF assms(2,3)] reg_step_length by fastforce
next
  case (jump i l t ls k j ls')
  then show ?case using jump_taken[OF assms(2,3)] by simp
next
  case (test i a ls l t k j ls')
  then show ?case using test_taken[OF assms(2,3)] by simp
qed simp

section \<open>Labels\<close>

text \<open>Every label of the program is set once and is short enough for the buffer it is formatted in.\<close>

definition labels_ok :: "program \<Rightarrow> bool" where
  "labels_ok p \<longleftrightarrow> distinct (map r0 (filter (\<lambda>x. opc x = LABEL) p)) \<and>
     list_all (\<lambda>x. opc x = LABEL \<longrightarrow> (case r0 x of Str l \<Rightarrow> length l < 98 | _ \<Rightarrow> True)) p"

lemma label_unique:
  assumes "distinct (map r0 (filter (\<lambda>x. opc x = LABEL) p))" "j < length p" "opc (p ! j) = LABEL" "r0 (p ! j) = Str l"
  shows "last_label p l j"
  using assms
proof (induction p arbitrary: j)
  case (Cons x p)
  show ?case
  proof (cases j)
    case 0
    have "\<forall>y \<in> set p. opc y = LABEL \<longrightarrow> r0 y \<noteq> Str l" using Cons.prems 0 by force
    then show ?thesis using Cons.prems 0 by (auto simp: last_label_def nth_Cons split: nat.splits)
  next
    case (Suc i)
    have "distinct (map r0 (filter (\<lambda>x. opc x = LABEL) p))" using Cons.prems(1) by (simp split: if_splits)
    with Cons.IH[of i] Cons.prems Suc show ?thesis by (simp add: last_label_Cons)
  qed
qed simp

lemma label_found:
  assumes "labels_ok p" "j < length p" "p ! j = instruction_new LABEL (Str (take 98 l)) null_op null_op"
  shows "last_label p l j"
proof -
  have "length (take 98 l) < 98" using assms by (auto simp: labels_ok_def list_all_length)
  then have "take 98 l = l" by (simp add: min_def split: if_splits)
  then show ?thesis using label_unique[of p j l] assms by (simp add: labels_ok_def)
qed

end
