(* ===== verification/Statements.thy ===== *)
theory Statements
  imports LabelCode Arithmetic Compiler
begin

text \<open>
  Statements, from the source to the run: assignments to local variables, declarations, blocks,
  conditionals and loops over arithmetic expressions. \<open>executes\<close> says what they mean, on a store of
  numbers and without registers, labels or jumps; the code Compiler emits for them, followed in any
  program with these instructions in its place, that is before the optimiser, does what they mean.
\<close>

section \<open>What statements mean\<close>

type_synonym store = "string \<Rightarrow> uint_t option"

fun expr_value :: "store \<Rightarrow> expr \<Rightarrow> uint_t option" where
  "expr_value st (Terminal TYPE_NUMBER d) = (case number_word d of Inr w \<Rightarrow> Some w | Inl _ \<Rightarrow> None)"
| "expr_value st (Terminal TYPE_IDENTIFIER x) = st x"
| "expr_value st (Binary op l r) =
     (case (expr_value st l, expr_value st r, toOpcode op) of
        (Some u, Some v, Inr c) \<Rightarrow> number_op c u v
      | _ \<Rightarrow> None)"
| "expr_value st _ = None"

text \<open>An assignment; from a bare identifier it does nothing, as no code is compiled for \<open>x = y\<close>.\<close>

fun is_name :: "expr \<Rightarrow> bool" where
  "is_name (Terminal TYPE_IDENTIFIER x) = True"
| "is_name _ = False"

fun assigned :: "string set \<Rightarrow> expr \<Rightarrow> store \<Rightarrow> store option" where
  "assigned vars (Binary op (Terminal TYPE_IDENTIFIER x) e) st =
     (if op = ''='' \<and> x \<in> vars then map_option (\<lambda>v. if is_name e then st else st(x \<mapsto> v)) (expr_value st e) else None)"
| "assigned vars _ st = None"

definition part_effect :: "string set \<Rightarrow> expr option \<Rightarrow> store \<Rightarrow> store option" where
  "part_effect vars e st = (case e of None \<Rightarrow> Some st | Some x \<Rightarrow> assigned vars x st)"

abbreviation plain :: "ast \<Rightarrow> stmt" where
  "plain node \<equiv> Statement False False False node"

text \<open>A number is true unless its 64 bits are zero.\<close>

inductive executes :: "string set \<Rightarrow> stmt list \<Rightarrow> store \<Rightarrow> store \<Rightarrow> bool"
  and loops :: "string set \<Rightarrow> expr option \<Rightarrow> expr \<Rightarrow> stmt list \<Rightarrow> store \<Rightarrow> store \<Rightarrow> bool" for vars where
  finished: "executes vars [] a a"
| assign: "assigned vars e a = Some b \<Longrightarrow> executes vars ss b z \<Longrightarrow> executes vars (plain (Expr_node e) # ss) a z"
| declares: "x \<in> vars \<Longrightarrow> expr_value a e = Some v \<Longrightarrow> executes vars ss (a(x \<mapsto> v)) z \<Longrightarrow>
    executes vars (plain (Var_node x e stat priv False) # ss) a z"
| block: "executes vars body a b \<Longrightarrow> executes vars ss b z \<Longrightarrow> executes vars (plain (Body_node body) # ss) a z"
| then_part: "expr_value a c = Some v \<Longrightarrow> v \<noteq> 0 \<Longrightarrow> executes vars body a b \<Longrightarrow> executes vars ss b z \<Longrightarrow>
    executes vars (plain (Conditional_node c body other) # ss) a z"
| no_else: "expr_value a c = Some 0 \<Longrightarrow> executes vars ss a z \<Longrightarrow>
    executes vars (plain (Conditional_node c body None) # ss) a z"
| else_part: "expr_value a c = Some 0 \<Longrightarrow> executes vars other a b \<Longrightarrow> executes vars ss b z \<Longrightarrow>
    executes vars (plain (Conditional_node c body (Some other)) # ss) a z"
| loop: "part_effect vars start a = Some b \<Longrightarrow> loops vars iter c body b d \<Longrightarrow> executes vars ss d z \<Longrightarrow>
    executes vars (plain (Loop_node start iter (Some c) body) # ss) a z"
| loop_ends: "expr_value a c = Some 0 \<Longrightarrow> loops vars iter c body a a"
| loop_again: "expr_value a c = Some v \<Longrightarrow> v \<noteq> 0 \<Longrightarrow> executes vars body a b \<Longrightarrow> part_effect vars iter b = Some d \<Longrightarrow>
    loops vars iter c body d z \<Longrightarrow> loops vars iter c body a z"

section \<open>Stores and locals\<close>

text \<open>The locals hold the store: every variable has a register, and its number is in it.\<close>

definition holds :: "string set \<Rightarrow> func fkind \<Rightarrow> store \<Rightarrow> z_reg list \<Rightarrow> bool" where
  "holds vars fk st ls \<longleftrightarrow> dom st \<subseteq> vars \<and> (\<forall>x \<in> vars. lookupRegister x fk \<noteq> 0) \<and>
     (\<forall>x v. st x = Some v \<longrightarrow> ls ! lookupRegister x fk = num_reg v)"

lemma holds_symbols: "symbolTable fk' = symbolTable fk \<Longrightarrow> holds vars fk' st ls = holds vars fk st ls"
  by (simp add: holds_def lookupRegister_def)

lemma holds_register:
  assumes "holds vars fk st ls" "st x = Some v"
  shows "lookupRegister x fk \<noteq> 0" "ls ! lookupRegister x fk = num_reg v"
  using assms by (auto simp: holds_def)

lemma symbol_registers:
  assumes "frame_ok fk" "lookupRegister x fk \<noteq> 0" "lookupRegister x fk = lookupRegister y fk"
  shows "x = y"
proof -
  have "map_of (symbolTable fk) x = Some (lookupRegister x fk)" "map_of (symbolTable fk) y = Some (lookupRegister x fk)"
    using assms(2,3) by (auto simp: lookupRegister_def split: option.splits)
  then have "(x, lookupRegister x fk) \<in> set (symbolTable fk)" "(y, lookupRegister x fk) \<in> set (symbolTable fk)"
    by (auto dest: map_of_SomeD)
  moreover have "distinct (map snd (symbolTable fk))" using assms(1) by (simp add: frame_ok_def symtab_ok_def del: upt_Suc)
  then have "inj_on snd (set (symbolTable fk))" by (simp add: distinct_map)
  ultimately have "(x, lookupRegister x fk) = (y, lookupRegister x fk)" by (metis inj_onD snd_conv)
  then show ?thesis by simp
qed

lemma value_of_locals:
  assumes "frame_ok fk" "holds vars fk st ls" "fk_top fk < length ls" "expr_value st e = Some v"
  shows "arith_value fk ls e = Some v"
  using assms(4)
proof (induction e arbitrary: v)
  case (Terminal ty d)
  show ?case
  proof (cases ty)
    case TYPE_IDENTIFIER
    with Terminal have "st d = Some v" by simp
    note r = holds_register[OF assms(2) this]
    have "lookupRegister d fk \<le> fk_nsyms fk" using lookup_symbol[OF assms(1) r(1)] by simp
    then have "lookupRegister d fk < length ls" using assms(1,3) by (simp add: fk_top_def fk_nsyms_def)
    with r TYPE_IDENTIFIER show ?thesis by (simp add: Let_def)
  qed (use Terminal in simp_all)
qed (auto split: option.splits sum.splits)

lemma holds_kept:
  assumes "frame_ok fk" "holds vars fk st ls" "\<forall>i \<in> live fk - {0}. ls' ! i = ls ! i"
  shows "holds vars fk st ls'"
proof -
  have "ls' ! lookupRegister x fk = num_reg v" if "st x = Some v" for x v
    using holds_register[OF assms(2) that] lookup_symbol[OF assms(1), of x] assms(3) by (simp add: live_def)
  then show ?thesis using assms(2) by (simp add: holds_def)
qed

lemma holds_assigned:
  assumes "frame_ok fk" "holds vars fk st ls" "x \<in> vars" "\<forall>i \<in> live fk - {lookupRegister x fk}. ls' ! i = ls ! i"
    "ls' ! lookupRegister x fk = num_reg v"
  shows "holds vars fk (st(x \<mapsto> v)) ls'"
proof -
  have "ls' ! lookupRegister y fk = num_reg w" if "(st(x \<mapsto> v)) y = Some w" for y w
  proof (cases "y = x")
    case True
    with that assms(5) show ?thesis by simp
  next
    case False
    then have y: "st y = Some w" using that by simp
    note r = holds_register[OF assms(2) y]
    have "lookupRegister y fk \<noteq> lookupRegister x fk" using symbol_registers[OF assms(1) r(1)] False by blast
    with assms(4) r lookup_symbol[OF assms(1) r(1)] show ?thesis by (simp add: live_def)
  qed
  then show ?thesis using assms(2,3) by (auto simp: holds_def)
qed

section \<open>Code in its place\<close>

text \<open>The program \<open>p\<close> has the instructions emitted from \<open>c\<close> to \<open>c'\<close> where the compiler put them.\<close>

definition emitted :: "program \<Rightarrow> comp \<Rightarrow> comp \<Rightarrow> bool" where
  "emitted p c c' \<longleftrightarrow> length (prog c') \<le> length p \<and>
     (\<forall>i. length (prog c) \<le> i \<and> i < length (prog c') \<longrightarrow> p ! i = prog c' ! i)"

text \<open>Followed from its beginning to its end, this code turns locals that hold \<open>a\<close> into locals that hold \<open>b\<close>.\<close>

definition turns :: "program \<Rightarrow> string set \<Rightarrow> comp \<Rightarrow> comp \<Rightarrow> store \<Rightarrow> store \<Rightarrow> bool" where
  "turns p vars c c' a b \<longleftrightarrow> (\<forall>ls. holds vars (top_table c) a ls \<longrightarrow> frame_top c' < length ls \<longrightarrow>
     (\<exists>k ls'. follows p (length (prog c)) ls k (length (prog c')) ls' \<and> holds vars (top_table c') b ls'))"

lemma turnsE:
  assumes "turns p vars c c' a b" "holds vars (top_table c) a ls" "frame_top c' < length ls"
  obtains k ls' where "follows p (length (prog c)) ls k (length (prog c')) ls'" "holds vars (top_table c') b ls'"
    "length ls' = length ls"
  using assms follows_length unfolding turns_def by blast

lemma kept_prog: "kept D c c' \<Longrightarrow> \<exists>is. prog c' = prog c @ is"
  by (auto simp: kept_def grown_def)

lemma kept_symbols: "kept D c c' \<Longrightarrow> symbolTable (top_table c') = symbolTable (top_table c)"
  by (simp add: kept_def grown_def)

lemma emitted_parts:
  assumes "emitted p a c" "kept D a b" "kept E b c"
  shows "emitted p a b" "emitted p b c"
proof -
  obtain xs ys where "prog b = prog a @ xs" "prog c = prog b @ ys" using kept_prog[OF assms(2)] kept_prog[OF assms(3)] by blast
  then show "emitted p a b" "emitted p b c" using assms(1) by (auto simp: emitted_def nth_append split: if_splits)
qed

lemma turns_no_register:
  assumes "comp_reg x c = 0" "x \<in> vars \<or> a x = Some v"
  shows "turns p vars c c' a b"
proof -
  have "\<not> holds vars (top_table c) a ls" for ls
    using assms holds_register(1)[of vars "top_table c" a ls x] by (auto simp: holds_def comp_reg_def)
  then show ?thesis by (simp add: turns_def)
qed

lemma turns_refl: "turns p vars c c a a"
  unfolding turns_def using here by blast

lemma turns_trans:
  assumes "turns p vars a b x y" "turns p vars b c y z" "kept D b c"
  shows "turns p vars a c x z"
  unfolding turns_def
proof (intro allI impI)
  fix ls assume h: "holds vars (top_table a) x ls" and t: "frame_top c < length ls"
  have "frame_top b < length ls" using kept_top[OF assms(3)] t by simp
  with assms(1) h obtain k ls1 where 1: "follows p (length (prog a)) ls k (length (prog b)) ls1"
    "holds vars (top_table b) y ls1" "length ls1 = length ls" by (rule turnsE)
  have "frame_top c < length ls1" using 1(3) t by simp
  with assms(2) 1(2) obtain n ls2 where "follows p (length (prog b)) ls1 n (length (prog c)) ls2"
    "holds vars (top_table c) z ls2" "length ls2 = length ls1" by (rule turnsE)
  with 1(1) show "\<exists>k ls'. follows p (length (prog a)) ls k (length (prog c)) ls' \<and> holds vars (top_table c) z ls'"
    using follows_trans by blast
qed

text \<open>Pieces that emit nothing and keep the symbols do not matter.\<close>

lemma turns_same:
  assumes "turns p vars c c' a b" "prog d = prog c" "symbolTable (top_table d) = symbolTable (top_table c)"
    "prog d' = prog c'" "symbolTable (top_table d') = symbolTable (top_table c')" "frame_top c' \<le> frame_top d'"
  shows "turns p vars d d' a b"
  using assms holds_symbols[OF assms(3)] holds_symbols[OF assms(5)] unfolding turns_def
  by (metis le_less_trans)

lemma emitted_code:
  assumes "emitted p c c'" "prog c' = prog c @ is"
  shows "length (prog c) + length is \<le> length p" "\<forall>k < length is. p ! (length (prog c) + k) = is ! k"
  using assms by (simp_all add: emitted_def)

lemma turns_label:
  assumes "emitted p c (gen_label l c)"
  shows "turns p vars c (gen_label l c) a a"
proof -
  have "prog (gen_label l c) = prog c @ [instruction_new LABEL (Str (take 98 l)) null_op null_op]"
    by (simp add: gen_label_gen)
  with emitted_code[OF assms this] have "length (prog c) < length p"
    "p ! length (prog c) = instruction_new LABEL (Str (take 98 l)) null_op null_op" by auto
  then have "follows p (length (prog c)) ls 0 (length (prog c) + 1) ls" for ls by (intro follows_label) simp_all
  then show ?thesis unfolding turns_def by (auto simp: gen_label_gen)
qed

text \<open>A label of the code is where a jump to it goes.\<close>

lemma emitted_label:
  assumes "emitted p c (gen_label l c)" "labels_ok p"
  shows "last_label p l (length (prog c))"
proof -
  have "prog (gen_label l c) = prog c @ [instruction_new LABEL (Str (take 98 l)) null_op null_op]"
    by (simp add: gen_label_gen)
  from emitted_code[OF assms(1) this] show ?thesis by (intro label_found[OF assms(2)]) auto
qed

section \<open>Expressions in place\<close>

lemma comp_expr_view:
  assumes "comp_expr e dst c = Inr (r, c')"
  obtains st where "compileExpression dst False e (view c) = Inr (r, st)" "c' = put_view st c"
  using assms by (auto simp: comp_expr_def ebind_Inr_iff)

lemma all_ok_frame: "all_ok c \<Longrightarrow> frame_ok (frame (view c))"
  by (simp add: all_ok_def top_table_def)

lemma computed_in_place:
  assumes "comp_expr e dst c = Inr (r, c')" "all_ok c" "dst = 0 \<or> dst \<in> live (top_table c) \<and> dst \<le> frame_top c"
    "emitted p c c'" "holds vars (top_table c) a ls" "frame_top c' < length ls" "expr_value a e = Some v"
  obtains k ls' where "follows p (length (prog c)) ls k (length (prog c')) ls'" "r < length ls'" "ls' ! r = num_reg v"
    "\<forall>i \<in> live (top_table c) - {dst}. ls' ! i = ls ! i" "length ls' = length ls"
proof -
  obtain st where st: "compileExpression dst False e (view c) = Inr (r, st)" "c' = put_view st c"
    by (rule comp_expr_view[OF assms(1)])
  have "frame_top c \<le> frame_top c'" using comp_expr_kept(1)[OF assms(1,2)] assms(3) kept_top by auto
  then have "arith_value (frame (view c)) ls e = Some v"
    using value_of_locals[OF all_ok_frame[OF assms(2)], of vars a ls e v] assms(5-7) by simp
  then obtain ls' where cs: "computes dst (view c) ls v r st ls'"
    using compiled_value[OF st(1) all_ok_frame[OF assms(2)] _ _, of ls v] assms(3,6) st(2) by auto
  then obtain "is" where c: "prog c' = prog c @ is" "reg_steps is ls = Some ls'" "r < length ls'" "is_num (ls' ! r)"
    "val (ls' ! r) = v" "\<forall>i \<in> live (top_table c) - {dst}. ls' ! i = ls ! i" "length ls' = length ls"
  proof -
    assume that: "\<And>is. prog c' = prog c @ is \<Longrightarrow> reg_steps is ls = Some ls' \<Longrightarrow> r < length ls' \<Longrightarrow> is_num (ls' ! r) \<Longrightarrow>
      val (ls' ! r) = v \<Longrightarrow> \<forall>i \<in> live (top_table c) - {dst}. ls' ! i = ls ! i \<Longrightarrow> length ls' = length ls \<Longrightarrow> thesis"
    obtain "is" where i: "code st = code (view c) @ is" "reg_steps is ls = Some ls'" using cs by (auto simp: computes_def)
    moreover have "r < length ls" "is_num (ls' ! r)" "val (ls' ! r) = v" "same_on (live (top_table c) - {dst}) ls ls'"
      using cs by (simp_all add: computes_def)
    ultimately show thesis using st(2) by (intro that[of "is"]) (simp_all add: same_on_def)
  qed
  have "follows p (length (prog c)) ls (length is) (length (prog c')) ls'"
    using follows_block[OF c(2) emitted_code[OF assms(4) c(1)]] c(1) by simp
  moreover have "ls' ! r = num_reg v" using c(4,5) by (simp add: is_num_def num_reg_def)
  ultimately show ?thesis using that c(3,6,7) by blast
qed

lemma value_destination:
  assumes "compileExpression dst False e st = Inr (reg, st')" "dst \<noteq> 0" "expr_value a e = Some v" "\<not> is_name e"
  shows "reg = dst"
proof (cases e)
  case (Terminal ty d)
  with assms show ?thesis by (cases ty) (auto simp: compileTerminal_def dest_or_temp_def)
next
  case (Binary op l r)
  with assms(3) have "op \<noteq> ''=''" by (auto simp: toOpcode_def split: option.splits)
  with assms(1,2) Binary show ?thesis by (auto simp: ebind_Inr_iff dest_or_temp_def split: if_splits)
qed (use assms(3) in simp_all)

lemma assigned_in_place:
  assumes "comp_expr e (comp_reg x c) c = Inr (r, c')" "all_ok c" "emitted p c c'" "x \<in> vars" "\<not> is_name e"
    "expr_value a e = Some v"
  shows "turns p vars c c' a (a(x \<mapsto> v))"
  unfolding turns_def
proof (intro allI impI)
  fix ls assume h: "holds vars (top_table c) a ls" and t: "frame_top c' < length ls"
  have ok: "frame_ok (top_table c)" using all_ok_frame[OF assms(2)] by simp
  have reg: "comp_reg x c \<noteq> 0" "comp_reg x c = lookupRegister x (top_table c)"
    using h assms(4) by (simp_all add: holds_def comp_reg_def)
  have "comp_reg x c \<in> live (top_table c)" using lookup_symbol[OF ok, of x] reg by (simp add: live_def)
  then obtain k ls' where f: "follows p (length (prog c)) ls k (length (prog c')) ls'" "ls' ! r = num_reg v"
    "\<forall>i \<in> live (top_table c) - {comp_reg x c}. ls' ! i = ls ! i"
    using computed_in_place[OF assms(1,2) _ assms(3) h t assms(6)] comp_reg_le[OF assms(2)] by metis
  obtain st where "compileExpression (comp_reg x c) False e (view c) = Inr (r, st)" by (rule comp_expr_view[OF assms(1)])
  then have "r = comp_reg x c" using value_destination reg(1) assms(5,6) by blast
  then have "holds vars (top_table c) (a(x \<mapsto> v)) ls'"
    using holds_assigned[OF ok h assms(4)] f(2,3) reg(2) by simp
  moreover have "symbolTable (top_table c') = symbolTable (top_table c)"
    using comp_expr_kept(1)[OF assms(1,2) comp_reg_le[OF assms(2)]] by (rule kept_symbols)
  ultimately show "\<exists>k ls'. follows p (length (prog c)) ls k (length (prog c')) ls' \<and>
      holds vars (top_table c') (a(x \<mapsto> v)) ls'" using f(1) holds_symbols by blast
qed

text \<open>A bare identifier: its register is the value, and nothing is emitted.\<close>

lemma put_view_self: "put_view (view c) c = c"
  by (simp add: put_view_def top_table_def)

lemma name_compiled:
  assumes "comp_expr (Terminal TYPE_IDENTIFIER y) dst c = Inr (r, c')" "comp_reg y c \<noteq> 0"
  shows "r = comp_reg y c" "c' = c"
  using assms unfolding comp_expr_def
  by (auto simp: ebind_Inr_iff compileTerminal_def compileIdentifierImmediate_def comp_reg_def lookup_def put_view_self
      split: if_splits)

lemma nameD: "is_name e \<Longrightarrow> \<exists>y. e = Terminal TYPE_IDENTIFIER y"
  by (induction e rule: is_name.induct) simp_all

lemma name_in_place:
  assumes "comp_expr e dst c = Inr (r, c')" "is_name e" "expr_value a e = Some v"
  shows "turns p vars c c' a a"
proof -
  obtain y where y: "e = Terminal TYPE_IDENTIFIER y" using nameD[OF assms(2)] by blast
  show ?thesis
  proof (cases "comp_reg y c = 0")
    case True
    from turns_no_register[OF this, of vars a v] show ?thesis using assms(3) y by simp
  next
    case False
    have "c' = c" by (rule name_compiled(2)[OF _ False]) (use assms(1) y in blast)
    then show ?thesis using turns_refl by simp
  qed
qed

lemma assignedD:
  "assigned vars e a = Some b \<Longrightarrow> \<exists>x f v. e = Binary ''='' (Terminal TYPE_IDENTIFIER x) f \<and> x \<in> vars \<and>
     expr_value a f = Some v \<and> b = (if is_name f then a else a(x \<mapsto> v))"
  by (induction vars e a rule: assigned.induct) (auto split: if_splits)

lemma assignment_in_place:
  assumes "comp_expr e 0 c = Inr (r, c')" "all_ok c" "emitted p c c'" "assigned vars e a = Some b"
  shows "turns p vars c c' a b"
proof -
  obtain x f v where e: "e = Binary ''='' (Terminal TYPE_IDENTIFIER x) f" "x \<in> vars"
    "expr_value a f = Some v" "b = (if is_name f then a else a(x \<mapsto> v))"
    using assms(4) assignedD by metis
  show ?thesis
  proof (cases "comp_reg x c = 0")
    case True
    from turns_no_register[OF this] show ?thesis using e(2) by blast
  next
    case False
    obtain st' where st': "compileExpression 0 False e (view c) = Inr (r, st')" "c' = put_view st' c"
      by (rule comp_expr_view[OF assms(1)])
    have look: "lookup x (view c) = comp_reg x c" by (simp add: lookup_def comp_reg_def)
    obtain q st1 where p: "compileExpression (comp_reg x c) False f (view c) = Inr (q, st1)" "code st' = code st1"
      "top_reg st1 \<le> top_reg st' \<or> \<not> frame_ok (frame st1)"
      using assignment_parts[OF st'(1)[unfolded e(1)]] False look by metis
    let ?d = "put_view st1 c"
    have d: "comp_expr f (comp_reg x c) c = Inr (q, ?d)" using p(1) by (simp add: comp_expr_def)
    note k = comp_expr_kept(1)[OF d assms(2) comp_reg_le[OF assms(2)]] comp_expr_kept(1)[OF assms(1,2) le0]
    have "frame_ok (frame st1)" using all_ok_frame[OF kept_ok[OF k(1)]] by simp
    then have top: "frame_top ?d \<le> frame_top c'" using p(3) st'(2) by simp
    have same: "prog c' = prog ?d" using p(2) st'(2) by simp
    then have "emitted p c ?d" using assms(3) by (simp add: emitted_def)
    have "turns p vars c ?d a b"
    proof (cases "is_name f")
      case True
      from name_in_place[OF d True e(3)] e(4) True show ?thesis by simp
    next
      case False
      from assigned_in_place[OF d assms(2) \<open>emitted p c ?d\<close> e(2) False e(3)] e(4) False show ?thesis by simp
    qed
    moreover have "symbolTable (top_table c') = symbolTable (top_table ?d)"
      using kept_symbols[OF k(1)] kept_symbols[OF k(2)] by simp
    ultimately show ?thesis using turns_same[OF _ refl refl same _ top] by blast
  qed
qed

text \<open>A declaration from a bare identifier is one instruction, or none when the variable is its own value.\<close>

lemma copied_in_place:
  assumes "emitted p c c'" "prog c' = prog c @ [instruction_new MOV (Num (comp_reg x c)) (Num (comp_reg y c)) null_op]"
    "kept D c c'" "all_ok c" "x \<in> vars" "a y = Some v"
  shows "turns p vars c c' a (a(x \<mapsto> v))"
  unfolding turns_def
proof (intro allI impI)
  fix ls assume h: "holds vars (top_table c) a ls" and t: "frame_top c' < length ls"
  have ok: "frame_ok (top_table c)" using all_ok_frame[OF assms(4)] by simp
  have y: "lookupRegister y (top_table c) \<noteq> 0" "ls ! lookupRegister y (top_table c) = num_reg v"
    using holds_register[OF h assms(6)] by simp_all
  have len: "comp_reg x c < length ls" "comp_reg y c < length ls"
    using comp_reg_le[OF assms(4)] kept_top[OF assms(3)] t by (meson le_less_trans)+
  let ?ls = "ls[comp_reg x c := ls ! comp_reg y c]"
  let ?i = "instruction_new MOV (Num (comp_reg x c)) (Num (comp_reg y c)) null_op"
  have "reg_steps [?i] ls = Some ?ls" using len by (simp add: reg_step.simps instruction_new_def)
  from follows_block[OF this emitted_code[OF assms(1,2)]]
  have "follows p (length (prog c)) ls 1 (length (prog c')) ?ls" by (simp add: assms(2))
  moreover have "holds vars (top_table c) (a(x \<mapsto> v)) ?ls"
    by (rule holds_assigned[OF ok h assms(5)]) (use y len in \<open>auto simp: comp_reg_def\<close>)
  then have "holds vars (top_table c') (a(x \<mapsto> v)) ?ls" using holds_symbols[OF kept_symbols[OF assms(3)]] by blast
  ultimately show "\<exists>k ls'. follows p (length (prog c)) ls k (length (prog c')) ls' \<and>
      holds vars (top_table c') (a(x \<mapsto> v)) ls'" by blast
qed

lemma copy_in_place:
  assumes "compileVar x e False c = Inr c'" "all_ok c" "emitted p c c'" "x \<in> vars" "is_name e" "expr_value a e = Some v"
  shows "turns p vars c c' a (a(x \<mapsto> v))"
proof -
  obtain y where y: "e = Terminal TYPE_IDENTIFIER y" using nameD[OF assms(5)] by blast
  then have a: "a y = Some v" using assms(6) by simp
  note k = kept_compileVar[OF assms(1,2), of UNIV]
  show ?thesis
  proof (cases "comp_reg x c = 0 \<or> comp_reg y c = 0")
    case True
    then show ?thesis using turns_no_register[of x c vars a v] turns_no_register[of y c vars a v] assms(4) a by blast
  next
    case False
    obtain q c1 where q: "comp_expr e (comp_reg x c) c = Inr (q, c1)"
      using assms(1) by (auto simp: compileVar_def Let_def ebind_Inr_iff)
    then have n: "q = comp_reg y c" "c1 = c" using name_compiled[of y "comp_reg x c" c q c1] y False by simp_all
    show ?thesis
    proof (cases "comp_reg y c = comp_reg x c")
      case True
      then have "x = y" using symbol_registers[OF all_ok_frame[OF assms(2)]] False by (simp add: comp_reg_def)
      moreover have "c' = c" using assms(1) q n True by (simp add: compileVar_def Let_def)
      ultimately show ?thesis using a turns_refl[of p vars c a] by (simp add: map_upd_triv)
    next
      case False
      with assms(1) q n have "prog c' = prog c @ [instruction_new MOV (Num (comp_reg x c)) (Num (comp_reg y c)) null_op]"
        by (auto simp: compileVar_def Let_def comp_free_def release_def)
      from copied_in_place[where x = x and y = y and a = a, OF assms(3) this k assms(2,4) a] show ?thesis .
    qed
  qed
qed

lemma variable_in_place:
  assumes "compileVar x e False c = Inr c'" "all_ok c" "emitted p c c'" "x \<in> vars" "expr_value a e = Some v"
  shows "turns p vars c c' a (a(x \<mapsto> v))"
proof (cases "comp_reg x c = 0 \<or> is_name e")
  case True
  then show ?thesis using turns_no_register[of x c vars a v] copy_in_place[OF assms(1-4) _ assms(5)] assms(4) by blast
next
  case False
  then have name: "\<not> is_name e" by blast
  obtain q c1 where q: "comp_expr e (comp_reg x c) c = Inr (q, c1)"
    using assms(1) by (auto simp: compileVar_def Let_def ebind_Inr_iff)
  obtain st where "compileExpression (comp_reg x c) False e (view c) = Inr (q, st)" by (rule comp_expr_view[OF q])
  then have "q = comp_reg x c" using value_destination False assms(5) by blast
  then have "c' = c1" using assms(1) q by (simp add: compileVar_def Let_def)
  then show ?thesis using assigned_in_place[OF q assms(2) _ assms(4) name assms(5)] assms(3) by simp
qed

text \<open>A test: the condition is computed, and the jump on it decides.\<close>

lemma test_in_place:
  assumes "comp_expr e 0 c = Inr (r, c1)" "all_ok c" "emitted p c (gen oc (Num r) (Str l) null_op c1)"
    "oc = JMP_TRUE \<or> oc = JMP_NOT_TRUE" "last_label p l t" "expr_value a e = Some v" "holds vars (top_table c) a ls"
    "frame_top c1 < length ls"
  obtains k ls' where "follows p (length (prog c)) ls k (if (v \<noteq> 0) = (oc = JMP_TRUE) then t else length (prog c1) + 1) ls'"
    "holds vars (top_table c1) a ls'" "length ls' = length ls"
proof -
  note k1 = comp_expr_kept(1)[OF assms(1,2) le0]
  have e1: "emitted p c c1" using assms(3) by (auto simp: emitted_def nth_append split: if_splits)
  obtain k ls' where f: "follows p (length (prog c)) ls k (length (prog c1)) ls'" "r < length ls'" "ls' ! r = num_reg v"
    "\<forall>i \<in> live (top_table c) - {0}. ls' ! i = ls ! i" "length ls' = length ls"
    by (rule computed_in_place[OF assms(1,2) _ e1 assms(7,8,6)]) auto
  obtain "is" where "prog c1 = prog c @ is" using kept_prog[OF k1] by blast
  then have j: "length (prog c1) < length p" "p ! length (prog c1) = instruction_new oc (Num r) (Str l) null_op"
    using assms(3) by (auto simp: emitted_def nth_append)
  have test_step: "follows p (length (prog c1)) ls' 1 (jump_target (p ! length (prog c1)) ls' (length (prog c1)) t) ls'"
    using test[OF j(1) _ _ f(2) _ assms(5) here] j(2) assms(4) by simp
  have target: "jump_target (p ! length (prog c1)) ls' (length (prog c1)) t =
      (if (v \<noteq> 0) = (oc = JMP_TRUE) then t else length (prog c1) + 1)"
    using j(2) f(3) by (simp add: jump_target_def)
  have "follows p (length (prog c)) ls (k + 1) (if (v \<noteq> 0) = (oc = JMP_TRUE) then t else length (prog c1) + 1) ls'"
    using follows_trans[OF f(1) test_step] unfolding target .
  moreover have "holds vars (top_table c1) a ls'"
    using holds_kept[OF _ assms(7) f(4)] all_ok_frame[OF assms(2)] holds_symbols[OF kept_symbols[OF k1]] by simp
  ultimately show ?thesis using that f(5) by blast
qed

section \<open>The simulation\<close>

lemma effect_in_place:
  assumes "effect_expr e c = Inr c'" "all_ok c" "emitted p c c'" "part_effect vars e a = Some b"
  shows "turns p vars c c' a b"
proof (cases e)
  case None
  then have "c' = c" "b = a" using assms(1,4) by (simp_all add: effect_expr_def part_effect_def)
  then show ?thesis using turns_refl by simp
next
  case (Some x)
  then obtain r y where y: "comp_expr x 0 c = Inr (r, y)" "c' = comp_free r y"
    using assms(1) by (auto simp: effect_expr_def ebind_Inr_iff)
  note k = comp_expr_kept(1)[OF y(1) assms(2) le0, of UNIV]
  have ky: "kept UNIV y c'" using kept_free[OF kept_refl[OF kept_ok[OF k]]] y(2) by simp
  have "turns p vars c y a b"
    using assignment_in_place[OF y(1) assms(2) emitted_parts(1)[OF assms(3) k ky]] assms(4) Some
    by (simp add: part_effect_def)
  moreover have "prog c' = prog y" by (simp add: y(2) comp_free_def release_def)
  ultimately show ?thesis using turns_same[OF _ refl refl _ kept_symbols[OF ky] kept_top[OF ky]] by blast
qed

lemma executed_hoist: "executes vars ss a b \<Longrightarrow> hoist ss c = c" "loops vars it cd body a b \<Longrightarrow> True"
  by (induction arbitrary: c rule: executes_loops.inducts) (simp_all add: hoist_def hoist1_def)

lemma brackets_emit_nothing:
  "push_loop c0 = (ls, le, lc, c) \<Longrightarrow> prog c = prog c0 \<and> top_table c = top_table c0"
  "two_labels x y c0 = (l1, l2, c) \<Longrightarrow> prog c = prog c0 \<and> top_table c = top_table c0"
  "prog (pop_loop c) = prog c" "top_table (pop_loop c) = top_table c"
  by (auto simp: push_loop_def two_labels_def next_label_def pop_loop_def top_table_def top_fn_def)

text \<open>The same between positions, for one table of symbols and one size of the frame.\<close>

definition goes :: "program \<Rightarrow> string set \<Rightarrow> func fkind \<Rightarrow> nat \<Rightarrow> nat \<Rightarrow> nat \<Rightarrow> store \<Rightarrow> store \<Rightarrow> bool" where
  "goes p vars fk n i j a b \<longleftrightarrow> (\<forall>ls. holds vars fk a ls \<longrightarrow> n < length ls \<longrightarrow>
     (\<exists>k ls'. follows p i ls k j ls' \<and> holds vars fk b ls'))"

lemma goes_trans: "goes p vars fk n i j a b \<Longrightarrow> goes p vars fk n j l b d \<Longrightarrow> goes p vars fk n i l a d"
  unfolding goes_def using follows_trans follows_length by metis

lemma goes_turns: "goes p vars (top_table c) (frame_top c') (length (prog c)) (length (prog c')) a b \<Longrightarrow>
    symbolTable (top_table c') = symbolTable (top_table c) \<Longrightarrow> turns p vars c c' a b"
  using holds_symbols[of "top_table c'" "top_table c"] by (simp add: goes_def turns_def)

lemma turns_goes:
  assumes "turns p vars c c' a b" "symbolTable (top_table c) = symbolTable fk" "symbolTable (top_table c') = symbolTable fk"
    "frame_top c' \<le> n"
  shows "goes p vars fk n (length (prog c)) (length (prog c')) a b"
  using assms(1,4) holds_symbols[OF assms(2)] holds_symbols[OF assms(3)] unfolding turns_def goes_def
  by (metis le_less_trans)

lemma goes_label: "last_label p l i \<Longrightarrow> goes p vars fk n i (i + 1) a a"
  unfolding goes_def last_label_def using follows_label by blast

lemma goes_jump:
  assumes "emitted p c (gen JMP (Str l) null_op null_op c)" "last_label p l t"
  shows "goes p vars fk n (length (prog c)) t a a"
proof -
  have "length (prog c) < length p" "p ! length (prog c) = instruction_new JMP (Str l) null_op null_op"
    using assms(1) by (simp_all add: emitted_def)
  then have "follows p (length (prog c)) ls 1 t ls" for ls using jump[OF _ _ _ assms(2) here] by simp
  then show ?thesis unfolding goes_def by blast
qed

lemma goes_test:
  assumes "comp_expr e 0 c = Inr (r, c1)" "all_ok c" "emitted p c (gen oc (Num r) (Str l) null_op c1)"
    "oc = JMP_TRUE \<or> oc = JMP_NOT_TRUE" "last_label p l t" "expr_value a e = Some v"
    "symbolTable (top_table c) = symbolTable fk" "frame_top c1 \<le> n"
  shows "goes p vars fk n (length (prog c)) (if (v \<noteq> 0) = (oc = JMP_TRUE) then t else length (prog c1) + 1) a a"
  unfolding goes_def
proof (intro allI impI)
  fix ls assume h: "holds vars fk a ls" and n: "n < length ls"
  have same: "symbolTable (top_table c1) = symbolTable fk"
    using kept_symbols[OF comp_expr_kept(1)[OF assms(1,2) le0]] assms(7) by simp
  obtain k ls' where "follows p (length (prog c)) ls k (if (v \<noteq> 0) = (oc = JMP_TRUE) then t else length (prog c1) + 1) ls'"
    "holds vars (top_table c1) a ls'"
    by (rule test_in_place[OF assms(1-6), of vars ls]) (use h n assms(8) holds_symbols[OF assms(7)] in auto)
  then show "\<exists>k ls'. follows p (length (prog c)) ls k (if (v \<noteq> 0) = (oc = JMP_TRUE) then t else length (prog c1) + 1) ls' \<and>
      holds vars fk a ls'" using holds_symbols[OF same] by blast
qed

text \<open>A block of statements that is known to work where it is compiled.\<close>

definition block_works :: "program \<Rightarrow> string set \<Rightarrow> nat \<Rightarrow> stmt list \<Rightarrow> store \<Rightarrow> store \<Rightarrow> bool" where
  "block_works p vars fuel ss a b \<longleftrightarrow> (\<forall>c c'. compileBody fuel ss c = Inr c' \<longrightarrow> all_ok c \<longrightarrow> emitted p c c' \<longrightarrow> turns p vars c c' a b)"

lemma block_goes:
  assumes "block_works p vars fuel ss a b" "compileBody fuel ss c = Inr c'" "all_ok c" "emitted p c c'"
    "symbolTable (top_table c) = symbolTable fk" "frame_top c' \<le> n"
  shows "goes p vars fk n (length (prog c)) (length (prog c')) a b"
proof -
  have "kept UNIV c c'" by (rule kept_all(4)[OF assms(2,3)]) auto
  from kept_symbols[OF this] assms(5) have "symbolTable (top_table c') = symbolTable fk" by simp
  with turns_goes assms show ?thesis unfolding block_works_def by blast
qed

lemma kept_body: "compileBody fuel ss c = Inr c' \<Longrightarrow> all_ok c \<Longrightarrow> kept UNIV c c'"
  by (rule kept_all(4)) auto

lemma kept_here: "all_ok c \<Longrightarrow> kept UNIV c (gen_label l c)"
  "all_ok c \<Longrightarrow> kept UNIV c (gen JMP (Str l) null_op null_op c)"
  by (auto intro: emits kept_refl)

lemma kept_test:
  assumes "comp_expr e 0 c = Inr (r, c1)" "all_ok c" "oc = JMP_TRUE \<or> oc = JMP_NOT_TRUE"
  shows "kept UNIV c1 (comp_free r (gen oc (Num r) (Str l) null_op c1))"
  using comp_expr_kept[OF assms(1,2) le0] kept_ok assms(3)
  by (auto intro!: kept_free kept_gen kept_refl)

lemma freed_test [simp]: "prog (comp_free r (gen oc (Num r) (Str l) null_op c)) = prog c @ [instruction_new oc (Num r) (Str l) null_op]"
  by (simp add: comp_free_def release_def)

text \<open>A conditional.\<close>

lemma label_prog [simp]: "length (prog (gen_label l c)) = length (prog c) + 1" "top_table (gen_label l c) = top_table c"
  by (simp_all add: gen_label_gen)

definition else_code :: "nat \<Rightarrow> stmt list option \<Rightarrow> string \<Rightarrow> string \<Rightarrow> comp \<Rightarrow> fault + comp" where
  "else_code fuel other lfail lend c =
     (case other of None \<Rightarrow> Inr (gen_label lfail c)
      | Some eb \<Rightarrow> compileBody fuel eb (gen_label lfail (gen JMP (Str lend) null_op null_op c)))"

lemma kept_else: "else_code fuel other lfail lend c = Inr c' \<Longrightarrow> all_ok c \<Longrightarrow> kept UNIV c c'"
proof (cases other)
  case (Some eb)
  assume e: "else_code fuel other lfail lend c = Inr c'" "all_ok c"
  let ?l = "gen_label lfail (gen JMP (Str lend) null_op null_op c)"
  have l: "kept UNIV c ?l" using kept_label[OF kept_here(2)[OF e(2)]] .
  moreover have "kept UNIV ?l c'" using kept_body[OF _ kept_ok[OF l]] e(1) Some by (simp add: else_code_def)
  ultimately show ?thesis by (rule kept_trans)
qed (auto simp: else_code_def intro: kept_here(1))

text \<open>Behind the first part of a conditional: its end skips the other part, and that begins at its label.\<close>

lemma else_in_place:
  assumes "else_code fuel other lfail lend c4 = Inr c5" "all_ok c4" "emitted p c4 c5" "labels_ok p"
    and "last_label p lend (length (prog c5))" "symbolTable (top_table c4) = symbolTable fk" "frame_top c5 \<le> n"
  obtains t where "last_label p lfail t" "\<And>x. goes p vars fk n (length (prog c4)) (length (prog c5)) x x"
    "case other of None \<Rightarrow> b = a | Some eb \<Rightarrow> block_works p vars fuel eb a b \<Longrightarrow>
       goes p vars fk n t (length (prog c5)) a b"
proof (cases other)
  case None
  then have c5: "c5 = gen_label lfail c4" using assms(1) by (simp add: else_code_def)
  have l: "last_label p lfail (length (prog c4))" using emitted_label[OF _ assms(4)] assms(3) c5 by simp
  have "goes p vars fk n (length (prog c4)) (length (prog c5)) x x" for x using goes_label[OF l] c5 by simp
  then show ?thesis using that[OF l] None by simp
next
  case (Some eb)
  let ?j = "gen JMP (Str lend) null_op null_op c4"
  let ?l = "gen_label lfail ?j"
  have c5: "compileBody fuel eb ?l = Inr c5" using assms(1) Some by (simp add: else_code_def)
  have kj: "kept UNIV c4 ?j" "kept UNIV ?j ?l" using kept_here assms(2) by simp_all
  have kl: "kept UNIV ?l c5" by (rule kept_body[OF c5 kept_ok[OF kj(2)]])
  note ej = emitted_parts[OF assms(3) kj(1) kept_trans[OF kj(2) kl]]
  note el = emitted_parts[OF ej(2) kj(2) kl]
  have l: "last_label p lfail (length (prog c4) + 1)" using emitted_label[OF el(1) assms(4)] by simp
  have skip: "goes p vars fk n (length (prog c4)) (length (prog c5)) x x" for x by (rule goes_jump[OF ej(1) assms(5)])
  have "goes p vars fk n (length (prog ?l)) (length (prog c5)) a b" if "block_works p vars fuel eb a b"
    by (rule block_goes[OF that c5 kept_ok[OF kj(2)] el(2)]) (use assms(6,7) in simp_all)
  then have "goes p vars fk n (length (prog c4) + 1) (length (prog c5)) a b" if "block_works p vars fuel eb a b"
    using that goes_trans[OF goes_label[OF l]] by simp
  with that[OF l skip] Some show ?thesis by simp
qed

lemma conditional_in_place:
  assumes comp: "compileNode fuel False (Conditional_node e body other) c0 = Inr c'" "all_ok c0"
    and p: "emitted p c0 c'" "labels_ok p" and v: "expr_value a e = Some v"
    and then_part: "v \<noteq> 0 \<Longrightarrow> block_works p vars fuel body a b"
    and else_part: "v = 0 \<Longrightarrow> (case other of None \<Rightarrow> b = a | Some eb \<Rightarrow> block_works p vars fuel eb a b)"
  shows "turns p vars c0 c' a b"
proof -
  obtain lfail lend c2 where two: "two_labels ''.else_'' ''.end_cond_'' c0 = (lfail, lend, c2)"
    by (cases "two_labels ''.else_'' ''.end_cond_'' c0") auto
  note c2 = brackets_emit_nothing(2)[OF two]
  obtain r c3 c4 c5 where parts: "comp_expr e 0 c2 = Inr (r, c3)"
    "compileBody fuel body (comp_free r (gen JMP_NOT_TRUE (Num r) (Str lfail) null_op c3)) = Inr c4"
    "else_code fuel other lfail lend c4 = Inr c5" "c' = gen_label lend c5"
    using comp(1) two by (auto simp: ebind_Inr_iff else_code_def simp del: compileBody.simps)
  let ?b = "comp_free r (gen JMP_NOT_TRUE (Num r) (Str lfail) null_op c3)"
  have ok2: "all_ok c2" using comp(2) two_labels_kept(1)[OF two] by simp
  note k3 = comp_expr_kept(1)[OF parts(1) ok2 le0, of UNIV]
  have kb: "kept UNIV c3 ?b" using kept_test[OF parts(1) ok2] by simp
  note k4 = kept_body[OF parts(2) kept_ok[OF kb]]
  have k24: "kept UNIV c2 ?b" "kept UNIV c2 c4" using kept_trans k3 kb k4 by blast+
  note k5 = kept_else[OF parts(3) kept_ok[OF k4]]
  have k': "kept UNIV c5 c'" unfolding parts(4) by (rule kept_here(1)[OF kept_ok[OF k5]])
  have em: "emitted p c2 c'" using p(1) c2 by (simp add: emitted_def)
  note e24 = emitted_parts[OF em k24(2) kept_trans[OF k5 k']]
  note eb = emitted_parts[OF e24(1) k24(1) k4] and e45 = emitted_parts[OF e24(2) k5 k']
  have sym: "symbolTable (top_table c2) = symbolTable (top_table c0)" "symbolTable (top_table ?b) = symbolTable (top_table c0)"
    "symbolTable (top_table c4) = symbolTable (top_table c0)" "symbolTable (top_table c') = symbolTable (top_table c0)"
    using c2 kept_symbols[OF k24(1)] kept_symbols[OF k24(2)] kept_symbols[OF k5] kept_symbols[OF k'] by simp_all
  have top: "frame_top c3 \<le> frame_top c'" "frame_top c4 \<le> frame_top c'" "frame_top c5 \<le> frame_top c'"
    using kept_top[OF kb] kept_top[OF k4] kept_top[OF k5] kept_top[OF k'] by simp_all
  let ?goes = "goes p vars (top_table c0) (frame_top c')"
  have lend: "last_label p lend (length (prog c5))" using emitted_label[OF _ p(2)] e45(2) parts(4) by simp
  obtain t where t: "last_label p lfail t" "\<And>x. ?goes (length (prog c4)) (length (prog c5)) x x"
    "case other of None \<Rightarrow> b = a | Some eb \<Rightarrow> block_works p vars fuel eb a b \<Longrightarrow> ?goes t (length (prog c5)) a b"
    by (rule else_in_place[OF parts(3) kept_ok[OF k4] e45(1) p(2) lend sym(3) top(3), where vars = vars and a = a and b = b]) blast
  have "emitted p c2 (gen JMP_NOT_TRUE (Num r) (Str lfail) null_op c3)" using eb(1) by (simp add: emitted_def)
  note test = goes_test[OF parts(1) ok2 this _ t(1) v sym(1) top(1), where vars = vars]
  have "?goes (length (prog c2)) (length (prog c5)) a b"
  proof (cases "v = 0")
    case True
    with test have "?goes (length (prog c2)) t a a" by simp
    with t(3)[OF else_part[OF True]] show ?thesis using goes_trans by blast
  next
    case False
    have body: "?goes (length (prog ?b)) (length (prog c4)) a b"
      by (rule block_goes[OF then_part[OF False] parts(2) kept_ok[OF kb] eb(2) sym(2) top(2)])
    have "?goes (length (prog c2)) (length (prog ?b)) a a" using test False by simp
    from goes_trans[OF goes_trans[OF this body] t(2)] show ?thesis .
  qed
  moreover have "?goes (length (prog c5)) (length (prog c')) b b" using goes_label[OF lend] parts(4) by simp
  ultimately have "?goes (length (prog c0)) (length (prog c')) a b" using goes_trans c2 by metis
  then show ?thesis by (rule goes_turns) (rule sym(4))
qed

text \<open>
  A loop: the code for the body begins at the label \<open>lstart\<close>, the test at \<open>lcond\<close>. \<open>turns_round\<close> says that
  the iterations from \<open>a\<close> on are run by the code between \<open>c\<close> (before the body) and \<open>c7\<close> (after the test).
\<close>

definition loop_code :: "nat \<Rightarrow> expr option \<Rightarrow> expr \<Rightarrow> stmt list \<Rightarrow> string \<Rightarrow> string \<Rightarrow> comp \<Rightarrow> comp \<Rightarrow> comp \<Rightarrow> comp \<Rightarrow> bool" where
  "loop_code fuel iter e body lstart lcond c c5 c6 c7 \<longleftrightarrow>
     compileBody fuel body (gen_label lstart c) = Inr c5 \<and> effect_expr iter c5 = Inr c6 \<and>
     loop_condition (Some e) lstart (gen_label lcond c6) = Inr c7 \<and> all_ok c"

lemma loop_code_kept:
  assumes "loop_code fuel iter e body lstart lcond c c5 c6 c7"
  shows "kept UNIV c (gen_label lstart c)" "kept UNIV (gen_label lstart c) c5" "kept UNIV c5 c6"
    "kept UNIV c6 (gen_label lcond c6)" "kept UNIV (gen_label lcond c6) c7"
proof -
  have l: "compileBody fuel body (gen_label lstart c) = Inr c5" "effect_expr iter c5 = Inr c6"
    "loop_condition (Some e) lstart (gen_label lcond c6) = Inr c7" "all_ok c"
    using assms unfolding loop_code_def by blast+
  show 1: "kept UNIV c (gen_label lstart c)" by (rule kept_here(1)[OF l(4)])
  show 2: "kept UNIV (gen_label lstart c) c5" by (rule kept_body[OF l(1) kept_ok[OF 1]])
  show 3: "kept UNIV c5 c6" by (rule kept_effect[OF l(2) kept_ok[OF 2]])
  show 4: "kept UNIV c6 (gen_label lcond c6)" by (rule kept_here(1)[OF kept_ok[OF 3]])
  show 5: "kept UNIV (gen_label lcond c6) c7" by (rule kept_loop_condition[OF l(3) kept_ok[OF 4]])
qed

lemma loop_code_emitted:
  assumes "loop_code fuel iter e body lstart lcond c c5 c6 c7" "emitted p c c7"
  shows "emitted p c (gen_label lstart c)" "emitted p (gen_label lstart c) c5" "emitted p c5 c6"
    "emitted p c6 (gen_label lcond c6)" "emitted p (gen_label lcond c6) c7"
proof -
  note k = loop_code_kept[OF assms(1)]
  note e1 = emitted_parts[OF assms(2) k(1) kept_trans[OF k(2) kept_trans[OF k(3) kept_trans[OF k(4,5)]]]]
  note e2 = emitted_parts[OF e1(2) k(2) kept_trans[OF k(3) kept_trans[OF k(4,5)]]]
  note e3 = emitted_parts[OF e2(2) k(3) kept_trans[OF k(4,5)]]
  note e4 = emitted_parts[OF e3(2) k(4,5)]
  show "emitted p c (gen_label lstart c)" "emitted p (gen_label lstart c) c5" "emitted p c5 c6"
    "emitted p c6 (gen_label lcond c6)" "emitted p (gen_label lcond c6) c7" using e1 e2 e3 e4 by blast+
qed

text \<open>The test of a loop goes back to the body or out of the loop.\<close>

lemma loop_test:
  assumes "loop_code fuel iter e body lstart lcond c c5 c6 c7" "emitted p c c7" "labels_ok p" "expr_value a e = Some v"
    "symbolTable (top_table c6) = symbolTable fk" "frame_top c7 \<le> n"
  shows "goes p vars fk n (length (prog c6)) (if v \<noteq> 0 then length (prog c) else length (prog c7)) a a"
proof -
  let ?l = "gen_label lcond c6"
  note k = loop_code_kept[OF assms(1)] and em = loop_code_emitted[OF assms(1,2)]
  obtain r y where y: "comp_expr e 0 ?l = Inr (r, y)" "c7 = comp_free r (gen JMP_TRUE (Num r) (Str lstart) null_op y)"
    using assms(1) by (auto simp: loop_code_def loop_condition_def ebind_Inr_iff)
  have ok: "all_ok ?l" by (rule kept_ok[OF k(4)])
  have ky: "kept UNIV y c7" using kept_test[OF y(1) ok] y(2) by simp
  have "emitted p ?l (gen JMP_TRUE (Num r) (Str lstart) null_op y)" using em(5) y(2) by (simp add: emitted_def)
  from goes_test[OF y(1) ok this _ emitted_label[OF em(1) assms(3)] assms(4)]
  have "goes p vars fk n (length (prog ?l)) (if v \<noteq> 0 then length (prog c) else length (prog y) + 1) a a"
    using assms(5,6) kept_top[OF ky] by simp
  moreover have "length (prog y) + 1 = length (prog c7)" using y(2) by simp
  ultimately show ?thesis
    using goes_trans[OF goes_label[OF emitted_label[OF em(4) assms(3)]]] by (cases "v = 0") simp_all
qed

lemma loop_round:
  assumes "loop_code fuel iter e body lstart lcond c c5 c6 c7" "emitted p c c7" "labels_ok p" "expr_value a e = Some v" "v \<noteq> 0"
    "symbolTable (top_table c) = symbolTable fk" "frame_top c7 \<le> n"
    "block_works p vars fuel body a b" "part_effect vars iter b = Some d"
  shows "goes p vars fk n (length (prog c6)) (length (prog c6)) a d"
proof -
  let ?s = "gen_label lstart c"
  note k = loop_code_kept[OF assms(1)] and em = loop_code_emitted[OF assms(1,2)]
  have l: "compileBody fuel body ?s = Inr c5" "effect_expr iter c5 = Inr c6" using assms(1) by (auto simp: loop_code_def)
  have sym: "symbolTable (top_table ?s) = symbolTable fk" "symbolTable (top_table c5) = symbolTable fk"
    "symbolTable (top_table c6) = symbolTable fk"
    using assms(6) kept_symbols[OF k(1)] kept_symbols[OF k(2)] kept_symbols[OF k(3)] by simp_all
  have top: "frame_top c5 \<le> n" "frame_top c6 \<le> n"
    using kept_top[OF kept_trans[OF k(3) kept_trans[OF k(4,5)]]] kept_top[OF kept_trans[OF k(4,5)]] assms(7) by simp_all
  have "goes p vars fk n (length (prog c6)) (length (prog c)) a a"
    using loop_test[OF assms(1-4) sym(3) assms(7)] assms(5) by simp
  moreover have "goes p vars fk n (length (prog c)) (length (prog ?s)) a a"
    using goes_label[OF emitted_label[OF em(1) assms(3)]] by simp
  moreover have "goes p vars fk n (length (prog ?s)) (length (prog c5)) a b"
    by (rule block_goes[OF assms(8) l(1) kept_ok[OF k(1)] em(2) sym(1) top(1)])
  moreover have "goes p vars fk n (length (prog c5)) (length (prog c6)) b d"
    by (rule turns_goes[OF effect_in_place[OF l(2) kept_ok[OF k(2)] em(3) assms(9)] sym(2,3) top(2)])
  ultimately show ?thesis using goes_trans by blast
qed

definition loop_works :: "program \<Rightarrow> string set \<Rightarrow> nat \<Rightarrow> expr option \<Rightarrow> expr \<Rightarrow> stmt list \<Rightarrow> store \<Rightarrow> store \<Rightarrow> bool" where
  "loop_works p vars fuel iter e body a b \<longleftrightarrow> (\<forall>lstart lcond c c5 c6 c7 fk n. loop_code fuel iter e body lstart lcond c c5 c6 c7 \<longrightarrow>
     emitted p c c7 \<longrightarrow> symbolTable (top_table c) = symbolTable fk \<longrightarrow> frame_top c7 \<le> n \<longrightarrow>
     goes p vars fk n (length (prog c6)) (length (prog c7)) a b)"

lemma loop_in_place:
  assumes "compileNode fuel False (Loop_node start iter (Some e) body) c0 = Inr c'" "all_ok c0" "emitted p c0 c'" "labels_ok p"
    "part_effect vars start a = Some b" "loop_works p vars fuel iter e body b d"
  shows "turns p vars c0 c' a d"
proof -
  obtain lstart lend lcond c3 where push: "push_loop c0 = (lstart, lend, lcond, c3)" by (cases "push_loop c0") auto
  note c3 = brackets_emit_nothing(1)[OF push]
  obtain c4 c5 c6 c7 where parts: "effect_expr start c3 = Inr c4"
    "compileBody fuel body (gen_label lstart (gen JMP (Str lcond) null_op null_op c4)) = Inr c5" "effect_expr iter c5 = Inr c6"
    "loop_condition (Some e) lstart (gen_label lcond c6) = Inr c7" "c' = pop_loop (gen_label lend c7)"
    using assms(1) push by (auto simp: ebind_Inr_iff simp del: compileBody.simps)
  let ?j = "gen JMP (Str lcond) null_op null_op c4"
  have ok3: "all_ok c3" using assms(2) push_loop_kept(1)[OF push] by simp
  note k4 = kept_effect[OF parts(1) ok3, of UNIV]
  have kj: "kept UNIV c4 ?j" by (rule kept_here(2)[OF kept_ok[OF k4]])
  have code: "loop_code fuel iter e body lstart lcond ?j c5 c6 c7"
    using parts(2-4) kept_ok[OF kj] unfolding loop_code_def by blast
  note k = loop_code_kept[OF code]
  have k6: "kept UNIV ?j c6" and k7: "kept UNIV ?j c7" using kept_trans k by blast+
  have kl: "kept UNIV c7 (gen_label lend c7)" by (rule kept_here(1)[OF kept_ok[OF k7]])
  have em: "emitted p c3 (gen_label lend c7)" using assms(3) c3 parts(5) brackets_emit_nothing(3) by (simp add: emitted_def)
  note e4 = emitted_parts[OF em k4 kept_trans[OF kj kept_trans[OF k7 kl]]]
  note ej = emitted_parts[OF e4(2) kj kept_trans[OF k7 kl]]
  note e7 = emitted_parts[OF ej(2) k7 kl]
  have sym: "symbolTable (top_table c3) = symbolTable (top_table c0)" "symbolTable (top_table c4) = symbolTable (top_table c0)"
    "symbolTable (top_table ?j) = symbolTable (top_table c0)" "symbolTable (top_table c7) = symbolTable (top_table c0)"
    using c3 kept_symbols[OF k4] kept_symbols[OF k7] by simp_all
  have top: "frame_top c4 \<le> frame_top c7" "frame_top c7 \<le> frame_top c'"
    using kept_top[OF kept_trans[OF kj k7]] parts(5) brackets_emit_nothing(4) by simp_all
  let ?goes = "goes p vars (top_table c0) (frame_top c')"
  have "?goes (length (prog c3)) (length (prog c4)) a b"
    by (rule turns_goes[OF effect_in_place[OF parts(1) ok3 e4(1) assms(5)] sym(1,2)]) (use top in simp)
  moreover have "?goes (length (prog c4)) (length (prog c6)) b b"
    by (rule goes_jump[OF ej(1) emitted_label[OF loop_code_emitted(4)[OF code e7(1)] assms(4)]])
  moreover have "?goes (length (prog c6)) (length (prog c7)) b d"
    using assms(6) code e7(1) sym(3) top(2) unfolding loop_works_def by blast
  moreover have "?goes (length (prog c7)) (length (prog c')) d d"
    using goes_label[OF emitted_label[OF e7(2) assms(4)]] parts(5) brackets_emit_nothing(3) by simp
  ultimately have "?goes (length (prog c0)) (length (prog c')) a d" using goes_trans c3 by metis
  then show ?thesis
    by (rule goes_turns) (simp add: parts(5) brackets_emit_nothing(4) sym(4))
qed

text \<open>By induction on what the statements do: their code does it.\<close>

lemma stmts_Cons:
  assumes "compileStmts fuel (plain nd # ss) c = Inr c'" "all_ok c" "emitted p c c'"
  obtains c1 where "compileNode fuel False nd c = Inr c1" "compileStmts fuel ss c1 = Inr c'" "all_ok c1"
    "emitted p c c1" "emitted p c1 c'" "kept UNIV c1 c'"
proof -
  obtain c1 where c1: "compileNode fuel False nd c = Inr c1" "compileStmts fuel ss c1 = Inr c'"
    using assms(1) by (auto simp: ebind_Inr_iff compileBreak_def)
  have k: "kept UNIV c c1" by (rule kept_all(2)[OF c1(1) assms(2)]) auto
  have k1: "kept UNIV c1 c'" by (rule kept_all(3)[OF c1(2) kept_ok[OF k]]) auto
  show ?thesis using that[OF c1 kept_ok[OF k] emitted_parts[OF assms(3) k k1] k1] .
qed

definition list_works :: "program \<Rightarrow> string set \<Rightarrow> nat \<Rightarrow> stmt list \<Rightarrow> store \<Rightarrow> store \<Rightarrow> bool" where
  "list_works p vars fuel ss a b \<longleftrightarrow> (\<forall>c c'. compileStmts fuel ss c = Inr c' \<longrightarrow> all_ok c \<longrightarrow> emitted p c c' \<longrightarrow> turns p vars c c' a b)"

lemma list_block: "list_works p vars fuel ss a b \<Longrightarrow> executes vars ss a b \<Longrightarrow> block_works p vars fuel ss a b"
  unfolding list_works_def block_works_def using executed_hoist(1) by simp

lemma list_Cons:
  assumes "list_works p vars fuel ss b z"
    and "\<And>c c'. compileNode fuel False nd c = Inr c' \<Longrightarrow> all_ok c \<Longrightarrow> emitted p c c' \<Longrightarrow> turns p vars c c' a b"
  shows "list_works p vars fuel (plain nd # ss) a z"
  unfolding list_works_def
proof (intro allI impI)
  fix c c' assume "compileStmts fuel (plain nd # ss) c = Inr c'" "all_ok c" "emitted p c c'"
  then obtain c1 where c1: "compileNode fuel False nd c = Inr c1" "compileStmts fuel ss c1 = Inr c'" "all_ok c1"
    "emitted p c c1" "emitted p c1 c'" "kept UNIV c1 c'" by (rule stmts_Cons)
  have "turns p vars c c1 a b" using assms(2) c1(1,4) \<open>all_ok c\<close> by blast
  moreover have "turns p vars c1 c' b z" using assms(1) c1(2,3,5) by (simp add: list_works_def)
  ultimately show "turns p vars c c' a z" using turns_trans c1(6) by blast
qed

lemma expression_statement:
  assumes "compileNode fuel False (Expr_node e) c = Inr c'" "all_ok c" "emitted p c c'" "assigned vars e a = Some b"
  shows "turns p vars c c' a b"
proof (rule effect_in_place[OF _ assms(2,3)])
  show "effect_expr (Some e) c = Inr c'" using assms(1) by (auto simp: effect_expr_def ebind_Inr_iff)
  show "part_effect vars (Some e) a = Some b" using assms(4) by (simp add: part_effect_def)
qed

lemma code_does_what_it_means:
  assumes "labels_ok p"
  shows "executes vars ss a b \<Longrightarrow> list_works p vars fuel ss a b"
    and "loops vars iter e body a b \<Longrightarrow> loop_works p vars fuel iter e body a b"
proof (induction rule: executes_loops.inducts)
  case (finished a)
  then show ?case using turns_refl by (simp add: list_works_def)
next
  case (assign e a b ss z)
  show ?case by (rule list_Cons[OF assign(3)]) (rule expression_statement[OF _ _ _ assign(1)])
next
  case (declares x e a v ss z stat priv)
  show ?case by (rule list_Cons[OF declares.IH(3)], rule variable_in_place[OF _ _ _ declares.IH(1) declares.hyps]) simp_all
next
  case (block body a b ss z)
  then have w: "list_works p vars fuel ss b z" "block_works p vars fuel body a b" using list_block by blast+
  show ?case by (rule list_Cons[OF w(1)]) (use w(2) in \<open>simp add: block_works_def\<close>)
next
  case (then_part a c v body b ss z other)
  then have w: "list_works p vars fuel ss b z" "block_works p vars fuel body a b" "expr_value a c = Some v" "v \<noteq> 0"
    using list_block by blast+
  show ?case by (rule list_Cons[OF w(1)], rule conditional_in_place[OF _ _ _ assms w(3)], assumption+) (use w(2,4) in auto)
next
  case (no_else a c ss z body)
  then have w: "list_works p vars fuel ss a z" "expr_value a c = Some 0" by blast+
  show ?case by (rule list_Cons[OF w(1)], rule conditional_in_place[OF _ _ _ assms w(2)], assumption+) auto
next
  case (else_part a c other b ss z body)
  then have w: "list_works p vars fuel ss b z" "block_works p vars fuel other a b" "expr_value a c = Some 0"
    using list_block by blast+
  show ?case by (rule list_Cons[OF w(1)], rule conditional_in_place[OF _ _ _ assms w(3)], assumption+) (use w(2) in auto)
next
  case (loop start a b iter c body d ss z)
  then have w: "list_works p vars fuel ss d z" "part_effect vars start a = Some b" "loop_works p vars fuel iter c body b d" by blast+
  show ?case by (rule list_Cons[OF w(1)]) (rule loop_in_place[OF _ _ _ assms w(2,3)])
next
  case (loop_ends a c iter body)
  have "goes p vars fk n (length (prog c6)) (length (prog c7)) a a"
    if "loop_code fuel iter c body lstart lcond k c5 c6 c7" "emitted p k c7" "symbolTable (top_table k) = symbolTable fk"
      "frame_top c7 \<le> n" for lstart lcond k c5 c6 c7 fk n
    using loop_test[OF that(1,2) assms loop_ends _ that(4)] kept_symbols[OF loop_code_kept(1)[OF that(1)]]
      kept_symbols[OF loop_code_kept(2)[OF that(1)]] kept_symbols[OF loop_code_kept(3)[OF that(1)]] that(3) by simp
  then show ?case unfolding loop_works_def by blast
next
  case (loop_again a c v body b iter d z)
  then have w: "expr_value a c = Some v" "v \<noteq> 0" "block_works p vars fuel body a b" "part_effect vars iter b = Some d"
    "loop_works p vars fuel iter c body d z" using list_block by blast+
  have "goes p vars fk n (length (prog c6)) (length (prog c7)) a z"
    if "loop_code fuel iter c body lstart lcond k c5 c6 c7" "emitted p k c7" "symbolTable (top_table k) = symbolTable fk"
      "frame_top c7 \<le> n" for lstart lcond k c5 c6 c7 fk n
    using goes_trans[OF loop_round[OF that(1,2) assms w(1,2) that(3,4) w(3,4)]] w(5) that unfolding loop_works_def by blast
  then show ?case unfolding loop_works_def by blast
qed

section \<open>A loop to run\<close>

text \<open>\<open>while (x < y) x = x + y\<close>, in a function whose locals \<open>x\<close> and \<open>y\<close> are the registers 3 and 4.\<close>

definition count_loop :: "stmt list" where
  "count_loop = [plain (Loop_node None None (Some (Binary ''<'' (Terminal TYPE_IDENTIFIER ''x'') (Terminal TYPE_IDENTIFIER ''y'')))
     [plain (Expr_node (Binary ''='' (Terminal TYPE_IDENTIFIER ''x'')
        (Binary ''+'' (Terminal TYPE_IDENTIFIER ''x'') (Terminal TYPE_IDENTIFIER ''y''))))])]"

definition count_comp :: comp where
  "count_comp = \<lparr>prog = [], ctables = (\<lambda>_. frame sample_state), functionsStack = [0], loopEndLabelsStack = [],
     loopStartLabelsStack = [], finallyBlocks = [], compiledStaticFunctions = [], labelCount = 0\<rparr>"

definition count_code :: program where
  "count_code = [instruction_new JMP (Str ''.lcond_3'') null_op null_op,
     instruction_new LABEL (Str ''.lstart_1'') null_op null_op,
     instruction_new ADD (Num 3) (Num 4) (Num 3),
     instruction_new LABEL (Str ''.lcond_3'') null_op null_op,
     instruction_new CMP_LESS (Num 3) (Num 4) (Num 5),
     instruction_new JMP_TRUE (Num 5) (Str ''.lstart_1'') null_op,
     instruction_new LABEL (Str ''.lend_2'') null_op null_op]"

lemma count_compiled: "\<exists>c'. compileStmts 0 count_loop count_comp = Inr c' \<and> prog c' = count_code \<and> frame_top c' < 8"
proof -
  have "case compileStmts 0 count_loop count_comp of Inr c' \<Rightarrow> prog c' = count_code \<and> frame_top c' < 8 | Inl _ \<Rightarrow> False"
    by code_simp
  then show ?thesis by (auto split: sum.splits)
qed

lemma count_labels: "labels_ok count_code"
  by (simp add: labels_ok_def count_code_def)

lemma constants_none:
  "\<forall>i \<in> set p. opc i \<notin> {IMPORT_CLS, MOV_STR, GET_FIELD_IMMEDIATE, FFRAME} \<Longrightarrow> constants_pass tabs p b = Inr (p, b)"
  by (induction p) (simp_all add: place_constants_def)

lemma assembled_length:
  assumes "assemble addr junk tabs p = Inr b" "6 \<le> length junk"
    "\<forall>i \<in> set p. opc i \<notin> {IMPORT_CLS, MOV_STR, GET_FIELD_IMMEDIATE, FFRAME}"
  shows "length b = 16 + 32 * reals p (length p)"
proof -
  obtain p' c where c: "constants_pass tabs p (word_bytes 0 @ take 8 (cstr '' '' @ junk)) = Inr (p', c)"
    "length b = length c + 32 * reals p (length p)" by (rule assemble_parts[OF assms(1,2)])
  from c(1) have "c = word_bytes 0 @ take 8 (cstr '' '' @ junk)" unfolding constants_none[OF assms(3)] by simp
  with c(2) assms(2) show ?thesis by (simp add: cstr_def)
qed

lemma count_assembled: "\<exists>b. assemble (\<lambda>_. 0) (replicate 6 0) (\<lambda>_. fkind_new :: func fkind) count_code = Inr b \<and> length b < 2 ^ 64"
proof -
  have "list_all asm_ok count_code"
    by (simp add: count_code_def asm_ok_def link_ok_def takes_number_def less_eq_opcode_def)
  then obtain b where b: "assemble (\<lambda>_. 0) (replicate 6 0) (\<lambda>_. fkind_new :: func fkind) count_code = Inr b"
    using assemble_total by blast
  have "\<forall>i \<in> set count_code. opc i \<notin> {IMPORT_CLS, MOV_STR, GET_FIELD_IMMEDIATE, FFRAME}" by (simp add: count_code_def)
  moreover have "reals count_code (length count_code) \<le> length count_code" by (simp add: reals_def)
  moreover have "length count_code = 7" by (simp add: count_code_def)
  ultimately have "length b \<le> 16 + 32 * 7" using assembled_length[OF b] by simp
  with b show ?thesis by auto
qed

definition count_locals :: "z_reg list" where
  "count_locals = (replicate 8 (num_reg 0))[3 := num_reg (f64_of_int 0), 4 := num_reg (f64_of_int 1)]"

definition count_store :: "int \<Rightarrow> store" where
  "count_store i = [''x'' \<mapsto> f64_of_int i, ''y'' \<mapsto> f64_of_int 1]"

lemma count_means: "executes {''x'', ''y''} count_loop (count_store 0) (count_store 1)"
  unfolding count_loop_def
proof (rule loop[OF _ loop_again[OF _ _ assign[OF _ finished] _ loop_ends] finished])
  have s: "small_int 0" "small_int 1" "small_int (0 + 1)" by (simp_all add: small_int_def)
  have one: "f64_of_int 1 \<noteq> 0" "f64_of_int 0 = 0" using denotes_0 f64_bool[of True] by (simp_all add: f64_of_bool_def)
  note n = number_op_int[OF s(1,2)] number_op_int[OF s(2,2)]
  show "part_effect {''x'', ''y''} None (count_store 0) = Some (count_store 0)" by (simp add: part_effect_def)
  show "expr_value (count_store 0) (Binary ''<'' (Terminal TYPE_IDENTIFIER ''x'') (Terminal TYPE_IDENTIFIER ''y'')) = Some (f64_of_int 1)"
    using n(4) by (simp add: count_store_def toOpcode_def)
  show "f64_of_int 1 \<noteq> 0" by (rule one(1))
  show "assigned {''x'', ''y''} (Binary ''='' (Terminal TYPE_IDENTIFIER ''x'')
      (Binary ''+'' (Terminal TYPE_IDENTIFIER ''x'') (Terminal TYPE_IDENTIFIER ''y''))) (count_store 0) = Some (count_store 1)"
    using n(1)[OF s(3)] by (auto simp: count_store_def toOpcode_def)
  show "part_effect {''x'', ''y''} None (count_store 1) = Some (count_store 1)" by (simp add: part_effect_def)
  show "expr_value (count_store 1) (Binary ''<'' (Terminal TYPE_IDENTIFIER ''x'') (Terminal TYPE_IDENTIFIER ''y'')) = Some 0"
    using n(10) one(2) by (simp add: count_store_def toOpcode_def)
qed

lemma linked_whole:
  assumes "assemble addr junk tabs p = Inr b" "6 \<le> length junk" "i < length p" "is_real (p ! i)"
  shows "is_linked [(code_address p b 0, length b)] (code_address p b i)"
proof -
  have "reals p (Suc i) \<le> reals p (length p)" by (rule reals_le)
  then have "reals p i < reals p (length p)" using reals_Suc[OF assms(3)] assms(4) by simp
  moreover have "32 * reals p (length p) \<le> length b" using assembled_at[OF assms(1,2)] by auto
  ultimately show ?thesis by (auto simp: is_linked_def code_address_def)
qed

definition count_activation :: "byte list \<Rightarrow> activation" where
  "count_activation b = \<lparr>cur = 64, ip = code_address count_code b 0, linked = [(code_address count_code b 0, length b)],
     object_to_search_on = 0\<rparr>"

lemma count_loaded: "\<exists>b. loaded count_code 0 (count_activation b) (small_machine count_locals b) \<and>
    stream 0 (small_machine count_locals b) = b"
proof -
  obtain b where b: "assemble (\<lambda>_. 0) (replicate 6 0) (\<lambda>_. fkind_new :: func fkind) count_code = Inr b" "length b < 2 ^ 64"
    using count_assembled by blast
  have st: "stream 0 (small_machine count_locals b) = b" "length (states (small_machine count_locals b)) = 1"
    by (simp_all add: stream_def small_machine_def)
  have j: "6 \<le> length (replicate 6 (0 :: byte))" by simp
  have "loaded count_code 0 (count_activation b) (small_machine count_locals b)"
    unfolding loaded_def st
    by (intro conjI exI[of _ "\<lambda>_. 0"] exI[of _ "replicate 6 0"] exI[of _ "\<lambda>_. fkind_new"])
      (use b linked_whole[OF b(1) j] in \<open>simp_all add: count_activation_def\<close>)
  with st(1) show ?thesis by blast
qed

section \<open>The theorem\<close>

text \<open>
  C6: statements do what \<open>executes\<close> says: wherever in a program the compiler emitted the code of assignments
  to locals, declarations, blocks, conditionals and loops over arithmetic expressions (numbers, locals, binary
  arithmetic and comparison), however they are nested, if the statements, started on the numbers the locals
  hold, come to an end, then the interpreter, started at the first instruction of the code in the assembled
  file, arrives after its last one, after finitely many instructions, with the locals holding the numbers the
  statements end with. An assignment \<open>x = y\<close> from a bare name has no effect in \<open>executes\<close>, as it has none in
  the program: no code is emitted for it (\<open>var x = y\<close> does copy). The program is what Compiler emitted, before
  BytecodeOptimizer, which Compiler.cpp always runs: where that fuses or drops instructions (a comparison with
  the jump on it, for one, which decides differently on NaN) the theorem does not speak of the file.
\<close>

theorem statements_executed:
  assumes "executes vars ss a b" "compileStmts fuel ss c = Inr c'" "all_ok c"
    and "emitted p c c'" "labels_ok p" "loaded p s r m" "ip r = code_address p (stream s m) (length (prog c))"
    and "get_ctx (cur r) m = Inr y" "locals y = Some ls" "holds vars (top_table c) a ls"
    and "fk_top (top_table c') < length ls" "length ls \<le> 2 ^ 64"
  shows "\<exists>k ls'. (\<forall>load n. exec load (k + n) s (Goto r) m =
      exec load n s (Goto (r\<lparr>ip := code_address p (stream s m) (length (prog c'))\<rparr>))
        (put_ctx (cur r) (y\<lparr>locals := Some ls'\<rparr>) m)) \<and>
    (\<forall>x v. b x = Some v \<longrightarrow> ls' ! comp_reg x c' = num_reg v)"
proof -
  have "list_works p vars fuel ss a b" by (rule code_does_what_it_means(1)[OF assms(5,1)])
  then have "turns p vars c c' a b" using assms(2-4) by (simp add: list_works_def)
  then obtain k ls' where f: "follows p (length (prog c)) ls k (length (prog c')) ls'" "holds vars (top_table c') b ls'"
    using assms(10,11) by (rule turnsE)
  have r: "r\<lparr>ip := code_address p (stream s m) (length (prog c))\<rparr> = r" using assms(7) by simp
  from follows_executed[OF f(1) assms(6,8,12), where x = y]
  have "exec load (k + n) s (Goto r) m = exec load n s (Goto (r\<lparr>ip := code_address p (stream s m) (length (prog c'))\<rparr>))
      (put_ctx (cur r) (y\<lparr>locals := Some ls'\<rparr>) m)" for load n
    unfolding r with_own_locals[OF assms(8,9)] by (simp add: with_locals_def)
  moreover have "\<forall>x v. b x = Some v \<longrightarrow> ls' ! comp_reg x c' = num_reg v"
    using holds_register(2)[OF f(2)] by (simp add: comp_reg_def)
  ultimately show ?thesis by blast
qed

theorem statements_executed_witness:
  "\<exists>b k ls'. (\<forall>load n. exec load (k + n) 0 (Goto (count_activation b)) (small_machine count_locals b) =
      exec load n 0 (Goto ((count_activation b)\<lparr>ip := code_address count_code b 7\<rparr>))
        (put_ctx 64 ((small_ctx count_locals)\<lparr>locals := Some ls'\<rparr>) (small_machine count_locals b))) \<and>
    ls' ! 3 = num_reg (f64_of_int 1)"
proof -
  obtain c' where c': "compileStmts 0 count_loop count_comp = Inr c'" "prog c' = count_code" "frame_top c' < 8"
    using count_compiled by blast
  obtain b where b: "loaded count_code 0 (count_activation b) (small_machine count_locals b)"
    "stream 0 (small_machine count_locals b) = b" using count_loaded by blast
  have ok: "all_ok count_comp" using sample_frame_ok by (simp add: all_ok_def count_comp_def)
  have em: "emitted count_code count_comp c'" using c'(2) by (simp add: emitted_def)
  have cur: "cur (count_activation b) = 64" "ip (count_activation b) = code_address count_code b (length (prog count_comp))"
    by (simp_all add: count_activation_def count_comp_def)
  have tab: "top_table count_comp = frame sample_state" by (simp add: top_table_def top_fn_def count_comp_def)
  have "holds {''x'', ''y''} (top_table count_comp) (count_store 0) count_locals"
    unfolding tab by (auto simp: holds_def sample_state_def lookupRegister_def count_store_def count_locals_def split: if_splits)
  from statements_executed[OF count_means c'(1) ok em count_labels b(1) _ _ _ this, of "small_ctx count_locals"]
  obtain k ls' where k: "\<forall>load n. exec load (k + n) 0 (Goto (count_activation b)) (small_machine count_locals b) =
      exec load n 0 (Goto ((count_activation b)\<lparr>ip := code_address count_code b (length (prog c'))\<rparr>))
        (put_ctx (cur (count_activation b)) ((small_ctx count_locals)\<lparr>locals := Some ls'\<rparr>) (small_machine count_locals b))"
    "\<forall>x v. count_store 1 x = Some v \<longrightarrow> ls' ! comp_reg x c' = num_reg v"
    using cur b(2) c'(3) by (auto simp: count_locals_def)
  have "kept UNIV count_comp c'" by (rule kept_all(3)[OF c'(1) ok]) auto
  then have "comp_reg ''x'' c' = 3" using kept_symbols[of UNIV count_comp c'] tab
    by (simp add: comp_reg_def lookupRegister_def sample_state_def)
  moreover have "count_store 1 ''x'' = Some (f64_of_int 1)" by (simp add: count_store_def)
  ultimately have "ls' ! 3 = num_reg (f64_of_int 1)" using k(2) by metis
  moreover have "length (prog c') = 7" by (simp add: c'(2) count_code_def)
  ultimately show ?thesis using k(1) unfolding cur(1) by metis
qed

end
