(* ===== verification/Threads.thy ===== *)
theory Threads
  imports Prelude
begin

text \<open>
  Threads and the collector: \<open>schedule_gc\<close> of src/src/common/alloc.c and the start and the end of a thread
  in src/src/interpreter/interpreter_dd.c, as steps of threads that interleave. A thread is the place it
  has reached. What the threads share is the number of threads, the number of collections and two
  barriers, of which even rounds use the first.

  \<open>pthread_barrier_wait\<close> as documented: a thread that arrives blocks until as many threads as the count
  of the barrier have arrived; then all of them go on, and one, no matter which, is told to be the serial
  thread. The critical sections of the mutexes are single steps.
\<close>

section \<open>The shared state\<close>

text \<open>What a thread does after \<open>schedule_gc\<close>: go on, create the thread it has announced, or end.\<close>

datatype purpose = Resume | Spawn | Leave

text \<open>
  In \<open>schedule_gc\<close> a thread is \<open>Called\<close> at its beginning, \<open>Picked\<close> when the barrier is chosen, blocked in the
  \<open>First\<close> wait, \<open>Serial\<close> when it is the one to collect, \<open>Passed\<close> between the waits, and blocked in the
  \<open>Second\<close> wait.
\<close>

datatype place = Running | Called purpose | Picked purpose | First purpose | Serial purpose | Passed purpose
  | Second purpose | Creating | Ended

record world =
  total_thread_count :: nat
  gc_count :: nat
  gc_safe_barrier1 :: nat
  gc_safe_barrier2 :: nat
  gc_safe_barrier :: bool
  places :: "place list"

text \<open>\<open>True\<close> is the first barrier. \<open>init_gc_barrier\<close> destroys a barrier and makes it anew.\<close>

definition barrier_of_round :: "world \<Rightarrow> bool" where
  "barrier_of_round w \<longleftrightarrow> gc_count w mod 2 = 0"

definition barrier_count :: "bool \<Rightarrow> world \<Rightarrow> nat" where
  "barrier_count b w = (if b then gc_safe_barrier1 w else gc_safe_barrier2 w)"

definition init_gc_barrier :: "bool \<Rightarrow> nat \<Rightarrow> world \<Rightarrow> world" where
  "init_gc_barrier b n w = (if b then w\<lparr>gc_safe_barrier1 := n\<rparr> else w\<lparr>gc_safe_barrier2 := n\<rparr>)"

definition move :: "nat \<Rightarrow> place \<Rightarrow> world \<Rightarrow> world" where
  "move t p w = w\<lparr>places := (places w)[t := p]\<rparr>"

section \<open>The steps of a thread\<close>

text \<open>\<open>z_thread_gc_safe_start_thread\<close> and \<open>z_thread_gc_safe_end_thread\<close>, up to \<open>schedule_gc\<close>.\<close>

definition start_thread :: "nat \<Rightarrow> world \<Rightarrow> world" where
  "start_thread t w = move t (Called Spawn) (w\<lparr>total_thread_count := total_thread_count w + 1\<rparr>)"

definition end_thread :: "nat \<Rightarrow> world \<Rightarrow> world" where
  "end_thread t w = move t (Called Leave) (w\<lparr>total_thread_count := total_thread_count w - 1\<rparr>)"

text \<open>The end of \<open>z_thread_gc_safe_start_thread\<close>: the thread is entered in the list and created.\<close>

definition create_thread :: "nat \<Rightarrow> world \<Rightarrow> world" where
  "create_thread t w = w\<lparr>places := (places w)[t := Running] @ [Running]\<rparr>"

definition pick_barrier :: "nat \<Rightarrow> purpose \<Rightarrow> world \<Rightarrow> world" where
  "pick_barrier t k w = move t (Picked k) (w\<lparr>gc_safe_barrier := barrier_of_round w\<rparr>)"

definition in_first :: "place \<Rightarrow> nat" where
  "in_first p = (case p of First _ \<Rightarrow> 1 | _ \<Rightarrow> 0)"

definition in_second :: "place \<Rightarrow> nat" where
  "in_second p = (case p of Second _ \<Rightarrow> 1 | _ \<Rightarrow> 0)"

definition pass :: "place \<Rightarrow> place" where
  "pass p = (case p of First k \<Rightarrow> Passed k | _ \<Rightarrow> p)"

definition return_from :: "place \<Rightarrow> place" where
  "return_from p = (case p of Second k \<Rightarrow> (case k of Resume \<Rightarrow> Running | Spawn \<Rightarrow> Creating | Leave \<Rightarrow> Ended) | _ \<Rightarrow> p)"

text \<open>The waits: blocked, or the last to arrive, which lets all go on; \<open>u\<close> is the serial thread.\<close>

definition wait_first :: "nat \<Rightarrow> purpose \<Rightarrow> nat \<Rightarrow> purpose \<Rightarrow> world \<Rightarrow> world" where
  "wait_first t k u l w =
     (let w1 = move t (First k) w
      in if sum_list (map in_first (places w1)) < barrier_count (gc_safe_barrier w) w then w1
         else w1\<lparr>places := (map pass (places w1))[u := Serial l]\<rparr>)"

definition wait_second :: "nat \<Rightarrow> purpose \<Rightarrow> world \<Rightarrow> world" where
  "wait_second t k w =
     (let w1 = move t (Second k) w
      in if sum_list (map in_second (places w1)) < barrier_count (gc_safe_barrier w) w then w1
         else w1\<lparr>places := map return_from (places w1)\<rparr>)"

text \<open>The serial thread: \<open>gc\<close> itself is in the theory Collector.\<close>

definition collect :: "nat \<Rightarrow> purpose \<Rightarrow> world \<Rightarrow> world" where
  "collect t k w =
     (let w1 = w\<lparr>gc_count := gc_count w + 1\<rparr>
      in move t (Passed k) (init_gc_barrier (barrier_of_round w1) (total_thread_count w1) w1))"

definition at_place :: "nat \<Rightarrow> place \<Rightarrow> world \<Rightarrow> bool" where
  "at_place t p w \<longleftrightarrow> t < length (places w) \<and> places w ! t = p"

inductive thread_step :: "world \<Rightarrow> world \<Rightarrow> bool" where
  needs_memory: "at_place t Running w \<Longrightarrow> thread_step w (move t (Called Resume) w)"
| starts: "at_place t Running w \<Longrightarrow> thread_step w (start_thread t w)"
| ends: "at_place t Running w \<Longrightarrow> thread_step w (end_thread t w)"
| creates: "at_place t Creating w \<Longrightarrow> thread_step w (create_thread t w)"
| picks: "at_place t (Called k) w \<Longrightarrow> thread_step w (pick_barrier t k w)"
| first: "at_place t (Picked k) w \<Longrightarrow> at_place u (First l) (move t (First k) w) \<Longrightarrow>
    thread_step w (wait_first t k u l w)"
| collects: "at_place t (Serial k) w \<Longrightarrow> thread_step w (collect t k w)"
| second: "at_place t (Passed k) w \<Longrightarrow> thread_step w (wait_second t k w)"

text \<open>\<open>main\<close> makes both barriers with the count 1 and is the only thread.\<close>

definition initial_world :: world where
  "initial_world = \<lparr>total_thread_count = 1, gc_count = 0, gc_safe_barrier1 = 1, gc_safe_barrier2 = 1,
     gc_safe_barrier = True, places = [Running]\<rparr>"

inductive reachable_world :: "world \<Rightarrow> bool" where
  start: "reachable_world initial_world"
| step: "reachable_world w \<Longrightarrow> thread_step w w' \<Longrightarrow> reachable_world w'"

section \<open>Counting threads\<close>

text \<open>
  The threads a thread stands for: itself; the one it has announced as well; none when it is about to
  end. And the threads the barrier of the round waits for on its account.
\<close>

definition weight :: "place \<Rightarrow> nat" where
  "weight p =
     (let of_purpose = (\<lambda>k. case k of Resume \<Rightarrow> 1 | Spawn \<Rightarrow> 2 | Leave \<Rightarrow> 0)
      in case p of Running \<Rightarrow> 1 | Called k \<Rightarrow> of_purpose k | Picked k \<Rightarrow> of_purpose k | First k \<Rightarrow> of_purpose k
      | Serial k \<Rightarrow> of_purpose k | Passed k \<Rightarrow> of_purpose k | Second k \<Rightarrow> of_purpose k | Creating \<Rightarrow> 2 | Ended \<Rightarrow> 0)"

definition slots :: "place \<Rightarrow> nat" where
  "slots p = (case p of Creating \<Rightarrow> 2 | Ended \<Rightarrow> 0 | _ \<Rightarrow> 1)"

definition held :: "place \<Rightarrow> bool" where
  "held p \<longleftrightarrow> p = Ended \<or> (\<exists>k. p = Passed k \<or> p = Second k)"

definition outside :: "place \<Rightarrow> bool" where
  "outside p \<longleftrightarrow> (\<forall>k. p \<noteq> Serial k \<and> p \<noteq> Passed k \<and> p \<noteq> Second k)"

abbreviation count :: "(place \<Rightarrow> nat) \<Rightarrow> world \<Rightarrow> nat" where
  "count f w \<equiv> sum_list (map f (places w))"

text \<open>The three phases of a round.\<close>

definition gathering :: "world \<Rightarrow> bool" where
  "gathering w \<longleftrightarrow> (\<forall>p \<in> set (places w). outside p) \<and>
     barrier_count (barrier_of_round w) w = count slots w \<and>
     (count slots w = 0 \<or> count in_first w < count slots w) \<and>
     ((\<exists>k. Picked k \<in> set (places w) \<or> First k \<in> set (places w)) \<longrightarrow> gc_safe_barrier w = barrier_of_round w)"

definition collecting :: "nat \<Rightarrow> world \<Rightarrow> bool" where
  "collecting u w \<longleftrightarrow> (\<exists>k. at_place u (Serial k) w) \<and>
     (\<forall>t < length (places w). t \<noteq> u \<longrightarrow> held (places w ! t)) \<and>
     barrier_count (gc_safe_barrier w) w = count slots w \<and> gc_safe_barrier w = barrier_of_round w"

definition leaving :: "world \<Rightarrow> bool" where
  "leaving w \<longleftrightarrow> (\<forall>p \<in> set (places w). held p) \<and> (\<exists>k. Passed k \<in> set (places w)) \<and>
     barrier_count (gc_safe_barrier w) w = count slots w \<and> gc_safe_barrier w \<noteq> barrier_of_round w \<and>
     barrier_count (barrier_of_round w) w = total_thread_count w"

definition round_ok :: "world \<Rightarrow> bool" where
  "round_ok w \<longleftrightarrow> total_thread_count w = count weight w \<and> (gathering w \<or> (\<exists>u. collecting u w) \<or> leaving w)"

lemma count_update:
  "t < length xs \<Longrightarrow> sum_list (map f (xs[t := p])) + f (xs ! t) = sum_list (map f xs) + (f p :: nat)"
  by (induction xs arbitrary: t) (auto split: nat.splits simp: nth_Cons')

lemma count_same:
  "t < length xs \<Longrightarrow> f p = f (xs ! t) \<Longrightarrow> sum_list (map f (xs[t := p])) = (sum_list (map f xs) :: nat)"
  using count_update[of t xs f p] by simp

lemma count_le: "\<forall>p \<in> set xs. f p \<le> g p \<Longrightarrow> sum_list (map f xs) \<le> (sum_list (map g xs) :: nat)"
  by (induction xs) auto

lemma count_eq_all:
  "\<forall>p \<in> set xs. f p \<le> g p \<Longrightarrow> sum_list (map g xs) \<le> (sum_list (map f xs) :: nat) \<Longrightarrow> \<forall>p \<in> set xs. f p = g p"
proof (induction xs)
  case (Cons x xs)
  have "sum_list (map f xs) \<le> sum_list (map g xs)" using Cons.prems(1) by (intro count_le) simp
  with Cons show ?case by auto
qed simp

lemma count_cong: "\<forall>p \<in> set xs. f p = g p \<Longrightarrow> sum_list (map f xs) = (sum_list (map g xs) :: nat)"
  by (simp cong: map_cong)

lemma count_less:
  "\<forall>p \<in> set xs. f p \<le> g p \<Longrightarrow> q \<in> set xs \<Longrightarrow> f q < g q \<Longrightarrow> sum_list (map f xs) < (sum_list (map g xs) :: nat)"
  using count_eq_all[of xs f g] by (metis not_le order_less_irrefl)

lemma in_first_slots: "in_first p \<le> slots p" "in_first p = slots p \<longleftrightarrow> p = Ended \<or> (\<exists>k. p = First k)"
  by (cases p; simp add: in_first_def slots_def)+

lemma in_second_slots: "in_second p \<le> slots p" "in_second p = slots p \<longleftrightarrow> p = Ended \<or> (\<exists>k. p = Second k)"
  by (cases p; simp add: in_second_def slots_def)+

lemma place_simps [simp]:
  "slots (Called k) = 1" "slots (Picked k) = 1" "slots (First k) = 1" "slots (Serial k) = 1" "slots (Passed k) = 1"
  "slots (Second k) = 1" "slots Running = 1" "slots Creating = 2" "slots Ended = 0"
  "in_first Running = 0" "in_first (Called k) = 0" "in_first (Picked k) = 0" "in_first (First k) = 1" "in_first Creating = 0"
  "in_first Ended = 0" "in_second (Passed k) = 0" "in_second (Serial k) = 0" "in_second (Second k) = 1"
  by (simp_all add: slots_def in_first_def in_second_def)

lemma weight_simps [simp]:
  "weight Running = 1" "weight Creating = 2" "weight Ended = 0" "weight (Called Resume) = 1" "weight (Called Spawn) = 2"
  "weight (Called Leave) = 0" "weight (Picked k) = weight (Called k)" "weight (First k) = weight (Called k)"
  "weight (Serial k) = weight (Called k)" "weight (Passed k) = weight (Called k)" "weight (Second k) = weight (Called k)"
  by (simp_all add: weight_def Let_def)

lemma world_simps [simp]:
  "places (move t p w) = (places w)[t := p]" "total_thread_count (move t p w) = total_thread_count w"
  "gc_safe_barrier (move t p w) = gc_safe_barrier w" "barrier_of_round (move t p w) = barrier_of_round w"
  "barrier_count b (move t p w) = barrier_count b w"
  "places (init_gc_barrier b n w) = places w" "total_thread_count (init_gc_barrier b n w) = total_thread_count w"
  "gc_safe_barrier (init_gc_barrier b n w) = gc_safe_barrier w" "barrier_of_round (init_gc_barrier b n w) = barrier_of_round w"
  "barrier_count c (init_gc_barrier b n w) = (if c = b then n else barrier_count c w)"
  "barrier_of_round (w\<lparr>places := ps\<rparr>) = barrier_of_round w" "barrier_count b (w\<lparr>places := ps\<rparr>) = barrier_count b w"
  "barrier_of_round (w\<lparr>total_thread_count := n\<rparr>) = barrier_of_round w"
  "barrier_count b (w\<lparr>total_thread_count := n\<rparr>) = barrier_count b w"
  "barrier_of_round (w\<lparr>gc_safe_barrier := c\<rparr>) = barrier_of_round w"
  "barrier_count b (w\<lparr>gc_safe_barrier := c\<rparr>) = barrier_count b w"
  "barrier_of_round (w\<lparr>gc_count := Suc (gc_count w)\<rparr>) = (\<not> barrier_of_round w)"
  "barrier_count b (w\<lparr>gc_count := n\<rparr>) = barrier_count b w"
  by (auto simp: move_def init_gc_barrier_def barrier_of_round_def barrier_count_def mod_Suc split: if_splits)

section \<open>Every step keeps the phases\<close>

lemma gathering_moves:
  assumes "gathering w" "at_place t p w" "outside q" "slots q = slots p" "in_first q = in_first p"
    and "(\<exists>k. q = Picked k \<or> q = First k) \<longrightarrow> gc_safe_barrier w = barrier_of_round w"
  shows "gathering (move t q w)"
proof -
  have t: "t < length (places w)" "places w ! t = p" using assms(2) by (auto simp: at_place_def)
  have "count slots (move t q w) = count slots w" "count in_first (move t q w) = count in_first w"
    using count_same[OF t(1)] t(2) assms(4,5) by simp_all
  then show ?thesis
    using assms(1,3,6) set_update_subset_insert[of "places w" t q] unfolding gathering_def by (auto; blast)
qed

lemma gathering_total [simp]: "gathering (w\<lparr>total_thread_count := n\<rparr>) = gathering w"
  by (simp add: gathering_def)

lemma only_gathering: "round_ok w \<Longrightarrow> at_place t p w \<Longrightarrow> outside p \<Longrightarrow> p \<noteq> Ended \<Longrightarrow> gathering w"
  unfolding round_ok_def at_place_def collecting_def leaving_def
  by (auto simp: held_def outside_def all_set_conv_all_nth)

lemma moved_weight: "at_place t p w \<Longrightarrow> count weight (move t q w) + weight p = count weight w + weight q"
  using count_update[of t "places w" weight q] by (auto simp: at_place_def)

lemma outside_simps [simp]: "outside Running" "outside Creating" "outside (Called k)" "outside (Picked k)" "outside (First k)"
  "outside Ended"
  by (simp_all add: outside_def)

lemma keeps_moves:
  assumes "round_ok w" "at_place t p w" "outside p" "p \<noteq> Ended" "outside q" "slots q = slots p" "in_first q = in_first p"
    "\<forall>k. q \<noteq> Picked k \<and> q \<noteq> First k" "n + weight p = total_thread_count w + weight q"
  shows "round_ok (move t q (w\<lparr>total_thread_count := n\<rparr>))"
proof -
  have g: "gathering w" by (rule only_gathering[OF assms(1-4)])
  have a: "at_place t p (w\<lparr>total_thread_count := n\<rparr>)" using assms(2) by (simp add: at_place_def)
  have "gathering (move t q (w\<lparr>total_thread_count := n\<rparr>))"
    using gathering_moves[OF _ a assms(5,6,7)] g assms(8) by simp
  then show ?thesis using moved_weight[OF assms(2), of q] assms(1,9) by (simp add: round_ok_def)
qed

lemma keeps_create:
  assumes "round_ok w" "at_place t Creating w"
  shows "round_ok (create_thread t w)"
proof -
  have g: "gathering w" using only_gathering[OF assms] by simp
  have t: "t < length (places w)" "places w ! t = Creating" using assms(2) by (auto simp: at_place_def)
  have n: "count slots (create_thread t w) = count slots w" "count weight (create_thread t w) = count weight w"
    "count in_first (create_thread t w) = count in_first w"
    using count_update[OF t(1), of slots Running] count_update[OF t(1), of weight Running]
      count_update[OF t(1), of in_first Running] t(2) by (simp_all add: create_thread_def)
  have "set (places (create_thread t w)) \<subseteq> insert Running (set (places w))"
    using set_update_subset_insert[of "places w" t Running] by (auto simp: create_thread_def)
  moreover have "barrier_of_round (create_thread t w) = barrier_of_round w" "barrier_count b (create_thread t w) = barrier_count b w"
    "gc_safe_barrier (create_thread t w) = gc_safe_barrier w" "total_thread_count (create_thread t w) = total_thread_count w" for b
    by (simp_all add: create_thread_def)
  ultimately show ?thesis using g assms(1) n unfolding round_ok_def gathering_def by auto
qed

lemma keeps_pick:
  assumes "round_ok w" "at_place t (Called k) w"
  shows "round_ok (pick_barrier t k w)"
proof -
  have g: "gathering w" using only_gathering[OF assms] by simp
  let ?w = "w\<lparr>gc_safe_barrier := barrier_of_round w\<rparr>"
  have "gathering ?w" using g by (simp add: gathering_def)
  moreover have a: "at_place t (Called k) ?w" using assms(2) by (simp add: at_place_def)
  ultimately have "gathering (pick_barrier t k w)"
    unfolding pick_barrier_def by (intro gathering_moves[of ?w t "Called k"]) simp_all
  then show ?thesis using moved_weight[OF a, of "Picked k"] assms(1) by (simp add: round_ok_def pick_barrier_def)
qed

lemma pass_simps: "weight (pass p) = weight p" "slots (pass p) = slots p" "p = Ended \<or> (\<exists>k. p = First k) \<Longrightarrow> held (pass p)"
  by (cases p; auto simp: pass_def held_def)+

lemma return_simps:
  "p = Ended \<or> (\<exists>k. p = Second k) \<Longrightarrow>
   weight (return_from p) = weight p \<and> slots (return_from p) = weight p \<and> outside (return_from p) \<and>
   in_first (return_from p) = 0 \<and> (\<forall>k. return_from p \<noteq> Picked k \<and> return_from p \<noteq> First k)"
  by (auto simp: return_from_def split: purpose.splits)

lemma keeps_first:
  assumes "round_ok w" "at_place t (Picked k) w" "at_place u (First l) (move t (First k) w)"
  shows "round_ok (wait_first t k u l w)"
proof -
  have g: "gathering w" using only_gathering[OF assms(1,2)] by simp
  have t: "t < length (places w)" "places w ! t = Picked k" using assms(2) by (auto simp: at_place_def)
  have safe: "gc_safe_barrier w = barrier_of_round w" "barrier_count (gc_safe_barrier w) w = count slots w"
    using g t nth_mem[OF t(1)] unfolding gathering_def by auto
  let ?m = "move t (First k) w" let ?ps = "places ?m"
  have slots: "count slots ?m = count slots w" "count weight ?m = count weight w"
    using count_same[OF t(1), of slots "First k"] moved_weight[OF assms(2), of "First k"] t(2) by simp_all
  show ?thesis
  proof (cases "count in_first ?m < barrier_count (gc_safe_barrier w) w")
    case True
    have "set ?ps \<subseteq> insert (First k) (set (places w))" by (simp add: set_update_subset_insert)
    then have "gathering ?m" using g True safe slots unfolding gathering_def by auto
    then show ?thesis using True slots assms(1) by (simp add: wait_first_def Let_def round_ok_def)
  next
    case False
    have all: "\<forall>p \<in> set ?ps. in_first p = slots p"
      using False safe(2) slots(1) in_first_slots(1) by (intro count_eq_all) simp_all
    let ?n = "?m\<lparr>places := (map pass ?ps)[u := Serial l]\<rparr>"
    have u: "u < length ?ps" "?ps ! u = First l" using assms(3) by (auto simp: at_place_def)
    then have s: "map pass ?ps ! u = Passed l" by (simp add: pass_def)
    have "count slots ?n = count slots ?m" "count weight ?n = count weight ?m"
      using u count_same[of u "map pass ?ps" slots "Serial l"] count_same[of u "map pass ?ps" weight "Serial l"] s
      by (simp_all add: comp_def pass_simps)
    moreover have "collecting u ?n"
    proof -
      have "held (places ?n ! i)" if "i < length (places ?n)" "i \<noteq> u" for i
        using that all in_first_slots(2) pass_simps(3)[of "?ps ! i"] by (simp add: nth_mem)
      then show ?thesis using calculation slots safe u by (simp add: collecting_def at_place_def)
    qed
    ultimately show ?thesis using False slots assms(1) by (auto simp: wait_first_def Let_def round_ok_def)
  qed
qed

lemma only_collecting: "round_ok w \<Longrightarrow> at_place t (Serial k) w \<Longrightarrow> collecting t w"
  unfolding round_ok_def gathering_def leaving_def collecting_def at_place_def outside_def held_def
  by (metis nth_mem place.distinct place.inject)

lemma keeps_collect:
  assumes "round_ok w" "at_place t (Serial k) w"
  shows "round_ok (collect t k w)"
proof -
  have c: "collecting t w" by (rule only_collecting[OF assms])
  have t: "t < length (places w)" "places w ! t = Serial k" using assms(2) by (auto simp: at_place_def)
  let ?n = "collect t k w"
  have p: "places ?n = (places w)[t := Passed k]" by (simp add: collect_def Let_def)
  have "count slots ?n = count slots w" "count weight ?n = count weight w"
    unfolding p using count_same[OF t(1), of slots "Passed k"] count_same[OF t(1), of weight "Passed k"] t(2) by simp_all
  moreover have "held q" if q: "q \<in> set (places ?n)" for q
  proof -
    obtain i where i: "i < length (places w)" "q = (places w)[t := Passed k] ! i"
      using q unfolding p by (auto simp: in_set_conv_nth)
    then show ?thesis using c by (cases "i = t") (auto simp: collecting_def held_def)
  qed
  moreover have "Passed k \<in> set (places ?n)" unfolding p using t(1) by (rule set_update_memI)
  ultimately have "leaving ?n" using c by (auto simp: leaving_def collecting_def collect_def Let_def)
  then show ?thesis using \<open>count weight ?n = count weight w\<close> assms(1)
    by (auto simp: round_ok_def collect_def Let_def)
qed

lemma second_slots:
  assumes "at_place t (Passed k) w"
  shows "count slots (move t (Second k) w) = count slots w" "count weight (move t (Second k) w) = count weight w"
  using assms count_same[of t "places w" slots "Second k"] count_same[of t "places w" weight "Second k"]
  by (simp_all add: at_place_def)

text \<open>In the second wait the collection has been made, or the serial thread is still missing.\<close>

lemma second_phase:
  assumes "round_ok w" "at_place t (Passed k) w"
  shows "(\<exists>u. collecting u w) \<or> leaving w" "barrier_count (gc_safe_barrier w) w = count slots w"
proof -
  have "Passed k \<in> set (places w)" using assms(2) nth_mem unfolding at_place_def by metis
  then show *: "(\<exists>u. collecting u w) \<or> leaving w"
    using assms(1) unfolding round_ok_def gathering_def outside_def by blast
  then show "barrier_count (gc_safe_barrier w) w = count slots w" by (auto simp: collecting_def leaving_def)
qed

lemma second_blocks:
  assumes "round_ok w" "at_place t (Passed k) w"
    and less: "count in_second (move t (Second k) w) < barrier_count (gc_safe_barrier w) w"
  shows "(\<exists>u. collecting u (move t (Second k) w)) \<or> leaving (move t (Second k) w)"
proof -
  let ?m = "move t (Second k) w" let ?ps = "places ?m"
  have t: "t < length (places w)" "places w ! t = Passed k" using assms(2) by (auto simp: at_place_def)
  note slots = second_slots[OF assms(2)] and phase = second_phase[OF assms(1,2)]
  show ?thesis
  proof (cases "leaving w")
    case True
    have held: "\<forall>p \<in> set ?ps. held p"
      using True set_update_subset_insert[of "places w" t "Second k"] by (auto simp: leaving_def held_def)
    have "\<exists>l. Passed l \<in> set ?ps"
    proof (rule ccontr)
      assume "\<nexists>l. Passed l \<in> set ?ps"
      then have "\<forall>p \<in> set ?ps. in_second p = slots p" using held by (auto simp: in_second_slots(2) held_def)
      then have "count in_second ?m = count slots ?m" by (rule count_cong)
      then show False using less phase(2) slots(1) by simp
    qed
    then show ?thesis using True held slots phase(2) by (simp add: leaving_def)
  next
    case False
    then obtain u where c: "collecting u w" using phase(1) by blast
    then have "u \<noteq> t" using t by (auto simp: collecting_def at_place_def)
    then have "collecting u ?m" using c slots t(1) by (auto simp: collecting_def at_place_def nth_list_update held_def)
    then show ?thesis by blast
  qed
qed

lemma second_returns:
  assumes "round_ok w" "at_place t (Passed k) w"
    and full: "\<not> count in_second (move t (Second k) w) < barrier_count (gc_safe_barrier w) w"
  shows "round_ok (move t (Second k) w\<lparr>places := map return_from (places (move t (Second k) w))\<rparr>)"
proof -
  let ?m = "move t (Second k) w" let ?ps = "places ?m" let ?n = "?m\<lparr>places := map return_from ?ps\<rparr>"
  have t: "t < length (places w)" "places w ! t = Passed k" using assms(2) by (auto simp: at_place_def)
  note slots = second_slots[OF assms(2)] and phase = second_phase[OF assms(1,2)]
  have "\<forall>p \<in> set ?ps. in_second p = slots p"
    using full phase(2) slots(1) in_second_slots(1) by (intro count_eq_all) simp_all
  then have ret: "\<forall>p \<in> set ?ps. p = Ended \<or> (\<exists>k. p = Second k)" using in_second_slots(2) by blast
  have "leaving w"
  proof (rule ccontr)
    assume "\<not> leaving w"
    then obtain u l where u: "at_place u (Serial l) w" using phase(1) by (auto simp: collecting_def)
    then have "?ps ! u = Serial l" "u < length ?ps" using t by (auto simp: at_place_def nth_list_update)
    then show False using ret nth_mem[of u ?ps] by auto
  qed
  then have total: "barrier_count (barrier_of_round w) w = total_thread_count w" by (simp add: leaving_def)
  have n: "count weight ?n = count weight ?m" "count slots ?n = count weight ?m" "count in_first ?n = 0"
    using ret return_simps by (simp_all add: comp_def cong: map_cong)
  have none: "\<forall>p \<in> set (places ?n). outside p \<and> (\<forall>k. p \<noteq> Picked k \<and> p \<noteq> First k)" using ret return_simps by auto
  have "gathering ?n" unfolding gathering_def
  proof (intro conjI)
    show "\<forall>p \<in> set (places ?n). outside p" using none by blast
    show "barrier_count (barrier_of_round ?n) ?n = count slots ?n" using n slots total assms(1) by (simp add: round_ok_def)
    show "count slots ?n = 0 \<or> count in_first ?n < count slots ?n" by (metis n(3) neq0_conv)
    show "(\<exists>k. Picked k \<in> set (places ?n) \<or> First k \<in> set (places ?n)) \<longrightarrow> gc_safe_barrier ?n = barrier_of_round ?n"
      using none by blast
  qed
  then show ?thesis using n slots assms(1) by (simp add: round_ok_def)
qed

lemma keeps_second:
  assumes "round_ok w" "at_place t (Passed k) w"
  shows "round_ok (wait_second t k w)"
proof (cases "count in_second (move t (Second k) w) < barrier_count (gc_safe_barrier w) w")
  case True
  then show ?thesis
    using second_blocks[OF assms True] second_slots[OF assms(2)] assms(1) by (auto simp: wait_second_def Let_def round_ok_def)
next
  case False
  then show ?thesis using second_returns[OF assms False] by (simp add: wait_second_def Let_def)
qed

lemma step_keeps_rounds: "thread_step w w' \<Longrightarrow> round_ok w \<Longrightarrow> round_ok w'"
proof (induction rule: thread_step.induct)
  case (needs_memory t w)
  then show ?case using keeps_moves[of w t Running "Called Resume" "total_thread_count w"] by simp
next
  case (starts t w)
  then show ?case using keeps_moves[of w t Running "Called Spawn" "total_thread_count w + 1"] by (simp add: start_thread_def)
next
  case (ends t w)
  have "total_thread_count w = count weight w" using ends(2) by (simp add: round_ok_def)
  then have "total_thread_count w - 1 + weight Running = total_thread_count w + weight (Called Leave)"
    using moved_weight[OF ends(1), of "Called Leave"] by simp
  then show ?case
    using keeps_moves[of w t Running "Called Leave" "total_thread_count w - 1"] ends by (simp add: end_thread_def)
qed (auto intro: keeps_create keeps_pick keeps_first keeps_collect keeps_second)

lemma reachable_rounds: "reachable_world w \<Longrightarrow> round_ok w"
proof (induction rule: reachable_world.induct)
  case start
  show ?case by (simp add: initial_world_def round_ok_def gathering_def barrier_of_round_def barrier_count_def)
next
  case (step w w')
  then show ?case using step_keeps_rounds by blast
qed

lemma free_thread_steps:
  assumes "u < length (places w)" "places w ! u \<noteq> Ended" "\<forall>l. places w ! u \<noteq> First l \<and> places w ! u \<noteq> Second l"
  shows "\<exists>w'. thread_step w w'"
proof -
  have u: "at_place u (places w ! u) w" using assms(1) by (simp add: at_place_def)
  show ?thesis
  proof (cases "places w ! u")
    case (Picked k)
    moreover have "at_place u (First k) (move u (First k) w)" using assms(1) by (simp add: at_place_def)
    ultimately show ?thesis using u thread_step.first by metis
  next
    case (Called k)
    with u show ?thesis using thread_step.picks by metis
  next
    case (Serial k)
    with u show ?thesis using thread_step.collects by metis
  next
    case (Passed k)
    with u show ?thesis using thread_step.second by metis
  next
    case Running
    with u show ?thesis using thread_step.needs_memory by metis
  next
    case Creating
    with u show ?thesis using thread_step.creates by metis
  qed (use assms(2,3) in simp_all)
qed

lemma free_thread:
  assumes "round_ok w" "t < length (places w)" "places w ! t \<noteq> Ended"
  shows "\<exists>p \<in> set (places w). p \<noteq> Ended \<and> (\<forall>l. p \<noteq> First l \<and> p \<noteq> Second l)"
proof -
  consider "gathering w" | u where "collecting u w" | "leaving w" using assms(1) by (auto simp: round_ok_def)
  then show ?thesis
  proof cases
    case 1
    have "slots (places w ! t) \<noteq> 0" using assms(3) by (cases "places w ! t") simp_all
    then have "count slots w \<noteq> 0" using nth_mem[OF assms(2)] by (auto simp: sum_list_eq_0_iff)
    then have "count in_first w < count slots w" using 1 by (auto simp: gathering_def)
    then obtain p where "p \<in> set (places w)" "in_first p \<noteq> slots p" using count_cong[of "places w" in_first slots] by force
    moreover have "outside p" using 1 calculation(1) by (simp add: gathering_def)
    ultimately show ?thesis by (auto simp: in_first_slots(2) outside_def intro!: bexI[of _ p])
  next
    case 2
    then obtain k where "places w ! u = Serial k" "u < length (places w)" by (auto simp: collecting_def at_place_def)
    then show ?thesis by (metis nth_mem place.distinct)
  next
    case 3
    then show ?thesis by (fastforce simp: leaving_def)
  qed
qed

text \<open>
  A run for the witnesses: the first thread starts a second one, which takes a collection; then both ask
  for a collection, and the second makes it.
\<close>

definition two_threads :: world where
  "two_threads = create_thread 0 (wait_second 0 Spawn (collect 0 Spawn (wait_first 0 Spawn 0 Spawn
     (pick_barrier 0 Spawn (start_thread 0 initial_world)))))"

definition collecting_world :: world where
  "collecting_world = wait_first 1 Resume 1 Resume (pick_barrier 1 Resume (move 1 (Called Resume)
     (wait_first 0 Resume 0 Resume (pick_barrier 0 Resume (move 0 (Called Resume) two_threads)))))"

lemmas reached = reachable_world.step[OF _ thread_step.needs_memory] reachable_world.step[OF _ thread_step.starts]
  reachable_world.step[OF _ thread_step.creates] reachable_world.step[OF _ thread_step.picks]
  reachable_world.step[OF _ thread_step.first] reachable_world.step[OF _ thread_step.collects]
  reachable_world.step[OF _ thread_step.second]

lemma collecting_world: "reachable_world collecting_world" "places collecting_world = [Passed Resume, Serial Resume]"
proof -
  have "reachable_world two_threads" unfolding two_threads_def by (intro reached reachable_world.start; code_simp)
  then show "reachable_world collecting_world" unfolding collecting_world_def by (intro reached; (assumption | code_simp))
  show "places collecting_world = [Passed Resume, Serial Resume]" by code_simp
qed

section \<open>The theorems\<close>

text \<open>
  C17: the collector runs alone: while a thread collects, every other thread is held between the two
  waits of \<open>schedule_gc\<close> or has ended; none runs and none is being created, whatever threads were started
  and ended before and in whatever order the threads took their steps.
\<close>

theorem collector_alone:
  assumes "reachable_world w" "u < length (places w)" "places w ! u = Serial k"
  shows "\<forall>t < length (places w). t \<noteq> u \<longrightarrow> places w ! t = Ended \<or> (\<exists>l. places w ! t = Passed l \<or> places w ! t = Second l)"
  using only_collecting[OF reachable_rounds[OF assms(1)], of u k] assms(2,3)
  by (auto simp: at_place_def collecting_def held_def)

theorem collector_alone_witness:
  "places collecting_world ! 1 = Serial Resume \<and>
   (places collecting_world ! 0 = Ended \<or>
     (\<exists>l. places collecting_world ! 0 = Passed l \<or> places collecting_world ! 0 = Second l))"
  using collector_alone[OF collecting_world(1), of 1 Resume] by (simp add: collecting_world(2))

text \<open>
  C18: the barriers never wait for threads that are not there: as long as some thread has not ended, some
  thread is not blocked in a wait and can take a step. So when all threads ask for a collection, the
  collection is made.
\<close>

theorem barriers_do_not_block:
  assumes "reachable_world w" "t < length (places w)" "places w ! t \<noteq> Ended"
  shows "\<exists>u < length (places w). places w ! u \<noteq> Ended \<and> (\<forall>l. places w ! u \<noteq> First l \<and> places w ! u \<noteq> Second l) \<and>
    (\<exists>w'. thread_step w w')"
proof -
  obtain u where "u < length (places w)" "places w ! u \<noteq> Ended" "\<forall>l. places w ! u \<noteq> First l \<and> places w ! u \<noteq> Second l"
    using free_thread[OF reachable_rounds[OF assms(1)] assms(2,3)] by (metis in_set_conv_nth)
  then show ?thesis using free_thread_steps by blast
qed

theorem barriers_do_not_block_witness: "\<exists>w'. thread_step collecting_world w'"
  using barriers_do_not_block[OF collecting_world(1), of 0] by (auto simp: collecting_world(2))

end
