(* ===== verification/EventQueue.thy ===== *)
theory EventQueue
  imports ArrayList Samples
begin

text \<open>
  src/src/interpreter/event_queue.c and \<open>native_enqueue\<close> of native_functions.c: functions queued in an
  array list of pointers, to be called one after the other. Nothing in the program calls
  \<open>wait_for_event\<close>, and \<open>native_enqueue\<close> is not bound to a name, so the queue stands beside the machine
  here and a called function cannot enqueue.
\<close>

section \<open>Pointers as bytes\<close>

definition word_cells :: "uint_t \<Rightarrow> cell list" where
  "word_cells w = map Some (word_bytes w)"

text \<open>The pointer read from the bytes of an item; a byte never written has no value.\<close>

definition cells_word :: "cell list \<Rightarrow> fault + uint_t" where
  "cells_word cs =
     (if None \<in> set cs then Inl Undefined_Value else Inr (word_of_nat (le_value (map the cs))))"

lemma word_cells_length [simp]: "length (word_cells w) = 8"
  by (simp add: word_cells_def)

lemma cells_word_bytes: "cells_word (map Some bs) = Inr (word_of_nat (le_value bs))"
  by (auto simp: cells_word_def comp_def)

lemma cells_word_cells [simp]: "cells_word (word_cells w) = Inr w"
  by (simp add: word_cells_def cells_word_bytes le_value_word)

section \<open>The queue\<close>

record events =
  event_queue :: "arraylist option"
  event_heap :: "Alloc.heap"
  vm :: machine

definition enqueue_event :: "uint_t \<Rightarrow> events \<Rightarrow> fault + events" where
  "enqueue_event f w =
     (case event_queue w of
        None \<Rightarrow> Inl Null_Deref
      | Some l \<Rightarrow> ebind (arraylist_push l (word_cells f) (event_heap w)) (\<lambda>(_, l', h).
          Inr (w\<lparr>event_queue := Some l', event_heap := h\<rparr>)))"

text \<open>The list of pointers is made by the first call.\<close>

definition native_enqueue :: "nat \<Rightarrow> events \<Rightarrow> fault + events" where
  "native_enqueue s w =
     ebind (case event_queue w of
              None \<Rightarrow> ebind (arraylist_new sizeof_uint_t (event_heap w)) (\<lambda>(l, h).
                Inr (w\<lparr>event_queue := Some l, event_heap := h\<rparr>))
            | Some _ \<Rightarrow> Inr w) (\<lambda>w1.
     ebind (pop_value s (vm w1)) (\<lambda>(arg, m). enqueue_event (val arg) (w1\<lparr>vm := m\<rparr>)))"

text \<open>The function \<open>call_next_event\<close> is about to call.\<close>

definition next_event :: "events \<Rightarrow> fault + uint_t" where
  "next_event w =
     (case event_queue w of
        None \<Rightarrow> Inl Null_Deref
      | Some l \<Rightarrow> ebind (arraylist_get l 0) cells_word)"

text \<open>The call runs in the state the function belongs to, in a new context that returns nowhere.\<close>

definition run_event :: "loader \<Rightarrow> nat \<Rightarrow> uint_t \<Rightarrow> machine \<Rightarrow> fault + machine" where
  "run_event load n f m =
     ebind (function_at f m) (\<lambda>(start, _, parent, owner).
     ebind (context_new m) (\<lambda>(a, m1).
     ebind (z_interpreter_run load n owner
       (upd_state owner (\<lambda>x. x\<lparr>instruction_pointer := start, current_context := a\<rparr>)
         (put_ctx a (empty_ctx\<lparr>parent_context := parent\<rparr>) m1))) (\<lambda>m2.
     ebind (get_state owner m2) (\<lambda>st.
     if return_code st
     then Inl (Exit_Error (case exception_details st of None \<Rightarrow> '''' | Some d \<Rightarrow> d))
     else Inr m2))))"

definition call_next_event :: "loader \<Rightarrow> nat \<Rightarrow> events \<Rightarrow> fault + events" where
  "call_next_event load n w =
     ebind (next_event w) (\<lambda>f.
     ebind (run_event load n f (vm w)) (\<lambda>m.
     case event_queue w of
       None \<Rightarrow> Inr (w\<lparr>vm := m\<rparr>)
     | Some l \<Rightarrow> ebind (arraylist_remove_index l 0) (\<lambda>l'. Inr (w\<lparr>event_queue := Some l', vm := m\<rparr>))))"

text \<open>The waiting loop, with a bound on its iterations.\<close>

fun wait_for_event :: "loader \<Rightarrow> nat \<Rightarrow> nat \<Rightarrow> events \<Rightarrow> fault + events" where
  "wait_for_event load n k w =
     (case event_queue w of
        None \<Rightarrow> Inr w
      | Some l \<Rightarrow>
          (case k of
             0 \<Rightarrow> Inl Out_Of_Fuel
           | Suc k' \<Rightarrow>
               ebind (if al_size l \<noteq> 0 then call_next_event load n w else Inr w)
                 (wait_for_event load n k')))"

declare wait_for_event.simps [simp del]

section \<open>Queueing\<close>

text \<open>A queue that holds exactly these functions.\<close>

definition queued :: "uint_t list \<Rightarrow> events \<Rightarrow> bool" where
  "queued fs w \<longleftrightarrow> (\<exists>l. event_queue w = Some l \<and> al_wf l \<and> size_of_item l = sizeof_uint_t \<and>
     al_items l = map word_cells fs)"

lemma queuedE:
  assumes "queued fs w"
  obtains l where "event_queue w = Some l" "al_wf l" "size_of_item l = 8" "al_items l = map word_cells fs"
    "al_size l = int (length fs)"
proof -
  from assms obtain l where l: "event_queue w = Some l" "al_wf l" "size_of_item l = 8"
    "al_items l = map word_cells fs"
    by (auto simp: queued_def sizeof_uint_t_def)
  then have "al_size l = int (length fs)"
    using al_items_length[of l] by (simp add: al_wf_def)
  with l show ?thesis using that by blast
qed

lemma item_of_queue:
  assumes "al_items l = map word_cells fs" "al_size l = int (length fs)" "i < length fs"
  shows "al_item l i = word_cells (fs ! i)"
  using assms by (metis al_items_nth length_map nat_int nth_map)

lemma next_queued:
  assumes "queued (f # fs) w"
  shows "next_event w = Inr f"
proof -
  obtain l where l: "event_queue w = Some l" "al_wf l" "al_items l = map word_cells (f # fs)"
    "al_size l = int (length (f # fs))"
    by (rule queuedE[OF assms])
  have "arraylist_get l (int 0) = Inr (al_items l ! 0)"
    using l by (intro arraylist_get_ok) auto
  then show ?thesis using l by (simp add: next_event_def)
qed

lemma enqueue_queued:
  assumes "queued fs w" "mem_plenty (event_heap w)" "length fs < 2 ^ 59"
  shows "\<exists>w'. enqueue_event f w = Inr w' \<and> queued (fs @ [f]) w' \<and> vm w' = vm w \<and> mem_plenty (event_heap w')"
proof -
  obtain l where l: "event_queue w = Some l" "al_wf l" "size_of_item l = 8" "al_items l = map word_cells fs"
    "al_size l = int (length fs)"
    by (rule queuedE[OF assms(1)])
  have "int (length fs) < 2 ^ 59" using assms(3) by (simp only: of_nat_less_numeral_power_cancel_iff)
  then have room: "al_room l" using l(3,5) by (simp add: al_room_def)
  obtain l' h where p: "arraylist_push l (word_cells f) (event_heap w) = Inr (al_size l, l', h)" "al_wf l'"
    "mem_plenty h" "al_items l' = al_items l @ [word_cells f]" "size_of_item l' = size_of_item l"
    using arraylist_push_ok[OF l(2) assms(2) room, of "word_cells f"] l(3) by auto
  have "queued (fs @ [f]) (w\<lparr>event_queue := Some l', event_heap := h\<rparr>)"
    using p l by (auto simp: queued_def sizeof_uint_t_def)
  then show ?thesis using l p by (simp add: enqueue_event_def)
qed

section \<open>Serving\<close>

lemma served_queue:
  assumes "queued (f # fs) w" "call_next_event load n w = Inr w'"
  shows "\<exists>l l'. event_queue w = Some l \<and> close_gap l 0 = Inr l' \<and> event_queue w' = Some l' \<and>
    event_heap w' = event_heap w"
  using assms unfolding call_next_event_def
  by (auto simp: next_queued arraylist_remove_index_def queued_def elim!: ebind_InrE split: option.splits)

text \<open>Removing the only item leaves its bytes where they are and \<open>top\<close> behind them.\<close>

lemma close_gap_only:
  assumes "al_wf l" "al_size l = 1" "close_gap l 0 = Inr l'"
  shows "l' = l\<lparr>al_size := 0\<rparr>"
proof -
  have "mem_write 0 [] (cells (al_data l)) = Inr (cells (al_data l))" by (simp add: mem_write_def)
  then show ?thesis
    using assms by (auto simp: close_gap_def Let_def peek_def mem_read_def poke_def elim!: ebind_InrE split: if_splits)
qed

lemma block_holds_item: "al_wf l \<Longrightarrow> size_of_item l \<le> length (cells (al_data l))"
  by (erule al_wf_nat) (metis One_nat_def Suc_leI mult_le_mono1 nat_mult_1)

text \<open>What is pushed behind a list of one item that has been removed does not take its place.\<close>

lemma push_behind:
  assumes "al_wf l" "al_size l = 1" "arraylist_push (l\<lparr>al_size := 0\<rparr>) x h = Inr (i, l', h')"
  shows "arraylist_get l' 0 = Inr (al_item l 0)"
proof -
  let ?k = "size_of_item l"
  have wf: "0 < al_capacity l" "al_top l = int ?k" using assms(1,2) by (simp_all add: al_wf_def)
  have "?k \<le> length (cells (al_data l))" using assms(1) by (rule block_holds_item)
  moreover obtain d where d: "poke (int ?k) x (al_data l) = Inr d" and l': "al_data l' = d" "size_of_item l' = ?k"
    using assms(3) wf by (auto simp: arraylist_push_def elim!: ebind_InrE)
  moreover obtain cs where w: "mem_write ?k x (cells (al_data l)) = Inr cs" and cs: "cells d = cs"
    using d by (rule poke_InrE) auto
  ultimately show ?thesis
    using slice_write_before[OF w, of 0 ?k] mem_write_length[OF w]
    by (simp add: arraylist_get_def peek_def mem_read_def al_item_def)
qed

text \<open>Serving the first of two events mixes their addresses.\<close>

lemma two_events_mix:
  assumes "queued [f, g] w" "call_next_event load n w = Inr w'"
  shows "next_event w' = Inr (word_of_nat (le_value (hd (word_bytes g) # tl (word_bytes f))))"
proof -
  obtain l where l: "event_queue w = Some l" "al_wf l" "size_of_item l = 8"
    "al_items l = map word_cells [f, g]" "al_size l = int (length [f, g])"
    by (rule queuedE[OF assms(1)])
  then have two: "al_item l 0 = word_cells f" "al_item l (Suc 0) = word_cells g"
    using item_of_queue[OF l(4,5), of 0] item_of_queue[OF l(4,5), of 1] by simp_all
  obtain l1 where l1: "close_gap l (int 0) = Inr l1"
    "al_item l1 0 = take 1 (al_item l (0 + 1)) @ drop 1 (al_item l 0)"
    using close_gap_effect[OF l(2), of 0 1] l(3,5) by auto
  have w': "event_queue w' = Some l1" using served_queue[OF assms] l(1) l1(1) by auto
  have "size_of_item l1 = 8" "length (cells (al_data l1)) = length (cells (al_data l))"
    using l1(1) l(3) by (auto simp: close_gap_def Let_def poke_def dest: mem_write_length elim!: ebind_InrE split: if_splits)
  then have "arraylist_get l1 0 = Inr (al_item l1 0)"
    using block_holds_item[OF l(2)] l(3) by (simp add: arraylist_get_def peek_def mem_read_def al_item_def)
  moreover have "al_item l1 0 = map Some (hd (word_bytes g) # tl (word_bytes f))"
    using l1(2) two by (simp add: word_cells_def take_Suc drop_Suc map_tl hd_map)
  ultimately show ?thesis using w' by (simp add: next_event_def cells_word_bytes del: list.map)
qed

text \<open>Once the list exists the waiting loop does not end: it serves events, spins or stops in an error.\<close>

lemma call_keeps_queue:
  "call_next_event load n w = Inr w' \<Longrightarrow> event_queue w \<noteq> None \<Longrightarrow> event_queue w' \<noteq> None"
  unfolding call_next_event_def by (auto elim!: ebind_InrE split: option.splits)

lemma waiting_never_ends: "event_queue w \<noteq> None \<Longrightarrow> isl (wait_for_event load n k w)"
proof (induction k arbitrary: w)
  case 0
  then show ?case by (subst wait_for_event.simps) auto
next
  case (Suc k)
  obtain l where l: "event_queue w = Some l" using Suc(2) by blast
  let ?next = "if al_size l \<noteq> 0 then call_next_event load n w else Inr w"
  have "event_queue w1 \<noteq> None" if "?next = Inr w1" for w1
    using that call_keeps_queue[of load n w w1] Suc(2) by (auto split: if_splits)
  then show ?case using Suc(1) l by (subst wait_for_event.simps) (cases ?next; auto)
qed

section \<open>Properties\<close>

text \<open>
  C31: an event is not removed by serving it: when the only queued function has been called and another
  one is enqueued then, the next to be called is the first one again.
\<close>

theorem served_event_returns:
  assumes "queued [f] w" "call_next_event load n w = Inr w1" "enqueue_event g w1 = Inr w2"
  shows "next_event w2 = Inr f"
proof -
  obtain l where l: "event_queue w = Some l" "al_wf l" "al_items l = map word_cells [f]"
    "al_size l = int (length [f])"
    by (rule queuedE[OF assms(1)])
  have "event_queue w1 = Some (l\<lparr>al_size := 0\<rparr>)"
    using served_queue[OF assms(1,2)] close_gap_only[OF l(2)] l(1,4) by auto
  then obtain i l2 h where p: "arraylist_push (l\<lparr>al_size := 0\<rparr>) (word_cells g) (event_heap w1) = Inr (i, l2, h)"
    and "event_queue w2 = Some l2"
    using assms(3) by (auto simp: enqueue_event_def elim!: ebind_InrE)
  then show ?thesis
    using push_behind[OF l(2) _ p] l(4) item_of_queue[OF l(3,4), of 0] by (simp add: next_event_def)
qed

definition waiting_machine :: machine where
  "waiting_machine = sample_machine\<lparr>heap := (heap sample_machine)(128 \<mapsto>
     \<lparr>obj_version = 0, ob = Function_object 16 0 64 0\<rparr>), object_count := 2\<rparr>"

definition waiting_events :: events where
  "waiting_events = \<lparr>event_queue = Some \<lparr>al_size = 1, al_capacity = 3,
     al_data = \<lparr>header = 32, cells = word_cells 128 @ replicate 16 None\<rparr>, al_top = 8, size_of_item = 8,
     al_header = 48\<rparr>, event_heap = heap_init (\<lambda>_. True), vm = waiting_machine\<rparr>"

definition called_machine :: machine where
  "called_machine = sample_machine\<lparr>heap := [64 \<mapsto> \<lparr>obj_version = 0, ob = Context empty_ctx\<rparr>,
     128 \<mapsto> \<lparr>obj_version = 0, ob = Function_object 16 0 64 0\<rparr>,
     192 \<mapsto> \<lparr>obj_version = 0, ob = Context (empty_ctx\<lparr>parent_context := 64\<rparr>)\<rparr>], object_count := 3,
     states := [sample_state\<lparr>instruction_pointer := 16, current_context := 192\<rparr>]\<rparr>"

lemma called_run:
  "case z_interpreter_run no_classes 3 0 called_machine of Inl _ \<Rightarrow> False
   | Inr m \<Rightarrow> (case get_state 0 m of Inl _ \<Rightarrow> False | Inr st \<Rightarrow> \<not> return_code st)"
  by code_simp

lemma waiting_run: "\<exists>m. run_event no_classes 3 128 waiting_machine = Inr m"
proof -
  have new: "context_new waiting_machine = Inr (192, waiting_machine\<lparr>heap := (heap waiting_machine)(192 \<mapsto>
      \<lparr>obj_version = 0, ob = Context empty_ctx\<rparr>), object_count := 3\<rparr>)"
    by (simp add: context_new_def new_object_def within_limit_def waiting_machine_def sample_machine_def address_def)
  have start: "upd_state 0 (\<lambda>x. x\<lparr>instruction_pointer := 16, current_context := 192\<rparr>)
      (put_ctx 192 (empty_ctx\<lparr>parent_context := 64\<rparr>) (waiting_machine\<lparr>heap := (heap waiting_machine)(192 \<mapsto>
        \<lparr>obj_version = 0, ob = Context empty_ctx\<rparr>), object_count := 3\<rparr>)) = called_machine"
    by (simp add: called_machine_def waiting_machine_def sample_machine_def put_ctx_def put_object_def upd_state_def)
  have "function_at 128 waiting_machine = Inr (16, 0, 64, 0)"
    by (simp add: function_at_def get_object_def waiting_machine_def)
  then show ?thesis
    using called_run new start by (auto simp: run_event_def split: sum.splits)
qed

lemma waiting_queued: "queued [128] waiting_events"
  by (simp add: queued_def waiting_events_def al_wf_def al_items_def al_item_def block_ok_def sizeof_uint_t_def)

theorem served_event_returns_witness:
  "\<exists>w1 w2. call_next_event no_classes 3 waiting_events = Inr w1 \<and> enqueue_event 192 w1 = Inr w2 \<and>
    next_event w2 = Inr 128"
proof -
  obtain m where m: "run_event no_classes 3 128 waiting_machine = Inr m"
    using waiting_run by blast
  have vm: "vm waiting_events = waiting_machine" by (simp add: waiting_events_def)
  obtain w1 where w1: "call_next_event no_classes 3 waiting_events = Inr w1"
    using m vm next_queued[OF waiting_queued]
    by (simp add: call_next_event_def) (simp add: waiting_events_def arraylist_remove_index_def
        close_gap_def peek_def mem_read_def poke_def mem_write_def)
  obtain w2 where w2: "enqueue_event 192 w1 = Inr w2"
    using w1 m vm next_queued[OF waiting_queued]
    by (simp add: call_next_event_def) (auto simp: waiting_events_def arraylist_remove_index_def
        close_gap_def peek_def mem_read_def poke_def mem_write_def enqueue_event_def arraylist_push_def)
  show ?thesis using served_event_returns[OF waiting_queued w1 w2] w1 w2 by blast
qed

end
