(* ===== verification/ZProgram.thy ===== *)
theory ZProgram
  imports Optimizer
begin

text \<open>
  src/src/program/program.h: the older program list, which fuses instructions as they are added; the
  compiler uses the class \<open>Program\<close> and \<open>BytecodeOptimizer\<close> now and nothing calls these functions.
  The lemmas compare its rule for jumps with the one of the optimizer.
\<close>

section \<open>The latest instruction\<close>

text \<open>
  \<open>latest_from p i j\<close>: the loop, with the counter \<open>i\<close> and the instruction at \<open>j\<close> in hand. The
  instruction is read before the counter goes down, so the one at 0 is never read in the loop.
\<close>

primrec latest_from :: "program \<Rightarrow> nat \<Rightarrow> nat \<Rightarrow> nat" where
  "latest_from p 0 j = j"
| "latest_from p (Suc i) j = (if opc (p ! j) = COMMENT then latest_from p i (Suc i) else j)"

text \<open>\<open>None\<close> for the empty program, where the index wraps around.\<close>

definition z_program_get_latest_instruction :: "program \<Rightarrow> nat option" where
  "z_program_get_latest_instruction p =
     (if p = [] then None else Some (latest_from p (length p - 1) (length p - 1)))"

section \<open>Adding instructions\<close>

definition push_instruction :: "opcode \<Rightarrow> operand \<Rightarrow> operand \<Rightarrow> operand \<Rightarrow> program \<Rightarrow> nat \<times> program" where
  "push_instruction c a b d p = (length p, p @ [instruction_new c a b d])"

text \<open>\<open>None\<close> when the latest instruction is asked for and there is none.\<close>

definition z_program_add_instruction ::
  "opcode \<Rightarrow> operand \<Rightarrow> operand \<Rightarrow> operand \<Rightarrow> program \<Rightarrow> (nat \<times> program) option" where
  "z_program_add_instruction c a b d p =
     (if c = JMP_TRUE \<or> c = JMP_NOT_TRUE then
        map_option (\<lambda>j.
          let latest = p ! j in
          if is_cmp (opc latest)
          then (length p - 1, p[j := latest\<lparr>opc := fuse_jump (opc latest) (c = JMP_NOT_TRUE), r2 := b\<rparr>])
          else push_instruction c a b d p) (z_program_get_latest_instruction p)
      else if c = MOV then
        map_option (\<lambda>j.
          let latest = p ! j in
          if (opc latest = MOV_NUMBER \<or> opc latest = MOV_STR) \<and> r0 latest = b
          then (length p - 1, p[j := latest\<lparr>r0 := a\<rparr>])
          else push_instruction c a b d p) (z_program_get_latest_instruction p)
      else Some (push_instruction c a b d p))"

definition z_program_new :: program where
  "z_program_new = []"

definition z_program_add_label :: "string \<Rightarrow> program \<Rightarrow> (nat \<times> program) option" where
  "z_program_add_label s p = z_program_add_instruction LABEL (Str (take 98 s)) null_op null_op p"

definition z_program_add_comment :: "string \<Rightarrow> program \<Rightarrow> (nat \<times> program) option" where
  "z_program_add_comment s p = z_program_add_instruction COMMENT (Str (take 98 s)) null_op null_op p"

section \<open>What the latest instruction is\<close>

lemma latest_from_le: "i \<le> j \<Longrightarrow> latest_from p i j \<le> j"
proof (induction i arbitrary: j)
  case 0
  then show ?case by simp
next
  case (Suc i)
  have "latest_from p i (Suc i) \<le> Suc i" using Suc.IH[of "Suc i"] by simp
  with Suc.prems show ?case by simp
qed

lemma latest_in_program: "z_program_get_latest_instruction p = Some j \<Longrightarrow> j < length p"
  using latest_from_le[of "length p - 1" "length p - 1" p]
  by (cases p) (auto simp: z_program_get_latest_instruction_def split: if_splits)

lemma latest_last: "p \<noteq> [] \<Longrightarrow> opc (last p) \<noteq> COMMENT \<Longrightarrow> z_program_get_latest_instruction p = Some (length p - 1)"
  by (cases "length p - 1") (simp_all add: z_program_get_latest_instruction_def last_conv_nth)

text \<open>A comment right after the first instruction hides it.\<close>

lemma comment_hides_first: "opc k = COMMENT \<Longrightarrow> z_program_get_latest_instruction [i, k] = Some 1"
  by (simp add: z_program_get_latest_instruction_def)

section \<open>Comparison with the optimizer\<close>

text \<open>
  A jump added behind a compare is fused into what the optimizer makes of the two, unless the target
  is the word of the third operand of the compare, which sends the optimizer to another rule.
\<close>

lemma added_jump_fused:
  assumes "is_cmp (opc i)" "c = JMP_TRUE \<or> c = JMP_NOT_TRUE"
  shows "\<exists>k. z_program_add_instruction c a b d (p @ [i]) = Some (length p, p @ [k]) \<and>
    (b \<noteq> r2 i \<longrightarrow> opt_iter i (Some (instruction_new c a b d)) = Some (Some k, True))"
proof -
  have "opc i \<noteq> COMMENT" "opc i \<noteq> RETURN" "opc i \<noteq> MOV" "opc i \<noteq> MOV_NUMBER"
    using assms(1) by (auto simp: is_cmp_cases)
  then show ?thesis
    using assms latest_last[of "p @ [i]"]
    by (auto simp: z_program_add_instruction_def opt_iter_def Let_def)
qed

text \<open>A constant moved on is loaded into the target only: the register it was loaded into is not written.\<close>

lemma added_move_retargets:
  assumes "opc i = MOV_NUMBER"
  shows "z_program_add_instruction MOV a (r0 i) d (p @ [i]) = Some (length p, p @ [i\<lparr>r0 := a\<rparr>])"
  using assms latest_last[of "p @ [i]"] by (simp add: z_program_add_instruction_def)

text \<open>Programs only grow at the end, and a label or a comment is always added.\<close>

lemma added_length:
  assumes "z_program_add_instruction c a b d p = Some (n, q)"
  shows "length p \<le> length q" "n = length q - 1"
  using assms unfolding z_program_add_instruction_def
  by (auto simp: push_instruction_def Let_def split: if_splits)

lemma label_added: "z_program_add_label s p = Some (length p, p @ [instruction_new LABEL (Str (take 98 s)) null_op null_op])"
  by (simp add: z_program_add_label_def z_program_add_instruction_def push_instruction_def)

end
