(* ===== verification/Spec2Isabelle.thy ===== *)
theory Spec2Isabelle
  imports Alloc ArrayList ZMap Optimizer AddressCalculator ExprCompiler Compiler CompilerTotal F64 Assembler
    SymbolTable Interpreter InterpInv Samples Scopes Exceptions Calls Collector GeneratedClasses Driver
    Blocks Arithmetic Fusion ClassFiles LabelCode Statements Threads EventQueue ZProgram
begin

text \<open>
  Zeroscript is a small class-based scripting language. The program compiles a source file to a class
  file and runs it: the ANTLR parser (generated) and src/src/compiler/AstGenerator.cpp give a syntax
  tree; src/src/compiler/AddressCalculator.cpp gives every name a register;
  src/src/compiler/Compiler.cpp and ExprssionCompiler.cpp emit instructions;
  src/src/program/BytecodeOptimizer.cpp rewrites them; src/src/program/Assembler.cpp lays them out as
  bytes; src/src/interpreter runs the bytes.

  \<^bold>\<open>Theories and what they model.\<close>
  \<^item> Prelude: faults as values (\<open>fault + 'a\<close>), the sequencing \<open>ebind\<close>, bytes in memory.
  \<^item> Alloc: src/src/common/alloc.c, headers and the accounting of \<open>used_heap\<close>.
  \<^item> ArrayList: common/data_structures/arraylist.c at the level of the bytes of its block.
  \<^item> ZMap: common/data_structures/map.c, the bagged hash map with flags.
  \<^item> Instr: program/instruction.h and Program.cpp. Optimizer: program/BytecodeOptimizer.cpp.
  \<^item> FunctionKind: compiler/ast/FunctionKind.cpp, register tables. Ast: the tree of compiler/ast.
  \<^item> AddressCalculator, ExprCompiler, Compiler: the files of the same names in compiler/; CompilerTotal
    holds the proof that compilation returns.
  \<^item> ParseTree: the trees of the grammar src/zeroscript.g4. AstGenerator: compiler/AstGenerator.cpp, the
    visitors from these trees to Ast. GeneratedClasses: what they guarantee, and where they go wrong.
  \<^item> Assembler: program/Assembler.cpp. SymbolTable: the reader of its symbol tables in
    interpreter/object.c.
  \<^item> F64: IEEE binary64 on 64-bit words, as far as the interpreter calculates with \<open>FLOAT\<close>.
  \<^item> Machine: the objects, registers, states of interpreter/object.h and interpreter_dd.c, as one
    record \<open>machine\<close>; pointers are addresses in \<open>heap\<close>. Runtime: exceptions, names and class loading.
    Natives: interpreter/native_functions.c. Interpreter: one definition per instruction of
    \<open>z_interpreter_run\<close>, their dispatch, and the run of a compiled class (\<open>run_main\<close>).
    Collector: interpreter/garbage_collector.h.
  \<^item> Threads: \<open>schedule_gc\<close> of common/alloc.c with its barriers, and how interpreter_dd.c starts and ends
    threads, as a relation of interleaving steps of any number of threads.
  \<^item> EventQueue: interpreter/event_queue.c with \<open>native_enqueue\<close>, beside the machine. ZProgram:
    program/program.h, the older program list that fuses as it appends. Nothing in the program reaches
    either: \<open>native_enqueue\<close> is bound to no name, \<open>wait_for_event\<close> and the \<open>z_program\<close> functions are
    not called.
  \<^item> Driver: main.cpp (\<open>main\<close>, \<open>compile_file\<close>) and \<open>load_class_code\<close> of interpreter/object.c.
  \<^item> InterpInv (on MachineInv): every instruction and every run keeps an invariant of the machine.
    Samples: small machines to apply properties on. Scopes: names. Exceptions: throwing. Calls: calls
    and returns.
  \<^item> Blocks: a block of instructions on numbers, as Assembler encodes it inside a program, is executed by
    Interpreter's dispatch as \<open>reg_step\<close> says. Arithmetic: the blocks ExprCompiler emits for arithmetic
    expressions and for assignments to locals compute their values (\<open>arith_value\<close> on doubles,
    \<open>int_value\<close> on integers) and touch no register in use. Fusion: the jumps the optimiser makes decide as
    the instructions they replace. LabelCode: a program with labels and jumps, followed as a list, is run by
    the interpreter on its assembled bytes in the same steps. Statements: what assignments, declarations,
    blocks, conditionals and loops mean (\<open>executes\<close>), and that the code of Compiler does it.
    ClassFiles: every compiled class is assembled.

  \<^bold>\<open>Interfaces.\<close> The locales \<open>vector_ops\<close> (ArrayList), \<open>str_map\<close> (ZMap), \<open>reg_alloc\<close> (FunctionKind) and
  \<open>runner_contract\<close> (InterpInv: what the instructions rely on when they run code themselves) state what
  one component relies on of another; each is interpreted on the model of the code.

  \<^bold>\<open>What the properties show.\<close> AstGenerator: it returns on the sources that need no null pointer, its classes
  consist of new functions, so that they compile; some sources are not translated to what they say. Compiler: it returns on every well-formed class; every register it uses
  lies in the frame the function announces; names get the registers the calling convention needs; the
  optimiser is safe on all it can be given. Assembler: a class file holds the program it was made from,
  its texts and its symbol tables can be read back. Runtime: containers refine a stack and a finite
  map; runs keep the machine well formed; names are looked up lexically; exceptions reach the innermost
  handler; arguments and results arrive; a collection keeps what its roots reach and frees the rest,
  with two exceptions. Across the stages: an arithmetic expression that is compiled, assembled and run
  leaves its value in the register the compiler named, exactly so for integers up to 2^53; statements over such
  expressions, loops included, do what they mean before the optimiser, whose rewritings are looked at one by one. Threads: the collector runs
  while every other thread is held, and the barriers never wait for a thread that is not there. Several properties state where the code does not do what it
  means to; the findings of the manifest list them.

  \<^bold>\<open>Bounds and fuel.\<close> The compiler recurses with a budget that \<open>compiler_returns\<close> shows to be enough for
  well-formed classes. \<open>z_interpreter_run\<close> takes a bound on the number of instructions, since programs
  may run forever; properties of runs hold for every bound. AstGenerator has fuel
  for logical operators, which are parsed again; as much as they nest is enough. The walks along contexts
  are bounded by the number of objects, which the invariant shows to be enough. Numbers are 64-bit words, addresses run
  over \<open>max_objects\<close> objects.

  \<^bold>\<open>Hypotheses on code outside the repository.\<close> \<open>malloc\<close> returns fresh memory; the parser and
  \<open>getText\<close> of ANTLR are arguments (\<open>parse\<close>, \<open>getText\<close>), of which properties assume that rewritten
  texts are read back with no deeper nesting and that texts are concatenations; files are an argument of
  the driver, and \<open>load\<close> of the interpreter is what it makes of them.

  \<^bold>\<open>Not modelled.\<close> The parser (generated by ANTLR); instructions of several
  threads interleaved on one machine (\<open>async\<close> calls leave a record that \<open>run_async\<close> runs in one piece;
  Threads has the interleavings of their collections only; a mutex is one step or nothing); files,
  and output other than the list of printed texts (the input is a string); print methods and logging.
\<close>

end
